(* ===== verification/Prelude.thy ===== *)
theory Prelude
  imports Main "HOL-Library.Word" "HOL-Library.Monad_Syntax"
begin

unbundle bit_operations_syntax

text \<open>
  The vocabulary every theory shares: the machine integer types of the source, the build
  configuration the source branches on (\<^verbatim>\<open>cfg!\<close>), the standard library operations the
  allocator uses (checked arithmetic, shifts, bit counting, slice access), the two fact
  collections of the development, and generic lemmas on words and on the option monad.

  A value of type \<open>'a option\<close> that stands for a computation is \<^const>\<open>None\<close> when the program
  panics, aborts or touches memory that is not mapped.
\<close>

section \<open>Types and build configuration\<close>

type_synonym u8 = "8 word"
type_synonym u32 = "32 word"
type_synonym u64 = "64 word"
type_synonym usize = "64 word"

text \<open>
  \<open>paranoid\<close> is \<^verbatim>\<open>cfg(any(test, feature = "paranoid"))\<close>, \<open>overflow_checks\<close> is rustc's setting
  that makes \<open>+\<close> and \<open>-\<close> panic instead of wrapping, \<open>realloc_inplace\<close> is the crate feature of
  that name.
\<close>

record build =
  paranoid :: bool
  overflow_checks :: bool
  realloc_inplace :: bool

named_theorems rust_defs \<open>definitions of the standard library operations\<close>
named_theorems word_nat \<open>words read as natural numbers\<close>

section \<open>Arithmetic\<close>

definition add_chk :: "build \<Rightarrow> 'a::len word \<Rightarrow> 'a word \<Rightarrow> 'a word option" where
  [rust_defs]: "add_chk c x y =
     (if overflow_checks c \<and> 2 ^ LENGTH('a) \<le> unat x + unat y then None else Some (x + y))"

definition sub_chk :: "build \<Rightarrow> 'a::len word \<Rightarrow> 'a word \<Rightarrow> 'a word option" where
  [rust_defs]: "sub_chk c x y = (if overflow_checks c \<and> x < y then None else Some (x - y))"

definition mul_chk :: "build \<Rightarrow> 'a::len word \<Rightarrow> 'a word \<Rightarrow> 'a word option" where
  [rust_defs]: "mul_chk c x y =
     (if overflow_checks c \<and> 2 ^ LENGTH('a) \<le> unat x * unat y then None else Some (x * y))"

definition next_multiple_of :: "build \<Rightarrow> 'a::len word \<Rightarrow> 'a word \<Rightarrow> 'a word option" where
  "next_multiple_of c x y = (if x mod y = 0 then Some x else add_chk c x (y - x mod y))"

definition checked_add_word :: "'a::len word \<Rightarrow> 'a word \<Rightarrow> 'a word option" where
  [rust_defs]: "checked_add_word x y =
     (if 2 ^ LENGTH('a) \<le> unat x + unat y then None else Some (x + y))"

definition checked_mul_word :: "'a::len word \<Rightarrow> 'a word \<Rightarrow> 'a word option" where
  [rust_defs]: "checked_mul_word x y =
     (if 2 ^ LENGTH('a) \<le> unat x * unat y then None else Some (x * y))"

text \<open>
  A shift by a run-time amount uses the low bits of the amount, as the hardware does. A build with
  overflow checks panics on an amount of at least the width instead; no shift of the program gets one (\<open>bin_shifts_defined\<close>
  and \<open>mask_shifts_defined\<close>), so that both agree.
\<close>

definition shl :: "'a::len word \<Rightarrow> u32 \<Rightarrow> 'a word" where
  "shl w k = push_bit (unat k mod LENGTH('a)) w"

definition shr :: "'a::len word \<Rightarrow> u32 \<Rightarrow> 'a word" where
  "shr w k = drop_bit (unat k mod LENGTH('a)) w"

section \<open>Bit counting\<close>

definition trailing_zeros :: "'a::len word \<Rightarrow> u32" where
  "trailing_zeros w = of_nat (length (takeWhile (\<lambda>i. \<not> bit w i) [0..<LENGTH('a)]))"

definition leading_zeros :: "'a::len word \<Rightarrow> u32" where
  "leading_zeros w = of_nat (length (takeWhile (\<lambda>i. \<not> bit w i) (rev [0..<LENGTH('a)])))"

definition count_ones :: "'a::len word \<Rightarrow> nat" where
  "count_ones w = length (filter (bit w) [0..<LENGTH('a)])"

definition is_power_of_two :: "'a::len word \<Rightarrow> bool" where
  "is_power_of_two w \<longleftrightarrow> count_ones w = 1"

section \<open>Assertions and slices\<close>

text \<open>
  The argument is a computation, because the asserted expression is only evaluated in the
  paranoid build.
\<close>

definition paranoid_assert :: "build \<Rightarrow> bool option \<Rightarrow> unit option" where
  "paranoid_assert c e = (if paranoid c then (case e of Some True \<Rightarrow> Some () | _ \<Rightarrow> None) else Some ())"

definition get_unchecked :: "'a list \<Rightarrow> nat \<Rightarrow> 'a option" where
  "get_unchecked xs i = (if i < length xs then Some (xs ! i) else None)"

definition set_unchecked :: "'a list \<Rightarrow> nat \<Rightarrow> 'a \<Rightarrow> 'a list option" where
  "set_unchecked xs i v = (if i < length xs then Some (xs[i := v]) else None)"

lemma paranoid_assert_True [simp]: "paranoid_assert c (Some True) = Some ()"
  by (simp add: paranoid_assert_def)

lemma get_unchecked_in [simp]: "i < length xs \<Longrightarrow> get_unchecked xs i = Some (xs ! i)"
  by (simp add: get_unchecked_def)

lemma set_unchecked_in [simp]: "i < length xs \<Longrightarrow> set_unchecked xs i v = Some (xs[i := v])"
  by (simp add: set_unchecked_def)

section \<open>Words as natural numbers\<close>

lemma div_between: "u * x \<le> k \<Longrightarrow> k < u * y \<Longrightarrow> x \<le> k div u \<and> k div u < y" for k :: nat
  by (metis div_le_mono less_mult_imp_div_less mult.commute nonzero_mult_div_cancel_left not_less_zero mult_zero_left)

lemma unat_of_nat_small [word_nat]: "n < 2 ^ LENGTH('a) \<Longrightarrow> unat (of_nat n :: 'a::len word) = n"
  by (simp add: unat_of_nat)

lemma of_nat_word_eq_iff:
  "m < 2 ^ LENGTH('a) \<Longrightarrow> n < 2 ^ LENGTH('a) \<Longrightarrow>
   (of_nat m :: 'a::len word) = of_nat n \<longleftrightarrow> m = n"
  by (metis unat_of_nat_small)

lemma of_nat_word_less_iff:
  "m < 2 ^ LENGTH('a) \<Longrightarrow> n < 2 ^ LENGTH('a) \<Longrightarrow>
   (of_nat m :: 'a::len word) < of_nat n \<longleftrightarrow> m < n"
  by (simp add: word_less_nat_alt unat_of_nat)

lemma of_nat_word_le_iff:
  "m < 2 ^ LENGTH('a) \<Longrightarrow> n < 2 ^ LENGTH('a) \<Longrightarrow>
   (of_nat m :: 'a::len word) \<le> of_nat n \<longleftrightarrow> m \<le> n"
  by (simp add: word_le_nat_alt unat_of_nat)

lemma unat_exp_below [word_nat]: "k < LENGTH('a) \<Longrightarrow> unat (2 ^ k :: 'a::len word) = 2 ^ k"
  by (metis of_nat_numeral of_nat_power one_less_numeral_iff power_strict_increasing semiring_norm(76)
      unat_of_nat_small)

lemma word_eq_0_iff_bits: "(w :: 'a::len word) = 0 \<longleftrightarrow> (\<forall>i. \<not> bit w i)"
  by (auto intro: bit_word_eqI)

lemma unat_add_small:
  "unat x + unat y < 2 ^ LENGTH('a) \<Longrightarrow> unat (x + y :: 'a::len word) = unat x + unat y"
  by (simp add: unat_word_ariths)

lemma unat_ucast_up [word_nat]:
  "LENGTH('a) \<le> LENGTH('b) \<Longrightarrow> unat (ucast (w :: 'a::len word) :: 'b::len word) = unat w"
proof -
  assume "LENGTH('a) \<le> LENGTH('b)"
  then have "unat w < 2 ^ LENGTH('b)"
    using unsigned_less [where ?'a = nat, of w] by (meson less_le_trans one_le_numeral power_increasing)
  then show ?thesis by (simp add: unsigned_ucast_eq take_bit_nat_eq_self)
qed

lemma unat_drop_bit_div: "unat (drop_bit n w) = unat w div 2 ^ n"
  by (simp add: unat_drop_bit_eq flip: drop_bit_eq_div)

lemma unat_push_bit_mod: "unat (push_bit n w :: 'a::len word) = unat w * 2 ^ n mod 2 ^ LENGTH('a)"
  by (metis push_bit_eq_mult take_bit_eq_mod unsigned_push_bit_eq)

lemma add_chk_ok: "unat x + unat y < 2 ^ LENGTH('a) \<Longrightarrow> add_chk c x y = Some (x + y :: 'a::len word)"
  by (simp add: add_chk_def)

lemma sub_chk_ok: "y \<le> x \<Longrightarrow> sub_chk c x y = Some (x - y)"
  by (simp add: sub_chk_def not_less)

lemma mul_chk_ok: "unat x * unat y < 2 ^ LENGTH('a) \<Longrightarrow> mul_chk c x y = Some (x * y :: 'a::len word)"
  by (simp add: mul_chk_def)

lemma round_up_mod: "0 < y \<Longrightarrow> (n + (y - n mod y)) mod y = 0" for n y :: nat
proof -
  assume "0 < y"
  then have "n mod y \<le> y" by (simp add: order_less_imp_le)
  then have "n + (y - n mod y) = n div y * y + y" using div_mult_mod_eq [of n y] by linarith
  then show ?thesis by simp
qed

lemma next_multiple_of_ok:
  assumes "unat x + unat y \<le> 2 ^ LENGTH('a)" "0 < unat y"
  obtains z where "next_multiple_of c x y = Some (z :: 'a::len word)" "unat x \<le> unat z" "unat z < unat x + unat y"
    "unat z mod unat y = 0"
proof (cases "x mod y = 0")
  case True
  then have "unat x mod unat y = 0" by (simp flip: unat_mod)
  then show thesis using that [of x] True assms(2) by (simp add: next_multiple_of_def)
next
  case False
  have le: "x mod y \<le> y" using assms(2) by (simp add: word_le_nat_alt unat_mod order_less_imp_le)
  have d: "unat (y - x mod y) = unat y - unat x mod unat y" using unat_sub [OF le] by (simp only: unat_mod)
  have pos: "0 < unat x mod unat y" using False by (metis gr0I unat_eq_0 unat_mod)
  have lt: "unat x mod unat y < unat y" using assms(2) by simp
  have s: "unat x + unat (y - x mod y) < 2 ^ LENGTH('a)" unfolding d using assms(1) pos lt by linarith
  then have z: "unat (x + (y - x mod y)) = unat x + (unat y - unat x mod unat y)" by (simp add: unat_add_small d)
  then show thesis
    using that [of "x + (y - x mod y)"] False s pos lt round_up_mod [OF assms(2), of "unat x"]
    by (simp add: next_multiple_of_def add_chk_ok)
qed

section \<open>Bit counting, characterised\<close>

lemma length_takeWhile_upt_first:
  assumes "p k" "k < n" "\<And>i. i < k \<Longrightarrow> \<not> p i"
  shows "length (takeWhile (\<lambda>i. \<not> p i) [0..<n]) = k"
proof -
  have "[0..<n] = [0..<k] @ [k..<n]"
    using assms(2) by (metis add.left_neutral less_imp_le_nat upt_add_eq_append zero_le le_add_diff_inverse)
  moreover have "[k..<n] = k # [Suc k..<n]" using assms(2) by (simp add: upt_conv_Cons)
  ultimately show ?thesis using assms by (simp add: takeWhile_append)
qed

lemma trailing_zeros_eqI:
  assumes "bit w k" "\<And>i. i < k \<Longrightarrow> \<not> bit (w :: 'a::len word) i" "LENGTH('a) < 2 ^ 32"
  shows "unat (trailing_zeros w) = k"
proof -
  have "k < LENGTH('a)" using assms(1) by (rule bit_imp_le_length)
  then show ?thesis
    using assms length_takeWhile_upt_first [of "bit w" k "LENGTH('a)"]
    by (simp add: trailing_zeros_def unat_of_nat)
qed

lemma takeWhile_rev_upt_top:
  assumes "p k" "k < n" "\<And>i. k < i \<Longrightarrow> i < n \<Longrightarrow> \<not> p i"
  shows "length (takeWhile (\<lambda>i. \<not> p i) (rev [0..<n])) = n - 1 - k"
proof -
  have "[0..<n] = [0..<Suc k] @ [Suc k..<n]"
    using assms(2) by (metis Suc_leI le_add_diff_inverse upt_add_eq_append zero_le)
  then have "rev [0..<n] = rev [Suc k..<n] @ k # rev [0..<k]" by simp
  then show ?thesis using assms by (simp add: takeWhile_append)
qed

lemma unat_lt_exp_iff_bits:
  "unat (w :: 'a::len word) < 2 ^ k \<longleftrightarrow> (\<forall>i. k \<le> i \<longrightarrow> \<not> bit w i)"
proof -
  have "unat w < 2 ^ k \<longleftrightarrow> take_bit k w = w"
    by (metis take_bit_nat_eq_self_iff unsigned_take_bit_eq word_unat_eq_iff)
  also have "\<dots> \<longleftrightarrow> (\<forall>i. k \<le> i \<longrightarrow> \<not> bit w i)"
    by (auto simp: bit_eq_iff bit_take_bit_iff not_le dest: bit_imp_le_length)
  finally show ?thesis .
qed

lemma leading_zeros_eqI:
  assumes "2 ^ k \<le> unat (w :: 'a::len word)" "unat w < 2 ^ Suc k" "LENGTH('a) < 2 ^ 32"
  shows "unat (leading_zeros w) = LENGTH('a) - 1 - k"
proof -
  have hi: "\<not> bit w i" if "k < i" for i
    using assms(2) that unat_lt_exp_iff_bits [of w "Suc k"] by simp
  have "bit w k"
    using assms(1) hi unat_lt_exp_iff_bits [of w k] by (metis le_eq_less_or_eq not_less)
  moreover from this have "k < LENGTH('a)" by (rule bit_imp_le_length)
  ultimately show ?thesis
    using hi assms(3) takeWhile_rev_upt_top [of "bit w" k "LENGTH('a)"]
    by (simp add: leading_zeros_def unat_of_nat del: of_nat_diff)
qed

lemma unat_and_mask_mod: "unat m = 2 ^ k - 1 \<Longrightarrow> unat (w AND m :: 'a::len word) = unat w mod 2 ^ k"
proof -
  assume m: "unat m = 2 ^ k - 1"
  then have "m = of_nat (2 ^ k - 1)" by (metis of_nat_unat ucast_id)
  then have "m = mask k" by (simp add: mask_eq_exp_minus_1 of_nat_diff)
  then show ?thesis by (metis take_bit_eq_mask take_bit_eq_mod unsigned_take_bit_eq)
qed

lemma unat_or_low:
  assumes "2 ^ k dvd unat x" "unat y < 2 ^ k"
  shows "unat (x OR y :: 'a::len word) = unat x + unat y"
proof -
  have y: "\<not> bit y i" if "k \<le> i" for i using assms(2) that unat_lt_exp_iff_bits by blast
  have x: "\<not> bit x i" if "i < k" for i
  proof -
    have "take_bit k x = 0"
      using assms(1) by (metis mod_0_imp_dvd mod_eq_0_iff_dvd take_bit_eq_mod unat_eq_0 unsigned_take_bit_eq)
    then show ?thesis using that by (metis bit_0_eq bit_take_bit_iff bot_apply bot_bool_def)
  qed
  have d: "x AND y = 0" using x y by (auto simp: bit_eq_iff bit_simps not_less dest: leI)
  then have "x OR y = x + y" by (rule disjunctive_add_eq_or [symmetric])
  moreover have "unat x AND unat y = 0" using d by (metis unsigned_0 unsigned_and_eq)
  then have "unat x + unat y = unat (x OR y)"
    by (simp add: disjunctive_add_eq_or unsigned_or_eq)
  ultimately show ?thesis by simp
qed

end
