(* ===== verification/Sizes.thy ===== *)
theory Sizes
  imports Prelude
begin

text \<open>
  The type \<^verbatim>\<open>Size\<close> of \<^verbatim>\<open>src/allocator.rs\<close>: a count of 32-byte units in a \<^verbatim>\<open>u32\<close>, its
  conversions from and to bytes, its checked and unchecked arithmetic, its derived order, and
  \<^verbatim>\<open>align_offset\<close>. \<open>units\<close> reads a size as a natural number and \<open>sz\<close> writes one; the lemmas
  move every operation to natural numbers as long as nothing overflows.
\<close>

section \<open>The type and its operations\<close>

datatype Size = Size (raw_units: u32)

definition ALLOCATION_GRANULARITY :: u32 where
  "ALLOCATION_GRANULARITY = 32"

text \<open>\<^verbatim>\<open>ilog2\<close> is the index of the highest set bit.\<close>

definition ALLOCATION_SIZE_SHIFT :: u32 where
  "ALLOCATION_SIZE_SHIFT = 31 - leading_zeros ALLOCATION_GRANULARITY"

definition from_bytes_usize :: "usize \<Rightarrow> Size option" where
  "from_bytes_usize n =
     (case checked_add_word n (ucast ALLOCATION_GRANULARITY - 1) of
        None \<Rightarrow> None
      | Some padded \<Rightarrow>
          (let n' = shr padded ALLOCATION_SIZE_SHIFT
           in if n' > ucast (- 1 :: u32) then None else Some (Size (ucast n'))))"

definition bytes :: "Size \<Rightarrow> u32" where
  "bytes s = shl (raw_units s) ALLOCATION_SIZE_SHIFT"

definition Size_checked_add :: "Size \<Rightarrow> Size \<Rightarrow> Size option" where
  "Size_checked_add s r = map_option Size (checked_add_word (raw_units s) (raw_units r))"

definition Size_unchecked_add :: "build \<Rightarrow> Size \<Rightarrow> Size \<Rightarrow> Size option" where
  "Size_unchecked_add c s r = map_option Size (add_chk c (raw_units s) (raw_units r))"

definition Size_unchecked_sub :: "build \<Rightarrow> Size \<Rightarrow> Size \<Rightarrow> Size option" where
  "Size_unchecked_sub c s r = map_option Size (sub_chk c (raw_units s) (raw_units r))"

definition Size_is_empty :: "Size \<Rightarrow> bool" where
  "Size_is_empty s \<longleftrightarrow> raw_units s = 0"

instantiation Size :: linorder
begin

definition less_eq_Size :: "Size \<Rightarrow> Size \<Rightarrow> bool" where
  "less_eq_Size s r \<longleftrightarrow> raw_units s \<le> raw_units r"

definition less_Size :: "Size \<Rightarrow> Size \<Rightarrow> bool" where
  "less_Size s r \<longleftrightarrow> raw_units s < raw_units r"

instance
  by standard (auto simp: less_eq_Size_def less_Size_def Size.expand)

end

definition align_offset :: "build \<Rightarrow> u32 \<Rightarrow> u32 \<Rightarrow> usize \<Rightarrow> u32 option" where
  "align_offset c x a b = do {
     m \<leftarrow> sub_chk c a 1;
     let mask = (ucast m :: usize);
     let x = (ucast x :: usize);
     let b = shr b ALLOCATION_SIZE_SHIFT;
     t \<leftarrow> add_chk c b x;
     t \<leftarrow> add_chk c t mask;
     d \<leftarrow> sub_chk c (t AND NOT mask) b;
     Some (ucast d)
   }"

section \<open>Sizes as natural numbers\<close>

definition units :: "Size \<Rightarrow> nat" where
  "units s = unat (raw_units s)"

definition sz :: "nat \<Rightarrow> Size" where
  "sz n = Size (of_nat n)"

lemma raw_units_sz [simp]: "raw_units (sz n) = of_nat n"
  by (simp add: sz_def)

lemma units_less: "units s < 2 ^ 32"
  using unsigned_less [where ?'a = nat, of "raw_units s"] by (simp add: units_def)

lemma units_sz [simp]: "n < 2 ^ 32 \<Longrightarrow> units (sz n) = n"
  by (simp add: units_def sz_def unat_of_nat)

lemma sz_units [simp]: "sz (units s) = s"
  by (cases s) (simp add: units_def sz_def)

lemma units_inject: "units s = units r \<longleftrightarrow> s = r"
  by (metis sz_units)

lemma sz_inject: "m < 2 ^ 32 \<Longrightarrow> n < 2 ^ 32 \<Longrightarrow> sz m = sz n \<longleftrightarrow> m = n"
  by (metis units_sz)

lemma Size_le_iff: "s \<le> r \<longleftrightarrow> units s \<le> units r"
  by (simp add: less_eq_Size_def units_def word_le_nat_alt)

lemma Size_less_iff: "s < r \<longleftrightarrow> units s < units r"
  by (simp add: less_Size_def units_def word_less_nat_alt)

lemma raw_units_gt_iff: "raw_units s > raw_units r \<longleftrightarrow> units s > units r"
  by (simp add: units_def word_less_nat_alt)

lemma ALLOCATION_SIZE_SHIFT_eq [simp]: "ALLOCATION_SIZE_SHIFT = 5"
  by code_simp

lemma ALLOCATION_GRANULARITY_eq [simp]: "ALLOCATION_GRANULARITY = 32"
  by (simp add: ALLOCATION_GRANULARITY_def)

lemma Size_is_empty_iff [simp]: "Size_is_empty s \<longleftrightarrow> units s = 0"
  by (simp add: Size_is_empty_def units_def unat_eq_0)

lemma Size_checked_add_eq:
  "Size_checked_add s r = (if units s + units r < 2 ^ 32 then Some (sz (units s + units r)) else None)"
  by (cases s; cases r) (simp add: Size_checked_add_def checked_add_word_def units_def sz_def)

lemma Size_unchecked_add_sz:
  "m + n < 2 ^ 32 \<Longrightarrow> Size_unchecked_add c (sz m) (sz n) = Some (sz (m + n))"
  by (simp add: Size_unchecked_add_def add_chk_def unat_of_nat) (simp add: sz_def)

lemma Size_unchecked_sub_sz:
  "n \<le> m \<Longrightarrow> m < 2 ^ 32 \<Longrightarrow> Size_unchecked_sub c (sz m) (sz n) = Some (sz (m - n))"
  by (simp add: Size_unchecked_sub_def sub_chk_def word_less_nat_alt unat_of_nat) (simp add: sz_def)

lemma unat_bytes: "unat (bytes s) = units s * 32 mod 2 ^ 32"
  by (simp add: bytes_def shl_def unat_push_bit_mod units_def)

lemma unat_bytes_small: "units s < 2 ^ 27 \<Longrightarrow> unat (bytes s) = units s * 32"
  by (simp add: unat_bytes)

lemma bytes_sz: "bytes (sz n) = of_nat (32 * n)"
  by (rule word_unat_eq_iff [THEN iffD2])
    (simp add: unat_bytes units_def unat_of_nat mod_mult_left_eq mult.commute [of 32] del: of_nat_mult)

lemma from_bytes_usize_eq:
  "from_bytes_usize n =
     (if (unat n + 31) div 32 < 2 ^ 32 \<and> unat n + 31 < 2 ^ 64 then Some (sz ((unat n + 31) div 32)) else None)"
proof (cases "unat n + 31 < 2 ^ 64")
  case True
  then have u: "unat (n + 31) = unat n + 31" by (simp add: unat_add_small)
  have d: "unat (drop_bit 5 (n + 31)) = (unat n + 31) div 32" by (simp add: unat_drop_bit_div u)
  have w: "ucast (drop_bit 5 (n + 31)) = (of_nat ((unat n + 31) div 32) :: u32)"
    unfolding d [symmetric] by simp
  have "unat (ucast (- 1 :: u32) :: usize) = 2 ^ 32 - 1"
    by (simp add: unat_ucast_up unsigned_minus_1_eq_mask mask_eq_exp_minus_1)
  then show ?thesis
    using True d w
    by (simp add: from_bytes_usize_def checked_add_word_def shr_def Let_def word_less_nat_alt sz_def not_less)
next
  case False
  then show ?thesis by (simp add: from_bytes_usize_def checked_add_word_def)
qed

section \<open>Powers of two and alignment\<close>

lemma filter_bit_exp:
  "k < n \<Longrightarrow> filter (bit (2 ^ k :: 'a::len word)) [0..<n] = (if k < LENGTH('a) then [k] else [])"
proof (induction n)
  case (Suc n)
  have "filter (bit (2 ^ k :: 'a word)) [0..<k] = []" by (auto simp: filter_empty_conv bit_simps)
  with Suc show ?case by (cases "k = n") (auto simp: bit_simps)
qed simp

lemma is_power_of_two_iff:
  "is_power_of_two (w :: 'a::len word) \<longleftrightarrow> (\<exists>k < LENGTH('a). unat w = 2 ^ k)"
proof
  assume "is_power_of_two w"
  then obtain k where k: "filter (bit w) [0..<LENGTH('a)] = [k]"
    by (auto simp: is_power_of_two_def count_ones_def length_Suc_conv)
  then have "{i \<in> set [0..<LENGTH('a)]. bit w i} = {k}"
    by (metis set_filter list.set(1) list.set(2))
  then have kk: "bit w i \<longleftrightarrow> i = k" if "i < LENGTH('a)" for i
    using that by auto
  have "k < LENGTH('a)"
    using k by (metis atLeastLessThan_iff filter_is_subset list.set_intros(1) set_upt subsetD)
  moreover from this kk have "w = 2 ^ k" by (intro bit_word_eqI) (simp add: bit_simps)
  ultimately show "\<exists>k < LENGTH('a). unat w = 2 ^ k"
    by (auto intro!: exI [of _ k] simp: unat_exp_below)
next
  assume "\<exists>k < LENGTH('a). unat w = 2 ^ k"
  then obtain k where "k < LENGTH('a)" "unat w = 2 ^ k" by blast
  moreover from this have "w = of_nat (2 ^ k)" by (metis of_nat_unat ucast_id)
  ultimately show "is_power_of_two w"
    by (simp add: is_power_of_two_def count_ones_def filter_bit_exp)
qed

lemma and_not_mask_div:
  assumes "unat m = 2 ^ k - 1" "k < LENGTH('a)"
  shows "unat (t AND NOT m :: 'a::len word) = unat t div 2 ^ k * 2 ^ k"
proof -
  have "m = of_nat (2 ^ k - 1)" using assms(1) by (metis of_nat_unat ucast_id)
  then have "m = mask k" by (simp add: mask_eq_exp_minus_1 of_nat_diff)
  then have "t AND NOT m = push_bit k (drop_bit k t)"
    by (intro bit_word_eqI) (auto simp: bit_simps)
  moreover have "unat t div 2 ^ k * 2 ^ k < 2 ^ LENGTH('a)"
    using unsigned_less [where ?'a = nat, of t] by (meson div_times_less_eq_dividend le_less_trans)
  ultimately show ?thesis by (simp add: unat_push_bit_mod unat_drop_bit_div)
qed

text \<open>Rounding \<open>b + x\<close> up to a multiple of \<open>a\<close>, relative to \<open>b\<close>.\<close>

definition align_up :: "nat \<Rightarrow> nat \<Rightarrow> nat \<Rightarrow> nat" where
  "align_up x a b = (b + x + (a - 1)) div a * a - b"

lemma align_up_bounds:
  assumes "0 < a"
  shows "x \<le> align_up x a b" "align_up x a b < x + a" "a dvd b + align_up x a b"
proof -
  let ?q = "(b + x + (a - 1)) div a * a"
  have q: "?q + (b + x + (a - 1)) mod a = b + x + (a - 1)" by (simp add: mult.commute)
  moreover have "(b + x + (a - 1)) mod a < a" using assms by simp
  ultimately have "b + x \<le> ?q" "?q < b + x + a" using assms by linarith+
  then show "x \<le> align_up x a b" "align_up x a b < x + a" unfolding align_up_def by linarith+
  have "b + align_up x a b = ?q" using \<open>b + x \<le> ?q\<close> by (simp add: align_up_def)
  then show "a dvd b + align_up x a b" by simp
qed

lemma align_offset_eq:
  assumes "unat a = 2 ^ k" "k < 32" "unat x + 2 ^ k < 2 ^ 32"
  shows "align_offset c x a b = Some (of_nat (align_up (unat x) (2 ^ k) (unat b div 32)))"
proof -
  let ?B = "unat b div 32" and ?A = "2 ^ k :: nat" and ?m = "ucast (a - 1) :: usize"
  let ?t = "drop_bit 5 b + ucast x + ?m"
  have "1 \<le> a" using assms(1) by (simp add: word_le_nat_alt)
  then have m: "unat ?m = ?A - 1" using assms(1) by (simp add: unat_sub unat_ucast_up)
  have b: "unat (drop_bit 5 b) = ?B" by (simp add: unat_drop_bit_div)
  have B: "?B < 2 ^ 59" using unsigned_less [where ?'a = nat, of b] by simp
  have x: "unat (ucast x :: usize) = unat x" by (simp add: unat_ucast_up)
  have t1: "unat (drop_bit 5 b + ucast x) = ?B + unat x"
    using b B x assms(3) by (simp add: unat_add_small)
  have x1: "?B \<le> (?B + unat x + (?A - 1)) div ?A * ?A"
  proof -
    have "?B + unat x + (?A - 1) < (?B + unat x + (?A - 1)) div ?A * ?A + ?A"
      by (metis mod_less_divisor add_less_cancel_left div_mult_mod_eq zero_less_numeral zero_less_power)
    then show ?thesis by simp
  qed
  have t: "unat ?t = ?B + unat x + (?A - 1)"
    using t1 m B assms(3) by (subst unat_add_small) simp_all
  have r: "unat (?t AND NOT ?m) = (?B + unat x + (?A - 1)) div ?A * ?A"
    using m assms(2) by (simp add: and_not_mask_div t)
  have le: "drop_bit 5 b \<le> ?t AND NOT ?m"
    unfolding word_le_nat_alt r b by (rule x1)
  have d: "unat ((?t AND NOT ?m) - drop_bit 5 b) = align_up (unat x) ?A ?B"
    using le by (simp add: unat_sub r b align_up_def)
  have "ucast ((?t AND NOT ?m) - drop_bit 5 b) = (of_nat (align_up (unat x) ?A ?B) :: u32)"
    unfolding d [symmetric] by simp
  moreover have "unat (drop_bit 5 b) + unat (ucast x :: usize) < 2 ^ 64"
    "unat (drop_bit 5 b + ucast x) + unat ?m < 2 ^ 64"
    using b B x t1 m assms(3) by simp_all
  ultimately show ?thesis
    using le \<open>1 \<le> a\<close> by (simp add: align_offset_def sub_chk_ok add_chk_ok shr_def)
qed

end
