(* ===== verification/Bins.thy ===== *)
theory Bins
  imports Sizes
begin

text \<open>
  The size classes of \<^verbatim>\<open>src/allocator.rs\<close>: \<^verbatim>\<open>to_bin_index_generic\<close> maps a size to a bin of a
  floating-point-like scale with \<open>2 ^ M\<close> bins per power of two, \<^verbatim>\<open>calculate_optimal_bin_config\<close>
  chooses \<open>M\<close>. The word computations are shown equal to the closed forms \<open>bin_down\<close> and \<open>bin_up\<close>
  on natural numbers (so no intermediate result overflows), and the facts the allocator relies
  on are proved there: monotonicity, the range of the bins, and that a chunk of a bin at or above
  the rounded-up bin of a request is at least as large as the request.
\<close>

section \<open>The program\<close>

definition to_bin_index_generic :: "u32 \<Rightarrow> bool \<Rightarrow> u32 \<Rightarrow> u32" where
  "to_bin_index_generic MANTISSA_BITS ROUND_UP n =
     (if n = 0 then 0
      else let mantissa_value = shl 1 MANTISSA_BITS in
      if n < mantissa_value then n - 1
      else let mantissa_start_bit = (4 * 8 - 1 - leading_zeros n) - MANTISSA_BITS;
               exponent = mantissa_start_bit + 1;
               mantissa = shr n mantissa_start_bit AND (mantissa_value - 1);
               mantissa = (if ROUND_UP
                           then (let low_bits_mask = shl 1 mantissa_start_bit - 1
                                 in if n AND low_bits_mask \<noteq> 0 then mantissa + 1 else mantissa)
                           else mantissa);
               out = shl exponent MANTISSA_BITS
           in if ROUND_UP then out + mantissa - 1 else (out OR mantissa) - 1)"

record AllocatorBinConfig =
  mantissa_bits :: u32
  bin_count :: u32

definition MAX_ALLOCATION_SIZE :: Size where
  "MAX_ALLOCATION_SIZE = the (from_bytes_usize (1024 * 1024 * 1024))"

definition MAX_BINS :: u32 where
  "MAX_BINS = 4096"

text \<open>The unrolled macro \<^verbatim>\<open>try_all!\<close>; running off its end is the \<^verbatim>\<open>panic!\<close> behind it.\<close>

fun try_all :: "u32 \<Rightarrow> u32 \<Rightarrow> u32 list \<Rightarrow> AllocatorBinConfig option" where
  "try_all n requested_max_bins [] = None"
| "try_all n requested_max_bins (m # ms) =
     (let highest_bin_index = to_bin_index_generic m True n
      in if highest_bin_index < requested_max_bins
         then Some \<lparr>mantissa_bits = m, bin_count = highest_bin_index + 1\<rparr>
         else try_all n requested_max_bins ms)"

text \<open>\<open>mask_bytes\<close> is \<^verbatim>\<open>size_of::<Mask>()\<close>: 8 on the 64-bit targets, 4 on x86 and riscv32.\<close>

definition calculate_optimal_bin_config :: "u32 \<Rightarrow> Size \<Rightarrow> u32 \<Rightarrow> AllocatorBinConfig option" where
  "calculate_optimal_bin_config mask_bytes max_allocation_size requested_max_bins =
     (let true_max_bins = mask_bytes * 8 * mask_bytes * 8;
          requested = (if true_max_bins < requested_max_bins then true_max_bins else requested_max_bins)
      in try_all (raw_units max_allocation_size) requested [8, 7, 6, 5, 4, 3, 2, 1])"

definition MASK_BYTES :: u32 where
  "MASK_BYTES = 8"

definition BIN_CONFIG :: AllocatorBinConfig where
  "BIN_CONFIG = the (calculate_optimal_bin_config MASK_BYTES MAX_ALLOCATION_SIZE MAX_BINS)"

definition to_bin_index :: "bool \<Rightarrow> Size \<Rightarrow> u32" where
  "to_bin_index ROUND_UP s = to_bin_index_generic (mantissa_bits BIN_CONFIG) ROUND_UP (raw_units s)"

section \<open>The scale on natural numbers\<close>

fun log2 :: "nat \<Rightarrow> nat" where
  "log2 n = (if n < 2 then 0 else Suc (log2 (n div 2)))"

declare log2.simps [simp del]

lemma log2_bounds: "0 < n \<Longrightarrow> 2 ^ log2 n \<le> n \<and> n < 2 ^ Suc (log2 n)"
proof (induction n rule: log2.induct)
  case (1 n)
  show ?case
  proof (cases "n < 2")
    case True
    then show ?thesis using "1.prems" by (subst (1 2) log2.simps) auto
  next
    case False
    then have "2 ^ log2 (n div 2) \<le> n div 2 \<and> n div 2 < 2 ^ Suc (log2 (n div 2))"
      using "1.IH" by simp
    then show ?thesis using False by (subst (1 2) log2.simps) auto
  qed
qed

lemma log2_eqI: "2 ^ k \<le> n \<Longrightarrow> n < 2 ^ Suc k \<Longrightarrow> log2 n = k"
proof -
  assume a: "2 ^ k \<le> n" "n < 2 ^ Suc k"
  then have "0 < n" by (metis gr0I not_le power_eq_0_iff zero_less_numeral zero_less_power)
  then have "2 ^ log2 n < (2::nat) ^ Suc k" "2 ^ k < (2::nat) ^ Suc (log2 n)"
    using a log2_bounds [of n] by linarith+
  then show ?thesis by (simp add: power_strict_increasing_iff del: power_Suc)
qed

lemma log2_mono: "0 < m \<Longrightarrow> m \<le> n \<Longrightarrow> log2 m \<le> log2 n"
proof -
  assume a: "0 < m" "m \<le> n"
  then have "2 ^ log2 m < (2::nat) ^ Suc (log2 n)"
    using log2_bounds [of m] log2_bounds [of n] by linarith
  then show ?thesis by (simp add: power_strict_increasing_iff del: power_Suc)
qed

definition bin_shift :: "nat \<Rightarrow> nat \<Rightarrow> nat" where
  "bin_shift M n = log2 n - M"

definition bin_down :: "nat \<Rightarrow> nat \<Rightarrow> nat" where
  "bin_down M n = bin_shift M n * 2 ^ M + n div 2 ^ bin_shift M n - 1"

definition ceil_div :: "nat \<Rightarrow> nat \<Rightarrow> nat" where
  "ceil_div n d = n div d + (if n mod d = 0 then 0 else 1)"

definition bin_up :: "nat \<Rightarrow> nat \<Rightarrow> nat" where
  "bin_up M n = bin_shift M n * 2 ^ M + ceil_div n (2 ^ bin_shift M n) - 1"

lemma bin_shift_small: "n < 2 ^ M \<Longrightarrow> bin_shift M n = 0"
proof (cases "n = 0")
  case True
  then show ?thesis by (simp add: bin_shift_def log2.simps)
next
  case False
  assume "n < 2 ^ M"
  then have "2 ^ log2 n < (2::nat) ^ M" using False log2_bounds [of n] by linarith
  then show ?thesis by (simp add: bin_shift_def)
qed

lemma bin_shift_large:
  assumes "2 ^ M \<le> n"
  shows "2 ^ (bin_shift M n + M) \<le> n" "n < 2 ^ (bin_shift M n + M + 1)"
proof -
  have "0 < n" using assms by (metis gr0I not_le power_eq_0_iff zero_less_numeral zero_less_power)
  moreover from this have "M \<le> log2 n"
    using assms log2_mono [of "2 ^ M" n] log2_eqI [of M "2 ^ M"] by simp
  ultimately show "2 ^ (bin_shift M n + M) \<le> n" "n < 2 ^ (bin_shift M n + M + 1)"
    using log2_bounds [of n] by (simp_all add: bin_shift_def)
qed

lemma bin_quotient:
  assumes "2 ^ M \<le> n"
  shows "2 ^ M \<le> n div 2 ^ bin_shift M n" "n div 2 ^ bin_shift M n < 2 ^ Suc M"
proof -
  have "2 ^ M * 2 ^ bin_shift M n \<le> n" "n < 2 ^ Suc M * 2 ^ bin_shift M n"
    using bin_shift_large [OF assms] by (simp_all add: power_add mult_ac)
  then show "2 ^ M \<le> n div 2 ^ bin_shift M n" "n div 2 ^ bin_shift M n < 2 ^ Suc M"
    by (simp add: less_eq_div_iff_mult_less_eq, blast intro: less_mult_imp_div_less)
qed

lemma ceil_div_ge: "0 < d \<Longrightarrow> n \<le> ceil_div n d * d"
proof -
  assume d: "0 < d"
  have "n mod d \<le> (if n mod d = 0 then 0 else 1) * d"
    using mod_less_divisor [OF d, of n] by auto
  then have "n div d * d + n mod d \<le> n div d * d + (if n mod d = 0 then 0 else 1) * d"
    by (rule add_left_mono)
  then show ?thesis by (simp only: ceil_div_def add_mult_distrib div_mult_mod_eq)
qed

lemma ceil_div_pos: "0 < n \<Longrightarrow> 0 < ceil_div n d"
  by (cases "n mod d = 0") (auto simp: ceil_div_def div_greater_zero_iff dvd_imp_le mod_0_imp_dvd intro!: Nat.gr0I)

lemma bin_shift_mono: "m \<le> n \<Longrightarrow> bin_shift M m \<le> bin_shift M n"
  by (cases "m = 0") (simp_all add: bin_shift_def log2_mono diff_le_mono log2.simps [of 0])

lemma bin_down_range:
  assumes "2 ^ M \<le> n"
  shows "(bin_shift M n + 1) * 2 ^ M \<le> Suc (bin_down M n)" "Suc (bin_down M n) < (bin_shift M n + 2) * 2 ^ M"
  using bin_quotient [OF assms] by (simp_all add: bin_down_def algebra_simps)

lemma bin_down_le_bin_up: "bin_down M n \<le> bin_up M n"
  unfolding bin_down_def bin_up_def by (simp add: ceil_div_def)

lemma bin_up_le_Suc_bin_down: "bin_up M n \<le> Suc (bin_down M n)"
  using Suc_pred [of "bin_shift M n * 2 ^ M + n div 2 ^ bin_shift M n"]
  unfolding bin_down_def bin_up_def ceil_div_def by (auto simp del: Suc_pred)

text \<open>
  Any chunk in a bin at or above the rounded-up bin of a request is large enough for it.
\<close>

lemma bin_up_le_bin_down_imp_le:
  assumes "bin_up M m \<le> bin_down M n" "0 < n"
  shows "m \<le> n"
proof (rule ccontr)
  assume "\<not> m \<le> n"
  then have nm: "n < m" by simp
  show False
  proof (cases "bin_shift M n = bin_shift M m")
    case True
    let ?d = "2 ^ bin_shift M m :: nat"
    have "ceil_div m ?d - 1 \<le> n div ?d - 1"
      using assms(1) True by (simp add: bin_up_def bin_down_def)
    moreover have "0 < n div ?d"
    proof (cases "2 ^ M \<le> n")
      case True
      then show ?thesis
        using bin_quotient(1) [OF True] \<open>bin_shift M n = bin_shift M m\<close>
        by (metis less_le_trans zero_less_numeral zero_less_power)
    qed (use \<open>bin_shift M n = bin_shift M m\<close> bin_shift_small [of n M] assms(2) in simp)
    ultimately have "ceil_div m ?d * ?d \<le> n div ?d * ?d"
      using nm ceil_div_pos [of m ?d] by (intro mult_le_mono1) simp
    also have "\<dots> \<le> n" by simp
    finally have "m \<le> n" using ceil_div_ge [of ?d m] by simp
    then show False using nm by simp
  next
    case False
    then have lt: "bin_shift M n < bin_shift M m" using bin_shift_mono [of n m M] nm by simp
    then have mM: "2 ^ M \<le> m" using bin_shift_small [of m M] by fastforce
    have "Suc (bin_down M n) < (bin_shift M n + 2) * 2 ^ M"
    proof (cases "2 ^ M \<le> n")
      case False
      then show ?thesis using bin_shift_small [of n M] by (simp add: bin_down_def)
    qed (rule bin_down_range)
    also have "\<dots> \<le> (bin_shift M m + 1) * 2 ^ M" using lt by (intro mult_le_mono1) simp
    also have "\<dots> \<le> Suc (bin_down M m)" by (rule bin_down_range [OF mM])
    finally show False using assms(1) bin_down_le_bin_up [of M m] by simp
  qed
qed

lemma bin_down_mono:
  assumes "m \<le> n"
  shows "bin_down M m \<le> bin_down M n"
proof (cases "bin_shift M m = bin_shift M n")
  case True
  then show ?thesis using assms by (simp add: bin_down_def div_le_mono diff_le_mono)
next
  case False
  then have lt: "bin_shift M m < bin_shift M n" using bin_shift_mono [OF assms, of M] by simp
  then have nM: "2 ^ M \<le> n" using bin_shift_small [of n M] by fastforce
  have "Suc (bin_down M m) < (bin_shift M m + 2) * 2 ^ M"
  proof (cases "2 ^ M \<le> m")
    case False
    then show ?thesis using bin_shift_small [of m M] by (simp add: bin_down_def)
  qed (rule bin_down_range)
  also have "\<dots> \<le> (bin_shift M n + 1) * 2 ^ M" using lt by (intro mult_le_mono1) simp
  also have "\<dots> \<le> Suc (bin_down M n)" by (rule bin_down_range [OF nM])
  finally show ?thesis by simp
qed

section \<open>The program computes the scale\<close>

lemma unat_shl_1: "unat k < 32 \<Longrightarrow> unat (shl (1 :: u32) k) = 2 ^ unat k"
  by (simp add: shl_def push_bit_of_1 unat_exp_below)

text \<open>Every shift of \<^verbatim>\<open>to_bin_index_generic\<close> is by less than the width, and its subtractions do not wrap.\<close>

lemma bin_shifts_defined:
  fixes m n :: u32
  assumes m: "unat m \<le> 8" and n: "2 ^ unat m \<le> unat n"
  shows "unat (leading_zeros n) \<le> 31" "unat m \<le> unat (4 * 8 - 1 - leading_zeros n)"
    "unat ((4 * 8 - 1 - leading_zeros n) - m) < 32" "unat m < 32"
proof -
  have n0: "0 < unat n" using n by (metis gr0I le_zero_eq power_not_zero zero_neq_numeral)
  have "2 ^ log2 (unat n) \<le> unat n" using log2_bounds [OF n0] by blast
  also have "unat n < 2 ^ 32" using unsigned_less [where ?'a = nat, of n] by simp
  finally have lg: "log2 (unat n) \<le> 31" using power_less_imp_less_exp [of "2 :: nat" "log2 (unat n)" 32] by simp
  have mlog: "unat m \<le> log2 (unat n)" using log2_mono [of "2 ^ unat m" "unat n"] log2_eqI [of "unat m" "2 ^ unat m"] n by simp
  show lz: "unat (leading_zeros n) \<le> 31" using leading_zeros_eqI [of "log2 (unat n)" n] log2_bounds [OF n0] by simp
  have e: "unat (31 - leading_zeros n) = log2 (unat n)"
    using leading_zeros_eqI [of "log2 (unat n)" n] log2_bounds [OF n0] lg lz by (simp add: unat_sub word_le_nat_alt)
  then show le: "unat m \<le> unat (4 * 8 - 1 - leading_zeros n)" using mlog by simp
  show "unat ((4 * 8 - 1 - leading_zeros n) - m) < 32" using e le lg by (simp add: unat_sub word_le_nat_alt)
  show "unat m < 32" using m by simp
qed

lemma to_bin_index_generic_eq:
  assumes M: "unat m \<le> 8"
  shows "unat (to_bin_index_generic m up n) = (if up then bin_up (unat m) (unat n) else bin_down (unat m) (unat n))"
proof -
  let ?M = "unat m" and ?n = "unat n" and ?s = "bin_shift (unat m) (unat n)"
  have mv: "unat (shl (1 :: u32) m) = 2 ^ ?M" using M by (simp add: unat_shl_1)
  consider (zero) "n = 0" | (small) "n \<noteq> 0" "?n < 2 ^ ?M" | (large) "n \<noteq> 0" "2 ^ ?M \<le> ?n" by linarith
  then show ?thesis
  proof cases
    case zero
    then show ?thesis
      by (simp add: to_bin_index_generic_def bin_up_def bin_down_def bin_shift_small ceil_div_def)
  next
    case small
    then have "unat (n - 1) = ?n - 1" by (simp add: unat_minus_one)
    then show ?thesis
      using small mv by (simp add: to_bin_index_generic_def word_less_nat_alt bin_up_def bin_down_def
        bin_shift_small ceil_div_def Let_def)
  next
    case large
    define sb where "sb = (4 * 8 - 1 - leading_zeros n) - m"
    have n0: "0 < ?n" using large(1) by (simp add: unat_gt_0)
    have "2 ^ log2 ?n < (2::nat) ^ 32"
      using log2_bounds [OF n0] unsigned_less [where ?'a = nat, of n] by (simp del: power_Suc)
    then have lg: "log2 ?n \<le> 31" using power_less_imp_less_exp [of "2 :: nat" "log2 ?n" 32] by simp
    have mlog: "?M \<le> log2 ?n" using log2_mono [of "2 ^ ?M" ?n] log2_eqI [of ?M "2 ^ ?M"] large(2) by simp
    have lz: "unat (leading_zeros n) = 31 - log2 ?n"
      using leading_zeros_eqI [of "log2 ?n" n] log2_bounds [OF n0] by simp
    have "unat (31 - leading_zeros n) = log2 ?n" using lz lg by (simp add: unat_sub word_le_nat_alt)
    then have s: "unat sb = ?s"
      using mlog by (simp add: sb_def bin_shift_def unat_sub word_le_nat_alt)
    have s32: "?s < 32" "?s + ?M < 32" using lg mlog by (simp_all add: bin_shift_def)
    have sh: "unat (shr n sb) = ?n div 2 ^ ?s" using s s32 by (simp add: shr_def unat_drop_bit_div)
    define ma where "ma = shr n sb AND (shl 1 m - 1)"
    have one: "1 \<le> shl (1 :: u32) m" using mv by (simp add: word_le_nat_alt)
    have q: "?n div 2 ^ ?s = 2 ^ ?M + ?n div 2 ^ ?s mod 2 ^ ?M"
      using bin_quotient [OF large(2)] by (simp add: mod_if)
    have ma: "unat ma + 2 ^ ?M = ?n div 2 ^ ?s" 
      using q sh mv one unat_and_mask_mod [of "shl 1 m - 1" ?M "shr n sb"] by (simp add: ma_def unat_sub)
    have maM: "unat ma < 2 ^ ?M" using bin_quotient(2) [OF large(2)] ma by simp
    have low: "n AND (shl 1 sb - 1) \<noteq> 0 \<longleftrightarrow> ?n mod 2 ^ ?s \<noteq> 0"
    proof -
      have one: "1 \<le> shl (1 :: u32) sb" using s s32 by (simp add: word_le_nat_alt unat_shl_1)
      have "unat (n AND (shl 1 sb - 1)) = ?n mod 2 ^ ?s"
        using s s32 one by (intro unat_and_mask_mod) (simp add: unat_sub unat_shl_1)
      then show ?thesis by (metis unat_eq_0)
    qed
    have e: "unat (sb + 1) = ?s + 1" using s s32 by (simp add: unat_add_small)
    have p8: "(2::nat) ^ ?M \<le> 2 ^ 8" using M by (intro power_increasing) simp_all
    have pm: "(?s + 1) * 2 ^ ?M \<le> 32 * 2 ^ 8" using s32 p8 by (intro mult_le_mono) simp_all
    have out: "unat (shl (sb + 1) m) = (?s + 1) * 2 ^ ?M"
      using M e pm by (simp add: shl_def unat_push_bit_mod)
    have nlt: "\<not> n < shl 1 m" using large(2) mv by (simp add: word_less_nat_alt)
    show ?thesis
    proof (cases up)
      case True
      define mb where "mb = (if n AND (shl 1 sb - 1) \<noteq> 0 then ma + 1 else ma)"
      have mb: "unat mb + 2 ^ ?M = ceil_div ?n (2 ^ ?s)"
        using ma maM p8 low by (simp add: mb_def ceil_div_def unat_add_small)
      have mbM: "unat mb \<le> 2 ^ ?M" using maM p8 by (simp add: mb_def unat_add_small)
      have add: "unat (shl (sb + 1) m + mb) = (?s + 1) * 2 ^ ?M + unat mb"
        using out pm mbM p8 by (subst unat_add_small) simp_all
      have "1 \<le> (?s + 1) * 2 ^ ?M + unat mb" using zero_less_power [of "2 :: nat" ?M] by (simp add: Suc_le_eq)
      then have "unat (shl (sb + 1) m + mb - 1) = (?s + 1) * 2 ^ ?M + unat mb - 1"
        using add by (subst unat_sub) (simp_all add: word_le_nat_alt)
      also have "\<dots> = bin_up ?M ?n" using mb by (simp add: bin_up_def algebra_simps)
      also have "shl (sb + 1) m + mb - 1 = to_bin_index_generic m up n"
        using large(1) nlt True unfolding mb_def ma_def sb_def to_bin_index_generic_def Let_def
        by (simp only: if_True if_False simp_thms)
      finally show ?thesis using True by simp
    next
      case False
      have orr: "unat (shl (sb + 1) m OR ma) = (?s + 1) * 2 ^ ?M + unat ma"
        using out maM by (subst unat_or_low [of ?M]) simp_all
      have "1 \<le> (?s + 1) * 2 ^ ?M + unat ma" using zero_less_power [of "2 :: nat" ?M] by (simp add: Suc_le_eq)
      then have "unat ((shl (sb + 1) m OR ma) - 1) = (?s + 1) * 2 ^ ?M + unat ma - 1"
        using orr by (subst unat_sub) (simp_all add: word_le_nat_alt)
      also have "\<dots> = bin_down ?M ?n" using ma by (simp add: bin_down_def algebra_simps)
      also have "(shl (sb + 1) m OR ma) - 1 = to_bin_index_generic m up n"
        using large(1) nlt False unfolding ma_def sb_def to_bin_index_generic_def Let_def
        by (simp only: if_True if_False simp_thms)
      finally show ?thesis using False by simp
    qed
  qed
qed

section \<open>The configuration\<close>

lemma MAX_ALLOCATION_SIZE_eq: "MAX_ALLOCATION_SIZE = sz (2 ^ 25)"
  by (simp add: MAX_ALLOCATION_SIZE_def from_bytes_usize_eq)

lemma units_MAX_ALLOCATION_SIZE [simp]: "units MAX_ALLOCATION_SIZE = 2 ^ 25"
  by (simp add: MAX_ALLOCATION_SIZE_eq)

lemma bin_up_exp: "M \<le> k \<Longrightarrow> bin_up M (2 ^ k) = (k - M) * 2 ^ M + 2 ^ M - 1"
proof -
  assume "M \<le> k"
  moreover have "log2 (2 ^ k) = k" by (rule log2_eqI) simp_all
  moreover have "2 ^ k mod 2 ^ (k - M) = (0::nat)" "2 ^ k div 2 ^ (k - M) = (2::nat) ^ M"
    using \<open>M \<le> k\<close> by (simp_all add: mod_eq_0_iff_dvd le_imp_power_dvd flip: power_diff)
  ultimately show ?thesis by (simp add: bin_up_def bin_shift_def ceil_div_def)
qed

lemma to_bin_index_generic_MAX:
  assumes "unat m \<le> 8"
  shows "to_bin_index_generic m True (raw_units MAX_ALLOCATION_SIZE) =
    of_nat ((25 - unat m) * 2 ^ unat m + 2 ^ unat m - 1)"
proof -
  have "unat (raw_units MAX_ALLOCATION_SIZE) = 2 ^ 25" by (simp add: MAX_ALLOCATION_SIZE_eq)
  then have "unat (to_bin_index_generic m True (raw_units MAX_ALLOCATION_SIZE)) =
      (25 - unat m) * 2 ^ unat m + 2 ^ unat m - 1"
    using assms bin_up_exp [of "unat m" 25] by (simp only: to_bin_index_generic_eq) simp
  then show ?thesis by (metis of_nat_unat ucast_id)
qed

lemma calculate_optimal_bin_config_64:
  "calculate_optimal_bin_config MASK_BYTES MAX_ALLOCATION_SIZE MAX_BINS = Some \<lparr>mantissa_bits = 7, bin_count = 2432\<rparr>"
  by (simp add: calculate_optimal_bin_config_def MASK_BYTES_def MAX_BINS_def to_bin_index_generic_MAX)

lemma calculate_optimal_bin_config_32:
  "calculate_optimal_bin_config 4 MAX_ALLOCATION_SIZE MAX_BINS = Some \<lparr>mantissa_bits = 5, bin_count = 672\<rparr>"
  by (simp add: calculate_optimal_bin_config_def MAX_BINS_def to_bin_index_generic_MAX)

lemma BIN_CONFIG_eq: "BIN_CONFIG = \<lparr>mantissa_bits = 7, bin_count = 2432\<rparr>"
  by (simp add: BIN_CONFIG_def calculate_optimal_bin_config_64)

lemma mantissa_bits_BIN_CONFIG [simp]: "mantissa_bits BIN_CONFIG = 7"
  by (simp add: BIN_CONFIG_eq)

lemma bin_count_BIN_CONFIG [simp]: "bin_count BIN_CONFIG = 2432"
  by (simp add: BIN_CONFIG_eq)

lemma unat_to_bin_index:
  "unat (to_bin_index up s) = (if up then bin_up 7 (units s) else bin_down 7 (units s))"
  by (simp add: to_bin_index_def to_bin_index_generic_eq units_def)

lemma bin_up_max: "bin_up 7 33554432 = 2431"
  using bin_up_exp [of 7 25] by simp

lemma bin_down_range_7: "n \<le> 2 ^ 25 \<Longrightarrow> bin_down 7 n < 2432"
  using bin_down_mono [of n "2 ^ 25" 7] bin_down_le_bin_up [of 7 "2 ^ 25"] by (simp add: bin_up_max)

lemma bin_up_range_7: "n \<le> 2 ^ 25 \<Longrightarrow> bin_up 7 n < 2432"
proof (rule ccontr)
  assume a: "n \<le> 2 ^ 25" "\<not> bin_up 7 n < 2432"
  then have "bin_up 7 (2 ^ 25) \<le> bin_down 7 n"
    using bin_up_le_Suc_bin_down [of 7 n] by (simp add: bin_up_max)
  moreover have "0 < n" using a(2) by (cases "n = 0") (simp_all add: bin_up_def bin_shift_small ceil_div_def)
  ultimately have "2 ^ 25 \<le> n" by (rule bin_up_le_bin_down_imp_le)
  then show False using a by (simp add: bin_up_max)
qed

end
