(* ===== verification/Bit_Masks.thy ===== *)
theory Bit_Masks
  imports Bins
begin

text \<open>
  The two-level bit mask of \<^verbatim>\<open>src/allocator.rs\<close> that records which bins are non-empty: the
  structures \<^verbatim>\<open>BitIndex\<close> and \<^verbatim>\<open>BitMask\<close> and all their operations. A mask in a consistent state
  (\<open>mask_inv\<close>) stands for the set of indices \<open>mask_bits\<close>; setting, clearing and searching are
  shown to be insertion, deletion and least-element search on that set. The locale \<open>bin_set\<close> is
  this contract, and carries the two-step search of the allocator.
\<close>

section \<open>The program\<close>

definition lowest_set_bit_after :: "'m::len word \<Rightarrow> u32 \<Rightarrow> u32" where
  "lowest_set_bit_after v bit_index =
     (let mask_before = shl 1 bit_index - 1;
          mask_after = NOT mask_before;
          bits_after = v AND mask_after
      in if bits_after = 0 then - 1 else trailing_zeros bits_after)"

record BitIndex =
  index :: u32
  primary :: u32
  secondary :: u32

text \<open>\<^verbatim>\<open>BitIndex::eq\<close>; the assertions compare whole words of the mask.\<close>

definition BitIndex_eq :: "build \<Rightarrow> BitIndex \<Rightarrow> BitIndex \<Rightarrow> bool option" where
  "BitIndex_eq c a b = do {
     let is_equal = (index a = index b);
     paranoid_assert c (Some (is_equal = (primary a = primary b)));
     paranoid_assert c (Some (is_equal = (secondary a = secondary b)));
     Some is_equal
   }"

definition BitIndex_index :: "BitIndex \<Rightarrow> nat" where
  "BitIndex_index b = unat (index b)"

definition SECONDARY_LENGTH :: nat where
  "SECONDARY_LENGTH =
     (let bits = unat (bin_count BIN_CONFIG);
          bits_per_item = unat (MASK_BYTES * 8);
          items = bits div bits_per_item
      in if bits mod bits_per_item \<noteq> 0 then items + 1 else items)"

record BitMask =
  primary_mask :: u64
  secondary_masks :: "u64 list"

definition PRIMARY_BIN_SHIFT :: u32 where
  "PRIMARY_BIN_SHIFT = 31 - leading_zeros (MASK_BYTES * 8)"

definition SECONDARY_BIN_MASK :: u32 where
  "SECONDARY_BIN_MASK = shl 1 PRIMARY_BIN_SHIFT - 1"

text \<open>The compile-time check of the widths, which panics when the secondary masks outnumber the bits of the primary one.\<close>

definition ASSERT_TYPES_ARE_BIG_ENOUGH_FOR_THE_DESIRED_BIT_WIDTH :: "unit option" where
  "ASSERT_TYPES_ARE_BIG_ENOUGH_FOR_THE_DESIRED_BIT_WIDTH =
     (if SECONDARY_LENGTH > unat (MASK_BYTES * 8) then None else Some ())"

definition BitMask_new :: BitMask where
  "BitMask_new = \<lparr>primary_mask = 0, secondary_masks = replicate SECONDARY_LENGTH 0\<rparr>"

definition BitMask_index :: "u32 \<Rightarrow> BitIndex" where
  "BitMask_index i =
     \<lparr>index = i, primary = shr i PRIMARY_BIN_SHIFT, secondary = i AND SECONDARY_BIN_MASK\<rparr>"

definition BitMask_set :: "BitMask \<Rightarrow> BitIndex \<Rightarrow> BitMask option" where
  "BitMask_set m i = do {
     w \<leftarrow> get_unchecked (secondary_masks m) (unat (primary i));
     ws \<leftarrow> set_unchecked (secondary_masks m) (unat (primary i)) (w OR shl 1 (secondary i));
     Some \<lparr>primary_mask = primary_mask m OR shl 1 (primary i), secondary_masks = ws\<rparr>
   }"

definition BitMask_unset :: "BitMask \<Rightarrow> BitIndex \<Rightarrow> BitMask option" where
  "BitMask_unset m i = do {
     w \<leftarrow> get_unchecked (secondary_masks m) (unat (primary i));
     let w = w AND NOT (shl 1 (secondary i));
     ws \<leftarrow> set_unchecked (secondary_masks m) (unat (primary i)) w;
     Some \<lparr>primary_mask = (if w = 0 then primary_mask m AND NOT (shl 1 (primary i)) else primary_mask m),
           secondary_masks = ws\<rparr>
   }"

definition BitMask_find_first :: "BitMask \<Rightarrow> BitIndex \<Rightarrow> BitIndex option option" where
  "BitMask_find_first m min_index = do {
     s \<leftarrow> (if primary_mask m AND shl 1 (primary min_index) \<noteq> 0
           then do {
             mask \<leftarrow> get_unchecked (secondary_masks m) (unat (primary min_index));
             Some (lowest_set_bit_after mask (secondary min_index))
           }
           else Some (- 1));
     if s = - 1 then do {
       let p = lowest_set_bit_after (primary_mask m) (primary min_index + 1);
       if p = - 1 then Some None
       else do {
         mask \<leftarrow> get_unchecked (secondary_masks m) (unat p);
         let s = trailing_zeros mask;
         Some (Some \<lparr>index = shl p PRIMARY_BIN_SHIFT OR s, primary = p, secondary = s\<rparr>)
       }
     }
     else do {
       let p = primary min_index;
       Some (Some \<lparr>index = shl p PRIMARY_BIN_SHIFT OR s, primary = p, secondary = s\<rparr>)
     }
   }"

section \<open>Indices\<close>

lemma MASK_BITS_eq [simp]: "MASK_BYTES * 8 = 64"
  by (simp add: MASK_BYTES_def)

lemma SECONDARY_LENGTH_eq [simp]: "SECONDARY_LENGTH = 38"
  by (simp add: SECONDARY_LENGTH_def)

lemma widths_suffice: "ASSERT_TYPES_ARE_BIG_ENOUGH_FOR_THE_DESIRED_BIT_WIDTH = Some ()"
  by (simp add: ASSERT_TYPES_ARE_BIG_ENOUGH_FOR_THE_DESIRED_BIT_WIDTH_def)

lemma PRIMARY_BIN_SHIFT_eq [simp]: "PRIMARY_BIN_SHIFT = 6"
proof -
  have "unat (leading_zeros (64 :: u32)) = 25" by (simp add: leading_zeros_eqI [where k = 6])
  then have "leading_zeros (64 :: u32) = 25" by (metis of_nat_numeral of_nat_unat ucast_id)
  then show ?thesis by (simp add: PRIMARY_BIN_SHIFT_def)
qed

lemma SECONDARY_BIN_MASK_eq [simp]: "SECONDARY_BIN_MASK = 63"
  by (simp add: SECONDARY_BIN_MASK_def shl_def)

definition bi :: "nat \<Rightarrow> BitIndex" where
  "bi i = \<lparr>index = of_nat i, primary = of_nat (i div 64), secondary = of_nat (i mod 64)\<rparr>"

lemma BitMask_index_bi: "BitMask_index i = bi (unat i)"
proof -
  have "unat (drop_bit 6 i) = unat i div 64" by (simp add: unat_drop_bit_div)
  then have "drop_bit 6 i = of_nat (unat i div 64)" by (metis of_nat_unat ucast_id)
  moreover have "unat (i AND 63) = unat i mod 64" using unat_and_mask_mod [of 63 6 i] by simp
  then have "i AND 63 = of_nat (unat i mod 64)" by (metis of_nat_unat ucast_id)
  ultimately show ?thesis by (simp add: BitMask_index_def bi_def shr_def)
qed

lemma bi_simps [simp]:
  assumes "i < 2432"
  shows "unat (index (bi i)) = i" "unat (primary (bi i)) = i div 64" "unat (secondary (bi i)) = i mod 64"
  using assms by (simp_all add: bi_def unat_of_nat)

text \<open>The amounts that \<^verbatim>\<open>BitMask\<close> shifts its words by are below their width.\<close>

lemma mask_shifts_defined:
  assumes "i < 2432"
  shows "unat (primary (bi i)) < 64" "unat (secondary (bi i)) < 64" "unat (primary (bi i) + 1) < 64"
proof -
  have p: "unat (primary (bi i)) < 38" "unat (secondary (bi i)) < 64" using assms by simp_all
  then show "unat (primary (bi i)) < 64" "unat (secondary (bi i)) < 64" by simp_all
  show "unat (primary (bi i) + 1) < 64" using p(1) by (simp add: unat_add_small)
qed

lemma bi_inject [simp]: "i < 2432 \<Longrightarrow> j < 2432 \<Longrightarrow> bi i = bi j \<longleftrightarrow> i = j"
  by (metis bi_simps(1))

lemma BitIndex_index_bi [simp]: "i < 2432 \<Longrightarrow> BitIndex_index (bi i) = i"
  by (simp add: BitIndex_index_def)

lemma BitIndex_eq_refl [simp]: "BitIndex_eq c a a = Some True"
  by (simp add: BitIndex_eq_def)

section \<open>Searching one word\<close>

lemma bit_shl_1: "bit (shl (1 :: 'm::len word) k) j \<longleftrightarrow> unat k mod LENGTH('m) = j"
  by (auto simp: shl_def bit_simps)

lemma bit_bits_after:
  assumes "unat k < LENGTH('m)"
  shows "bit (v AND NOT (shl 1 k - 1) :: 'm::len word) j \<longleftrightarrow> bit v j \<and> unat k \<le> j"
proof -
  have "shl (1 :: 'm word) k - 1 = mask (unat k)" using assms by (simp add: shl_def push_bit_of_1 mask_eq_exp_minus_1)
  then show ?thesis by (auto simp: bit_simps dest: bit_imp_le_length)
qed

lemma lowest_set_bit_after_None:
  assumes "unat k < LENGTH('m)" "\<And>j. unat k \<le> j \<Longrightarrow> \<not> bit (v :: 'm::len word) j"
  shows "lowest_set_bit_after v k = - 1"
proof -
  have "v AND NOT (shl 1 k - 1) = 0"
    using assms by (intro bit_word_eqI) (auto simp: bit_bits_after)
  then show ?thesis by (simp add: lowest_set_bit_after_def Let_def)
qed

lemma unat_trailing_zeros_le: "LENGTH('m) < 2 ^ 32 \<Longrightarrow> unat (trailing_zeros (v :: 'm::len word)) \<le> LENGTH('m)"
proof -
  assume "LENGTH('m) < 2 ^ 32"
  moreover have "length (takeWhile (\<lambda>i. \<not> bit v i) [0..<LENGTH('m)]) \<le> LENGTH('m)"
    by (metis length_takeWhile_le length_upt minus_nat.diff_0)
  ultimately show ?thesis by (simp add: trailing_zeros_def unat_of_nat)
qed

lemma lowest_set_bit_after_Some:
  assumes "unat k < LENGTH('m)" "LENGTH('m) < 2 ^ 32 - 1"
    and "bit (v :: 'm::len word) j" "unat k \<le> j" "\<And>i. unat k \<le> i \<Longrightarrow> i < j \<Longrightarrow> \<not> bit v i"
  shows "unat (lowest_set_bit_after v k) = j" "lowest_set_bit_after v k \<noteq> - 1"
proof -
  let ?w = "v AND NOT (shl 1 k - 1)"
  have b: "bit ?w i \<longleftrightarrow> bit v i \<and> unat k \<le> i" for i using assms(1) by (rule bit_bits_after)
  have "?w \<noteq> 0" using b assms(3,4) by (metis bit_0_eq bot_apply bot_bool_def)
  then have e: "lowest_set_bit_after v k = trailing_zeros ?w" by (simp add: lowest_set_bit_after_def Let_def)
  have "unat (trailing_zeros ?w) = j" using b assms by (intro trailing_zeros_eqI) auto
  then show r: "unat (lowest_set_bit_after v k) = j" by (simp add: e)
  have "j < LENGTH('m)" using assms(3) by (rule bit_imp_le_length)
  then have "unat (lowest_set_bit_after v k) < 2 ^ 32 - 1" using r assms(2) by linarith
  then show "lowest_set_bit_after v k \<noteq> - 1" by (auto simp: unsigned_minus_1_eq_mask mask_eq_exp_minus_1)
qed

section \<open>The set a mask stands for\<close>

definition mask_bits :: "BitMask \<Rightarrow> nat set" where
  "mask_bits m = {i. i < 2432 \<and> bit (secondary_masks m ! (i div 64)) (i mod 64)}"

definition mask_inv :: "BitMask \<Rightarrow> bool" where
  "mask_inv m \<longleftrightarrow> length (secondary_masks m) = 38 \<and>
     (\<forall>p. bit (primary_mask m) p \<longleftrightarrow> p < 38 \<and> secondary_masks m ! p \<noteq> 0)"

lemma mask_inv_new: "mask_inv BitMask_new"
  by (simp add: mask_inv_def BitMask_new_def)

lemma mask_bits_new: "mask_bits BitMask_new = {}"
  by (auto simp: mask_bits_def BitMask_new_def)

lemma div_mod_64_eq: "(i div 64 = j div 64 \<and> i mod 64 = j mod 64) \<longleftrightarrow> (i :: nat) = j"
  by (metis div_mult_mod_eq)

lemma mask_inv_update:
  assumes "mask_inv m" "q < 38" "\<And>j. bit p j \<longleftrightarrow> (if j = q then w \<noteq> 0 else bit (primary_mask m) j)"
  shows "mask_inv \<lparr>primary_mask = p, secondary_masks = (secondary_masks m)[q := w]\<rparr>"
  using assms by (auto simp: mask_inv_def nth_list_update)

lemma mask_bits_update:
  assumes "mask_inv m" "i < 2432"
    and "\<And>j. bit w j \<longleftrightarrow> (if j = i mod 64 then b else bit (secondary_masks m ! (i div 64)) j)"
  shows "mask_bits \<lparr>primary_mask = p, secondary_masks = (secondary_masks m)[i div 64 := w]\<rparr> =
    (if b then insert i (mask_bits m) else mask_bits m - {i})"
proof (rule set_eqI)
  fix x
  have "length (secondary_masks m) = 38" using assms(1) by (simp add: mask_inv_def)
  then show "x \<in> mask_bits \<lparr>primary_mask = p, secondary_masks = (secondary_masks m)[i div 64 := w]\<rparr> \<longleftrightarrow>
     x \<in> (if b then insert i (mask_bits m) else mask_bits m - {i})"
    using assms(2,3) div_mod_64_eq [of x i]
    by (cases "x div 64 = i div 64"; cases "x = i") (auto simp: mask_bits_def)
qed

lemma BitMask_set_ok:
  assumes "mask_inv m" "i < 2432"
  shows "\<exists>m'. BitMask_set m (bi i) = Some m' \<and> mask_inv m' \<and> mask_bits m' = insert i (mask_bits m)"
proof -
  let ?w = "secondary_masks m ! (i div 64) OR shl 1 (secondary (bi i))"
  have w: "bit ?w j \<longleftrightarrow> (if j = i mod 64 then True else bit (secondary_masks m ! (i div 64)) j)" for j
    using assms(2) by (auto simp: bit_or_iff bit_shl_1)
  then have "?w \<noteq> 0" by (metis word_eq_0_iff_bits)
  then have "mask_inv \<lparr>primary_mask = primary_mask m OR shl 1 (primary (bi i)),
      secondary_masks = (secondary_masks m)[i div 64 := ?w]\<rparr>"
    using assms by (intro mask_inv_update) (auto simp: bit_or_iff bit_shl_1)
  then show ?thesis
    using assms mask_bits_update [OF assms w] by (simp add: BitMask_set_def mask_inv_def)
qed

lemma BitMask_unset_ok:
  assumes "mask_inv m" "i < 2432"
  shows "\<exists>m'. BitMask_unset m (bi i) = Some m' \<and> mask_inv m' \<and> mask_bits m' = mask_bits m - {i}"
proof -
  let ?o = "secondary_masks m ! (i div 64)"
  let ?w = "?o AND NOT (shl 1 (secondary (bi i)))"
  let ?p = "if ?w = 0 then primary_mask m AND NOT (shl 1 (primary (bi i))) else primary_mask m"
  have len: "length (secondary_masks m) = 38" "i div 64 < 38" using assms by (simp_all add: mask_inv_def)
  have w: "bit ?w j \<longleftrightarrow> (if j = i mod 64 then False else bit ?o j)" for j
    using assms(2) by (auto simp: bit_and_iff bit_not_iff bit_shl_1 dest: bit_imp_le_length)
  have "bit (primary_mask m) (i div 64) \<longleftrightarrow> ?o \<noteq> 0" using assms len by (simp add: mask_inv_def)
  moreover have "?o \<noteq> 0" if "?w \<noteq> 0" using that by auto
  ultimately have "bit ?p j \<longleftrightarrow> (if j = i div 64 then ?w \<noteq> 0 else bit (primary_mask m) j)" for j
    using assms(2) by (auto simp: bit_and_iff bit_not_iff bit_shl_1 dest: bit_imp_le_length)
  then have "mask_inv \<lparr>primary_mask = ?p, secondary_masks = (secondary_masks m)[i div 64 := ?w]\<rparr>"
    using assms len by (intro mask_inv_update) simp_all
  then show ?thesis
    using assms len mask_bits_update [OF assms w] by (simp add: BitMask_unset_def Let_def)
qed

lemma least_from:
  fixes k :: nat
  assumes "\<exists>j \<ge> k. P j"
  obtains j where "P j" "k \<le> j" "\<And>i. k \<le> i \<Longrightarrow> i < j \<Longrightarrow> \<not> P i"
  using assms exists_least_iff [of "\<lambda>j. P j \<and> k \<le> j"] by blast

lemma find_first_index:
  assumes "p < 38" "s < 64" "unat pw = p" "unat sw = s"
  shows "\<lparr>index = shl pw 6 OR sw, primary = pw, secondary = sw\<rparr> = bi (p * 64 + s)"
proof -
  have "unat (shl pw 6) = p * 64"
    using assms(1,3) by (simp add: shl_def unat_push_bit_mod)
  then have "unat (shl pw 6 OR sw) = p * 64 + s"
    using assms(2,4) unat_or_low [of 6 "shl pw 6" sw] by simp
  then have "shl pw 6 OR sw = of_nat (p * 64 + s)" by (metis of_nat_unat ucast_id)
  moreover have "of_nat p = pw" using assms(3) by (metis of_nat_unat ucast_id)
  moreover have "of_nat s = sw" using assms(4) by (metis of_nat_unat ucast_id)
  moreover have "(p * 64 + s) div 64 = p" "(p * 64 + s) mod 64 = s" using assms by simp_all
  ultimately show ?thesis by (simp only: bi_def)
qed

lemma and_shl_1_nonzero: "(v AND shl 1 k \<noteq> 0) \<longleftrightarrow> bit (v :: 'm::len word) (unat k mod LENGTH('m))"
  by (auto simp: word_eq_0_iff_bits bit_and_iff bit_shl_1)

lemma trailing_zeros_least:
  assumes "(v :: u64) \<noteq> 0"
  obtains t where "unat (trailing_zeros v) = t" "bit v t" "\<And>i. i < t \<Longrightarrow> \<not> bit v i" "t < 64"
proof -
  obtain t where t: "bit v t" "\<And>i. i < t \<Longrightarrow> \<not> bit v i"
    using assms least_from [of 0 "bit v"] by (metis word_eq_0_iff_bits zero_le)
  moreover have "unat (trailing_zeros v) = t" using t by (intro trailing_zeros_eqI) auto
  moreover have "t < 64" using bit_imp_le_length [OF t(1)] by simp
  ultimately show thesis using that by blast
qed

text \<open>The search finds the least index of the set that is not below the given one.\<close>

definition least_at_or_after :: "nat set \<Rightarrow> nat \<Rightarrow> nat \<Rightarrow> bool" where
  "least_at_or_after B k j \<longleftrightarrow> j \<in> B \<and> k \<le> j \<and> (\<forall>i \<in> B. k \<le> i \<longrightarrow> j \<le> i)"

lemma find_first_in_word:
  assumes inv: "mask_inv m" and k: "k < 2432" and A: "\<exists>j \<ge> k mod 64. bit (secondary_masks m ! (k div 64)) j"
  shows "\<exists>j. BitMask_find_first m (bi k) = Some (Some (bi j)) \<and> least_at_or_after (mask_bits m) k j"
proof -
  let ?P = "k div 64" and ?S = "k mod 64" and ?w = "secondary_masks m ! (k div 64)"
  obtain s where s: "bit ?w s" "?S \<le> s" "\<And>i. ?S \<le> i \<Longrightarrow> i < s \<Longrightarrow> \<not> bit ?w i" using least_from [OF A] by metis
  have s64: "s < 64" using bit_imp_le_length [OF s(1)] by simp
  have low: "unat (lowest_set_bit_after ?w (secondary (bi k))) = s"
    "lowest_set_bit_after ?w (secondary (bi k)) \<noteq> - 1"
    using s k lowest_set_bit_after_Some [of "secondary (bi k)" ?w s] by simp_all
  have "?w \<noteq> 0" using s(1) by auto
  then have "bit (primary_mask m) ?P" "?P < 38" "length (secondary_masks m) = 38" using inv k by (simp_all add: mask_inv_def)
  then have r: "BitMask_find_first m (bi k) = Some (Some (bi (?P * 64 + s)))"
    using low k s64 by (simp add: BitMask_find_first_def and_shl_1_nonzero find_first_index)
  have "?P * 64 + s < 2432" using \<open>?P < 38\<close> s64 by linarith
  then have "?P * 64 + s \<in> mask_bits m" using s(1) s64 by (simp add: mask_bits_def)
  moreover have "k \<le> ?P * 64 + s" using s(2) by (metis div_mult_mod_eq add_le_cancel_left)
  moreover have "?P * 64 + s \<le> i" if "i \<in> mask_bits m" "k \<le> i" for i
  proof (cases "i div 64 = ?P")
    case True
    then have "bit ?w (i mod 64)" using that(1) by (simp add: mask_bits_def)
    moreover have "?S \<le> i mod 64" using True that(2) by (metis div_mult_mod_eq add_le_cancel_left)
    ultimately have "s \<le> i mod 64" using s(3) by (meson not_le)
    then show ?thesis using True by (metis div_mult_mod_eq add_le_cancel_left)
  next
    case False
    then have "?P + 1 \<le> i div 64" using that(2) div_le_mono [of k i 64] by simp
    then show ?thesis using s64 by linarith
  qed
  ultimately show ?thesis using r by (auto simp: least_at_or_after_def)
qed

lemma find_first_beyond_word:
  assumes inv: "mask_inv m" and k: "k < 2432" and A: "\<And>j. k mod 64 \<le> j \<Longrightarrow> \<not> bit (secondary_masks m ! (k div 64)) j"
  shows "BitMask_find_first m (bi k) = Some None \<and> (\<forall>j \<in> mask_bits m. j < k) \<or>
    (\<exists>j. BitMask_find_first m (bi k) = Some (Some (bi j)) \<and> least_at_or_after (mask_bits m) k j)"
proof -
  let ?P = "k div 64" and ?p = "lowest_set_bit_after (primary_mask m) (primary (bi k) + 1)"
  have len: "length (secondary_masks m) = 38" "?P < 38" using inv k by (simp_all add: mask_inv_def)
  have "lowest_set_bit_after (secondary_masks m ! ?P) (secondary (bi k)) = - 1"
    using A k by (intro lowest_set_bit_after_None) simp_all
  then have first: "BitMask_find_first m (bi k) =
     (if ?p = - 1 then Some None else do {
         mask \<leftarrow> get_unchecked (secondary_masks m) (unat ?p);
         let s = trailing_zeros mask;
         Some (Some \<lparr>index = shl ?p PRIMARY_BIN_SHIFT OR s, primary = ?p, secondary = s\<rparr>)
       })"
    using k len by (simp add: BitMask_find_first_def Let_def)
  have later: "?P + 1 \<le> i div 64 \<and> secondary_masks m ! (i div 64) \<noteq> 0 \<and> i div 64 < 38"
    if "i \<in> mask_bits m" "k \<le> i" for i
  proof -
    have b: "bit (secondary_masks m ! (i div 64)) (i mod 64)" "i < 2432" using that(1) by (simp_all add: mask_bits_def)
    have "i div 64 \<noteq> ?P"
      using A [of "i mod 64"] b(1) that(2) by (metis div_mult_mod_eq add_le_cancel_left)
    then show ?thesis using b that(2) div_le_mono [of k i 64] by auto
  qed
  have P1: "unat (primary (bi k) + 1) = ?P + 1" using k by (simp add: unat_add_small)
  show ?thesis
  proof (cases "\<exists>p \<ge> ?P + 1. bit (primary_mask m) p")
    case True
    obtain p where p: "bit (primary_mask m) p" "?P + 1 \<le> p" "\<And>i. ?P + 1 \<le> i \<Longrightarrow> i < p \<Longrightarrow> \<not> bit (primary_mask m) i"
      using least_from [OF True] by metis
    have up: "unat ?p = p" "?p \<noteq> - 1"
      using p P1 k lowest_set_bit_after_Some [of "primary (bi k) + 1" "primary_mask m" p] by simp_all
    have w: "secondary_masks m ! p \<noteq> 0" "p < 38" using p(1) inv by (simp_all add: mask_inv_def)
    obtain t where t: "unat (trailing_zeros (secondary_masks m ! p)) = t" "bit (secondary_masks m ! p) t"
      "\<And>i. i < t \<Longrightarrow> \<not> bit (secondary_masks m ! p) i" "t < 64" using trailing_zeros_least [OF w(1)] by metis
    have "BitMask_find_first m (bi k) = Some (Some (bi (p * 64 + t)))"
      using up w len t by (simp add: first find_first_index)
    moreover have "least_at_or_after (mask_bits m) k (p * 64 + t)"
      unfolding least_at_or_after_def
    proof (intro conjI ballI impI)
      show "p * 64 + t \<in> mask_bits m" using t w by (simp add: mask_bits_def)
      show "k \<le> p * 64 + t" using p(2) by linarith
      fix i assume i: "i \<in> mask_bits m" "k \<le> i"
      have "bit (primary_mask m) (i div 64)" using later [OF i] inv by (simp add: mask_inv_def)
      then have "p \<le> i div 64" using p(3) [of "i div 64"] later [OF i] by (meson not_le)
      moreover have "t \<le> i mod 64" if "i div 64 = p" using i(1) t(3) that by (auto simp: mask_bits_def not_less intro: leI)
      ultimately show "p * 64 + t \<le> i"
        using t(4) div_mult_mod_eq [of i 64] by (cases "i div 64 = p"; linarith)
    qed
    ultimately show ?thesis by blast
  next
    case False
    have "\<not> bit (primary_mask m) j" if "unat (primary (bi k) + 1) \<le> j" for j
      using False that unfolding P1 by blast
    moreover have "unat (primary (bi k) + 1) < 64" using P1 k by simp
    ultimately have "?p = - 1" by (intro lowest_set_bit_after_None) simp_all
    moreover have "j < k" if "j \<in> mask_bits m" for j
      using False later [OF that] inv unfolding mask_inv_def by (meson not_le)
    ultimately show ?thesis by (simp add: first)
  qed
qed

lemma BitMask_find_first_ok:
  assumes "mask_inv m" "k < 2432"
  shows "BitMask_find_first m (bi k) = Some None \<and> (\<forall>j \<in> mask_bits m. j < k) \<or>
    (\<exists>j. BitMask_find_first m (bi k) = Some (Some (bi j)) \<and> least_at_or_after (mask_bits m) k j)"
  using find_first_in_word [OF assms] find_first_beyond_word [OF assms] by blast

section \<open>The contract of the mask\<close>

text \<open>
  What the allocator relies on: a set of bin indices with insertion, deletion and a search for
  the least member that is not below a bound. \<open>two_step_search\<close> is the allocator's use of it: it
  searches from the rounded-up bin of a request and, if that fails, from the rounded-down one.
\<close>

locale bin_set =
  fixes inv :: "'m \<Rightarrow> bool"
    and bits :: "'m \<Rightarrow> nat set"
    and empty :: "'m"
    and ins :: "'m \<Rightarrow> nat \<Rightarrow> 'm option"
    and del :: "'m \<Rightarrow> nat \<Rightarrow> 'm option"
    and search :: "'m \<Rightarrow> nat \<Rightarrow> nat option option"
    and bound :: nat
  assumes empty_ok: "inv empty \<and> bits empty = {}"
    and ins_ok: "inv m \<Longrightarrow> i < bound \<Longrightarrow> \<exists>m'. ins m i = Some m' \<and> inv m' \<and> bits m' = insert i (bits m)"
    and del_ok: "inv m \<Longrightarrow> i < bound \<Longrightarrow> \<exists>m'. del m i = Some m' \<and> inv m' \<and> bits m' = bits m - {i}"
    and search_ok: "inv m \<Longrightarrow> k < bound \<Longrightarrow>
      (case search m k of None \<Rightarrow> False | Some None \<Rightarrow> \<forall>j \<in> bits m. j < k
       | Some (Some j) \<Rightarrow> least_at_or_after (bits m) k j)"
begin

lemma search_returns: "inv m \<Longrightarrow> k < bound \<Longrightarrow> \<exists>r. search m k = Some r"
  using search_ok [of m k] by (auto split: option.splits)

lemma two_step_search:
  assumes "inv m" "hi < bound" "lo < bound" "lo \<le> hi"
  shows "\<exists>r. (do { b \<leftarrow> search m hi; if b = None then search m lo else Some b }) = Some r \<and>
    (case r of None \<Rightarrow> \<forall>j \<in> bits m. j < lo
     | Some j \<Rightarrow> j \<in> bits m \<and> lo \<le> j \<and> ((\<exists>i \<in> bits m. hi \<le> i) \<longrightarrow> hi \<le> j))"
proof -
  obtain r where r: "search m hi = Some r" using search_returns assms(1,2) by blast
  obtain r' where r': "search m lo = Some r'" using search_returns assms(1,3) by blast
  show ?thesis
    using search_ok [OF assms(1,2)] search_ok [OF assms(1,3)] assms(4)
    by (cases r; cases r') (auto simp: r r' least_at_or_after_def not_le dest: leD)
qed

end

definition find_first_nat :: "BitMask \<Rightarrow> nat \<Rightarrow> nat option option" where
  "find_first_nat m k = map_option (map_option BitIndex_index) (BitMask_find_first m (bi k))"

interpretation bins: bin_set mask_inv mask_bits BitMask_new
  "\<lambda>m i. BitMask_set m (bi i)" "\<lambda>m i. BitMask_unset m (bi i)" find_first_nat 2432
proof
  fix m k assume "mask_inv m" "k < (2432 :: nat)"
  then show "case find_first_nat m k of None \<Rightarrow> False | Some None \<Rightarrow> \<forall>j \<in> mask_bits m. j < k
       | Some (Some j) \<Rightarrow> least_at_or_after (mask_bits m) k j"
    using BitMask_find_first_ok [of m k]
    by (auto simp: find_first_nat_def least_at_or_after_def mask_bits_def)
qed (simp_all add: mask_inv_new mask_bits_new BitMask_set_ok BitMask_unset_ok)

end
