(* ===== verification/Memories.thy ===== *)
theory Memories
  imports Sizes
begin

text \<open>
  The memory the allocator manages: a partial map from addresses to bytes, undefined where nothing
  is mapped, with little-endian loads and stores of 32-bit and 64-bit words, and the type
  \<^verbatim>\<open>Pointer\<close> of \<^verbatim>\<open>src/allocator.rs\<close> (its phantom type argument left out, so that \<^verbatim>\<open>cast\<close> is
  the identity). A load or store that touches an unmapped byte is \<^const>\<open>None\<close>. The lemmas give
  the effect of a store on every load of a region, addressed by byte offsets from a base.
\<close>

section \<open>Bytes\<close>

type_synonym memory = "u64 \<rightharpoonup> u8"

fun load_bytes :: "memory \<Rightarrow> u64 \<Rightarrow> nat \<Rightarrow> u8 list option" where
  "load_bytes m a 0 = Some []"
| "load_bytes m a (Suc n) = do { b \<leftarrow> m a; bs \<leftarrow> load_bytes m (a + 1) n; Some (b # bs) }"

fun store_bytes :: "memory \<Rightarrow> u64 \<Rightarrow> u8 list \<Rightarrow> memory option" where
  "store_bytes m a [] = Some m"
| "store_bytes m a (b # bs) = (case m a of None \<Rightarrow> None | Some _ \<Rightarrow> store_bytes (m(a \<mapsto> b)) (a + 1) bs)"

definition to_le :: "nat \<Rightarrow> 'a::len word \<Rightarrow> u8 list" where
  "to_le n w = map (\<lambda>i. ucast (drop_bit (8 * i) w)) [0..<n]"

definition from_le :: "u8 list \<Rightarrow> 'a::len word" where
  "from_le bs = foldr (\<lambda>b w. ucast b OR push_bit 8 w) bs 0"

definition load_u32 :: "memory \<Rightarrow> u64 \<Rightarrow> u32 option" where
  "load_u32 m a = map_option from_le (load_bytes m a 4)"

definition load_u64 :: "memory \<Rightarrow> u64 \<Rightarrow> u64 option" where
  "load_u64 m a = map_option from_le (load_bytes m a 8)"

definition store_u32 :: "memory \<Rightarrow> u64 \<Rightarrow> u32 \<Rightarrow> memory option" where
  "store_u32 m a w = store_bytes m a (to_le 4 w)"

definition store_u64 :: "memory \<Rightarrow> u64 \<Rightarrow> u64 \<Rightarrow> memory option" where
  "store_u64 m a w = store_bytes m a (to_le 8 w)"

text \<open>
  \<^verbatim>\<open>write_bytes\<close> and \<^verbatim>\<open>copy_nonoverlapping\<close> of the standard library. Copying between ranges
  that overlap is undefined behaviour, and \<^const>\<open>None\<close> here.
\<close>

definition write_bytes :: "memory \<Rightarrow> u64 \<Rightarrow> u8 \<Rightarrow> nat \<Rightarrow> memory option" where
  "write_bytes m a v n = store_bytes m a (replicate n v)"

definition copy_nonoverlapping :: "memory \<Rightarrow> u64 \<Rightarrow> u64 \<Rightarrow> nat \<Rightarrow> memory option" where
  "copy_nonoverlapping m src dst n =
     (if unat (dst - src) < n \<or> unat (src - dst) < n then None
      else do { bs \<leftarrow> load_bytes m src n; store_bytes m dst bs })"

section \<open>Pointers\<close>

datatype Pointer = Pointer (address: u64)

definition NULL :: Pointer where
  "NULL = Pointer 0"

definition Pointer_is_null :: "Pointer \<Rightarrow> bool" where
  "Pointer_is_null p \<longleftrightarrow> address p = 0"

definition Pointer_unchecked_add :: "Pointer \<Rightarrow> Size \<Rightarrow> Pointer" where
  "Pointer_unchecked_add p offset = Pointer (address p + ucast (bytes offset))"

definition Pointer_unchecked_sub :: "Pointer \<Rightarrow> Size \<Rightarrow> Pointer" where
  "Pointer_unchecked_sub p offset = Pointer (address p - ucast (bytes offset))"

text \<open>Pointers are compared by their addresses.\<close>

definition Pointer_le :: "Pointer \<Rightarrow> Pointer \<Rightarrow> bool" where
  "Pointer_le p q \<longleftrightarrow> address p \<le> address q"

definition Pointer_less :: "Pointer \<Rightarrow> Pointer \<Rightarrow> bool" where
  "Pointer_less p q \<longleftrightarrow> address p < address q"

instantiation Pointer :: linorder
begin

definition less_eq_Pointer :: "Pointer \<Rightarrow> Pointer \<Rightarrow> bool" where
  "less_eq_Pointer = Pointer_le"

definition less_Pointer :: "Pointer \<Rightarrow> Pointer \<Rightarrow> bool" where
  "less_Pointer = Pointer_less"

instance
  by standard (auto simp: less_eq_Pointer_def less_Pointer_def Pointer_le_def Pointer_less_def Pointer.expand)

end

definition from_pointer_and_base_unchecked :: "build \<Rightarrow> Pointer \<Rightarrow> Pointer \<Rightarrow> Size option" where
  "from_pointer_and_base_unchecked c pointer base = do {
     d \<leftarrow> sub_chk c (address pointer) (address base);
     Some (Size (ucast (shr d ALLOCATION_SIZE_SHIFT)))
   }"

section \<open>Loads and stores by offset\<close>

lemma load_bytes_eq:
  "load_bytes m a n =
     (if \<forall>i < n. m (a + of_nat i) \<noteq> None then Some (map (\<lambda>i. the (m (a + of_nat i))) [0..<n]) else None)"
proof (induction n arbitrary: a)
  case (Suc n)
  have sh: "a + 1 + of_nat i = a + of_nat (Suc i)" for i by simp
  show ?case
    by (cases "m a") (simp_all add: Suc.IH sh All_less_Suc2 upt_conv_Cons flip: map_Suc_upt
        del: of_nat_Suc upt_Suc)
qed simp

lemma unat_diff_Suc: "x \<noteq> a \<Longrightarrow> unat (x - a) = Suc (unat (x - (a + 1)))" for x a :: u64
proof -
  assume "x \<noteq> a"
  then have "x - a \<noteq> 0" by simp
  then have "unat (x - a - 1) = unat (x - a) - 1" "0 < unat (x - a)" by (simp_all add: unat_minus_one unat_gt_0)
  then show ?thesis by (simp add: diff_diff_eq)
qed

lemma unat_diff_self_Suc: "unat (a - (a + 1)) = 2 ^ 64 - 1" for a :: u64
proof -
  have "a - (a + 1) = - 1" by simp
  then show ?thesis by (simp add: unsigned_minus_1_eq_mask mask_eq_exp_minus_1 del: diff_add_cancel)
qed

lemma store_bytes_eq:
  assumes "length bs \<le> 2 ^ 64"
  shows "store_bytes m a bs =
     (if \<forall>i < length bs. m (a + of_nat i) \<noteq> None
      then Some (\<lambda>x. if unat (x - a) < length bs then Some (bs ! unat (x - a)) else m x) else None)"
  using assms
proof (induction bs arbitrary: m a)
  case (Cons b bs)
  have sh: "a + 1 + of_nat i = a + of_nat (Suc i)" for i by simp
  have len: "length bs \<le> 2 ^ 64" "length bs \<le> 2 ^ 64 - 1" using Cons.prems by simp_all
  show ?case
  proof (cases "m a")
    case None
    then show ?thesis by (auto intro!: exI [of _ 0])
  next
    case (Some v)
    have "((m(a \<mapsto> b)) x \<noteq> None) = (m x \<noteq> None)" for x using Some by simp
    then have c: "(\<forall>i < length bs. (m(a \<mapsto> b)) (a + 1 + of_nat i) \<noteq> None) \<longleftrightarrow>
        (\<forall>i < length (b # bs). m (a + of_nat i) \<noteq> None)"
      using Some by (simp add: All_less_Suc2 sh del: of_nat_Suc fun_upd_apply)
    have f: "(\<lambda>x. if unat (x - (a + 1)) < length bs then Some (bs ! unat (x - (a + 1))) else (m(a \<mapsto> b)) x) =
        (\<lambda>x. if unat (x - a) < length (b # bs) then Some ((b # bs) ! unat (x - a)) else m x)"
    proof
      fix x
      show "(if unat (x - (a + 1)) < length bs then Some (bs ! unat (x - (a + 1))) else (m(a \<mapsto> b)) x) =
        (if unat (x - a) < length (b # bs) then Some ((b # bs) ! unat (x - a)) else m x)"
      proof (cases "x = a")
        case True
        have "\<not> unat (x - (a + 1)) < length bs"
          unfolding True unat_diff_self_Suc using len(2) by (simp only: not_less)
        then show ?thesis using True by simp
      next
        case False
        then show ?thesis by (simp add: unat_diff_Suc [OF False])
      qed
    qed
    show ?thesis
      using Some unfolding store_bytes.simps option.case Cons.IH [OF len(1)] c f by simp
  qed
qed simp

text \<open>
  From here on, a byte of the managed region is named by its offset \<open>k\<close> from the region's base.
\<close>

definition byte_at :: "memory \<Rightarrow> u64 \<Rightarrow> nat \<Rightarrow> u8 option" where
  "byte_at m b k = m (b + of_nat k)"

lemma offset_in_store_iff:
  assumes "j + n \<le> R" "k < R" "R \<le> 2 ^ 64"
  shows "unat (b + of_nat k - (b + of_nat j :: u64)) < n \<longleftrightarrow> j \<le> k \<and> k < j + n"
    and "j \<le> k \<Longrightarrow> unat (b + of_nat k - (b + of_nat j :: u64)) = k - j"
proof -
  have d: "b + of_nat k - (b + of_nat j :: u64) = of_nat k - of_nat j" by simp
  show e: "unat (b + of_nat k - (b + of_nat j :: u64)) = k - j" if "j \<le> k"
    using that assms unfolding d of_nat_diff [OF that, symmetric] by (simp add: unat_of_nat del: of_nat_diff)
  show "unat (b + of_nat k - (b + of_nat j :: u64)) < n \<longleftrightarrow> j \<le> k \<and> k < j + n"
  proof (cases "j \<le> k")
    case True
    then show ?thesis unfolding e [OF True] by auto
  next
    case False
    then have "unat (of_nat k - of_nat j :: u64) = k + 2 ^ 64 - j" if "0 < n"
      using assms that by (simp add: unat_sub_if_size word_size unat_of_nat)
    then show ?thesis unfolding d using False assms by (cases "n = 0") simp_all
  qed
qed

lemma store_bytes_at:
  assumes "\<And>i. i < length bs \<Longrightarrow> byte_at m b (j + i) \<noteq> None" "j + length bs \<le> R" "R \<le> 2 ^ 64"
  obtains m' where "store_bytes m (b + of_nat j) bs = Some m'"
    and "\<And>k. k < R \<Longrightarrow> byte_at m' b k = (if j \<le> k \<and> k < j + length bs then Some (bs ! (k - j)) else byte_at m b k)"
    and "\<And>x. length bs \<le> unat (x - (b + of_nat j)) \<Longrightarrow> m' x = m x"
    and "dom m' = dom m"
proof -
  let ?a = "b + of_nat j"
  let ?m' = "\<lambda>x. if unat (x - ?a) < length bs then Some (bs ! unat (x - ?a)) else m x"
  have len: "length bs \<le> 2 ^ 64" using assms(2,3) by simp
  have mapped: "m (?a + of_nat i) \<noteq> None" if "i < length bs" for i
    using assms(1) [OF that] by (simp add: byte_at_def add.assoc)
  have "m x \<noteq> None" if "unat (x - ?a) < length bs" for x
    using mapped [OF that] by simp
  then have "dom ?m' = dom m" by (auto split: if_splits)
  moreover have "store_bytes m ?a bs = Some ?m'" using mapped by (simp add: store_bytes_eq [OF len])
  moreover have "byte_at ?m' b k = (if j \<le> k \<and> k < j + length bs then Some (bs ! (k - j)) else byte_at m b k)"
    if "k < R" for k
    using offset_in_store_iff [OF assms(2) that assms(3), of b] by (auto simp: byte_at_def)
  ultimately show thesis using that [of ?m'] by auto
qed

lemma load_bytes_at:
  "load_bytes m (b + of_nat j) n =
     (if \<forall>i < n. byte_at m b (j + i) \<noteq> None then Some (map (\<lambda>i. the (byte_at m b (j + i))) [0..<n]) else None)"
  by (simp add: load_bytes_eq byte_at_def add.assoc)

lemma load_bytes_cong:
  "(\<And>i. i < n \<Longrightarrow> byte_at m' b (j + i) = byte_at m b (j + i)) \<Longrightarrow>
   load_bytes m' (b + of_nat j) n = load_bytes m (b + of_nat j) n"
  by (auto simp: load_bytes_at intro!: map_cong)

lemma load_bytes_stored:
  assumes "\<And>i. i < length bs \<Longrightarrow> byte_at m b (j + i) = Some (bs ! i)"
  shows "load_bytes m (b + of_nat j) (length bs) = Some bs"
  using assms by (auto simp: load_bytes_at intro!: nth_equalityI)

section \<open>Words as bytes\<close>

lemma length_to_le [simp]: "length (to_le n w) = n"
  by (simp add: to_le_def)

lemma to_le_Suc: "to_le (Suc n) w = ucast w # to_le n (drop_bit 8 w)"
  by (simp add: to_le_def upt_conv_Cons add.commute flip: map_Suc_upt del: upt_Suc)

lemma bit_from_le_to_le:
  "bit (from_le (to_le n (w :: 'a::len word)) :: 'a word) k \<longleftrightarrow> k < 8 * n \<and> bit w k"
proof (induction n arbitrary: w k)
  case 0
  then show ?case by (simp add: to_le_def from_le_def)
next
  case (Suc n)
  have "from_le (to_le (Suc n) w) = (ucast (ucast w :: u8) OR push_bit 8 (from_le (to_le n (drop_bit 8 w))) :: 'a word)"
    by (simp add: to_le_Suc from_le_def)
  moreover have "k < LENGTH('a)" if "bit w k" using that by (rule bit_imp_le_length)
  ultimately show ?case
    by (auto simp: bit_or_iff bit_push_bit_iff bit_ucast_iff Suc.IH bit_drop_bit_eq dest: bit_imp_le_length)
qed

lemma from_le_to_le [simp]: "LENGTH('a) \<le> 8 * n \<Longrightarrow> from_le (to_le n w) = (w :: 'a::len word)"
  by (intro bit_word_eqI) (simp add: bit_from_le_to_le)

end
