(* ===== verification/Chunks.thy ===== *)
theory Chunks
  imports Memories
begin

text \<open>
  The chunk headers of \<^verbatim>\<open>src/allocator.rs\<close>: \<^verbatim>\<open>ChunkSize\<close> packs a size and the allocated bit,
  \<^verbatim>\<open>ChunkHeader\<close> (8 bytes) starts every chunk, \<^verbatim>\<open>FreeChunkHeader\<close> (24 bytes) extends it with the
  two links of the free list. A field is read and written at its \<^verbatim>\<open>repr(C)\<close> offset through a
  \<^verbatim>\<open>Pointer\<close>. A chunk starts at a 32-byte unit of the region, and the lemmas say what a write to a
  field of one unit does to every field of every unit.
\<close>

section \<open>The program\<close>

datatype ChunkSize = ChunkSize (raw_chunk: u32)

definition new_allocated :: "Size \<Rightarrow> ChunkSize" where
  "new_allocated s = ChunkSize (push_bit 1 (raw_units s) OR 1)"

definition new_unallocated :: "Size \<Rightarrow> ChunkSize" where
  "new_unallocated s = ChunkSize (push_bit 1 (raw_units s))"

definition ChunkSize_size :: "ChunkSize \<Rightarrow> Size" where
  "ChunkSize_size k = Size (drop_bit 1 (raw_chunk k))"

definition is_allocated :: "ChunkSize \<Rightarrow> bool" where
  "is_allocated k \<longleftrightarrow> raw_chunk k AND 1 = 1"

record ChunkHeader =
  prev_chunk_size :: Size
  chunk_size :: ChunkSize

record FreeChunkHeader = ChunkHeader +
  next_in_list :: Pointer
  prev_in_list :: Pointer

definition SIZEOF_ChunkHeader :: u64 where
  "SIZEOF_ChunkHeader = 4 + 4"

definition SIZEOF_FreeChunkHeader :: u64 where
  "SIZEOF_FreeChunkHeader = 4 + 4 + 8 + 8"

definition HEADER_SIZE :: Size where
  "HEADER_SIZE = the (from_bytes_usize SIZEOF_ChunkHeader)"

definition FREE_CHUNK_HEADER_SIZE :: Size where
  "FREE_CHUNK_HEADER_SIZE = the (from_bytes_usize SIZEOF_FreeChunkHeader)"

text \<open>What is asserted of them at compile time.\<close>

definition header_assertions :: "unit option" where
  "header_assertions =
     (if SIZEOF_ChunkHeader \<le> ucast ALLOCATION_GRANULARITY \<and> SIZEOF_FreeChunkHeader \<le> ucast ALLOCATION_GRANULARITY \<and>
         raw_units HEADER_SIZE = 1
      then Some () else None)"

text \<open>
  Field access behind \<^verbatim>\<open>Pointer::get_unchecked\<close> and \<^verbatim>\<open>Pointer::get_mut_unchecked\<close>, which assert that
  the pointer is not null and then dereference it.
\<close>

definition get_prev_chunk_size :: "build \<Rightarrow> memory \<Rightarrow> Pointer \<Rightarrow> Size option" where
  "get_prev_chunk_size c m p = do {
     paranoid_assert c (Some (\<not> Pointer_is_null p));
     w \<leftarrow> load_u32 m (address p);
     Some (Size w)
   }"

definition get_size :: "build \<Rightarrow> memory \<Rightarrow> Pointer \<Rightarrow> ChunkSize option" where
  "get_size c m p = do {
     paranoid_assert c (Some (\<not> Pointer_is_null p));
     w \<leftarrow> load_u32 m (address p + 4);
     Some (ChunkSize w)
   }"

definition get_next_in_list :: "build \<Rightarrow> memory \<Rightarrow> Pointer \<Rightarrow> Pointer option" where
  "get_next_in_list c m p = do {
     paranoid_assert c (Some (\<not> Pointer_is_null p));
     w \<leftarrow> load_u64 m (address p + 8);
     Some (Pointer w)
   }"

definition get_prev_in_list :: "build \<Rightarrow> memory \<Rightarrow> Pointer \<Rightarrow> Pointer option" where
  "get_prev_in_list c m p = do {
     paranoid_assert c (Some (\<not> Pointer_is_null p));
     w \<leftarrow> load_u64 m (address p + 16);
     Some (Pointer w)
   }"

definition set_prev_chunk_size :: "build \<Rightarrow> memory \<Rightarrow> Pointer \<Rightarrow> Size \<Rightarrow> memory option" where
  "set_prev_chunk_size c m p v = do {
     paranoid_assert c (Some (\<not> Pointer_is_null p));
     store_u32 m (address p) (raw_units v)
   }"

definition set_size :: "build \<Rightarrow> memory \<Rightarrow> Pointer \<Rightarrow> ChunkSize \<Rightarrow> memory option" where
  "set_size c m p v = do {
     paranoid_assert c (Some (\<not> Pointer_is_null p));
     store_u32 m (address p + 4) (raw_chunk v)
   }"

definition set_next_in_list :: "build \<Rightarrow> memory \<Rightarrow> Pointer \<Rightarrow> Pointer \<Rightarrow> memory option" where
  "set_next_in_list c m p v = do {
     paranoid_assert c (Some (\<not> Pointer_is_null p));
     store_u64 m (address p + 8) (address v)
   }"

definition set_prev_in_list :: "build \<Rightarrow> memory \<Rightarrow> Pointer \<Rightarrow> Pointer \<Rightarrow> memory option" where
  "set_prev_in_list c m p v = do {
     paranoid_assert c (Some (\<not> Pointer_is_null p));
     store_u64 m (address p + 16) (address v)
   }"

text \<open>\<^verbatim>\<open>Pointer::write_no_drop\<close> at the two header types.\<close>

definition write_chunk_header :: "build \<Rightarrow> memory \<Rightarrow> Pointer \<Rightarrow> ChunkHeader \<Rightarrow> memory option" where
  "write_chunk_header c m p h = do {
     paranoid_assert c (Some (\<not> Pointer_is_null p));
     m \<leftarrow> store_u32 m (address p) (raw_units (prev_chunk_size h));
     store_u32 m (address p + 4) (raw_chunk (chunk_size h))
   }"

definition write_free_chunk_header :: "build \<Rightarrow> memory \<Rightarrow> Pointer \<Rightarrow> FreeChunkHeader \<Rightarrow> memory option" where
  "write_free_chunk_header c m p h = do {
     paranoid_assert c (Some (\<not> Pointer_is_null p));
     m \<leftarrow> store_u32 m (address p) (raw_units (prev_chunk_size h));
     m \<leftarrow> store_u32 m (address p + 4) (raw_chunk (chunk_size h));
     m \<leftarrow> store_u64 m (address p + 8) (address (next_in_list h));
     store_u64 m (address p + 16) (address (prev_in_list h))
   }"

section \<open>Chunk sizes\<close>

lemma HEADER_SIZE_eq [simp]: "HEADER_SIZE = sz 1"
  by (simp add: HEADER_SIZE_def SIZEOF_ChunkHeader_def from_bytes_usize_eq)

lemma FREE_CHUNK_HEADER_SIZE_eq [simp]: "FREE_CHUNK_HEADER_SIZE = sz 1"
  by (simp add: FREE_CHUNK_HEADER_SIZE_def SIZEOF_FreeChunkHeader_def from_bytes_usize_eq)

lemma header_assertions_hold: "header_assertions = Some ()"
  by (simp add: header_assertions_def SIZEOF_ChunkHeader_def SIZEOF_FreeChunkHeader_def ALLOCATION_GRANULARITY_def sz_def)

definition packed :: "nat \<Rightarrow> bool \<Rightarrow> ChunkSize" where
  "packed n a = (if a then new_allocated (sz n) else new_unallocated (sz n))"

lemma new_allocated_sz: "new_allocated (sz n) = packed n True"
  by (simp add: packed_def)

lemma new_unallocated_sz: "new_unallocated (sz n) = packed n False"
  by (simp add: packed_def)

lemma raw_chunk_nat:
  "n < 2 ^ 31 \<Longrightarrow> unat (raw_chunk (packed n a)) = 2 * n + (if a then 1 else 0)"
proof -
  assume n: "n < 2 ^ 31"
  then have s: "unat (push_bit 1 (of_nat n :: u32)) = 2 * n"
    by (subst unat_push_bit_mod) (simp add: unat_of_nat)
  then have "unat (push_bit 1 (of_nat n :: u32) OR 1) = 2 * n + 1"
    by (subst unat_or_low [of 1]) simp_all
  then show ?thesis using s by (simp add: packed_def new_allocated_def new_unallocated_def)
qed

lemma ChunkSize_size_chunk [simp]: "n < 2 ^ 31 \<Longrightarrow> ChunkSize_size (packed n a) = sz n"
proof -
  assume n: "n < 2 ^ 31"
  then have "unat (drop_bit 1 (raw_chunk (packed n a))) = n"
    by (simp only: unat_drop_bit_div raw_chunk_nat) simp
  then have "drop_bit 1 (raw_chunk (packed n a)) = of_nat n" by (metis of_nat_unat ucast_id)
  then show ?thesis by (simp add: ChunkSize_size_def sz_def)
qed

lemma is_allocated_chunk [simp]: "is_allocated (packed n a) = a"
proof -
  have "is_allocated k \<longleftrightarrow> odd (raw_chunk k)" for k
    by (simp add: is_allocated_def and_one_eq odd_iff_mod_2_eq_one)
  then show ?thesis by (simp add: packed_def new_allocated_def new_unallocated_def even_or_iff)
qed

section \<open>Units of the region\<close>

text \<open>
  \<open>gaddr b o\<close> is the address of unit \<open>o\<close> of the region at \<open>b\<close>. The four views read a header field
  of a unit; \<open>framed b G m m'\<close> says that \<open>m'\<close> differs from \<open>m\<close> only in bytes of the units \<open>G\<close>.
\<close>

definition gaddr :: "u64 \<Rightarrow> nat \<Rightarrow> u64" where
  "gaddr b n = b + of_nat (32 * n)"

definition gptr :: "u64 \<Rightarrow> nat \<Rightarrow> Pointer" where
  "gptr b n = Pointer (gaddr b n)"

definition hprev :: "memory \<Rightarrow> u64 \<Rightarrow> nat \<Rightarrow> Size option" where
  "hprev m b n = map_option Size (load_u32 m (gaddr b n))"

definition hsize :: "memory \<Rightarrow> u64 \<Rightarrow> nat \<Rightarrow> ChunkSize option" where
  "hsize m b n = map_option ChunkSize (load_u32 m (gaddr b n + 4))"

definition hnext :: "memory \<Rightarrow> u64 \<Rightarrow> nat \<Rightarrow> Pointer option" where
  "hnext m b n = map_option Pointer (load_u64 m (gaddr b n + 8))"

definition hback :: "memory \<Rightarrow> u64 \<Rightarrow> nat \<Rightarrow> Pointer option" where
  "hback m b n = map_option Pointer (load_u64 m (gaddr b n + 16))"

lemmas header_views = hprev_def hsize_def hnext_def hback_def

definition unit_mapped :: "memory \<Rightarrow> u64 \<Rightarrow> nat \<Rightarrow> bool" where
  "unit_mapped m b n \<longleftrightarrow> (\<forall>k < 32. byte_at m b (32 * n + k) \<noteq> None)"

definition framed :: "u64 \<Rightarrow> nat set \<Rightarrow> memory \<Rightarrow> memory \<Rightarrow> bool" where
  "framed b G m m' \<longleftrightarrow> dom m' = dom m \<and> (\<forall>x. (\<forall>g \<in> G. 32 \<le> unat (x - gaddr b g)) \<longrightarrow> m' x = m x)"

lemma framed_refl [simp]: "framed b G m m"
  by (simp add: framed_def)

lemma framed_trans: "framed b G m m' \<Longrightarrow> framed b H m' m'' \<Longrightarrow> framed b (G \<union> H) m m''"
  by (simp add: framed_def)

lemma framed_mono: "framed b G m m' \<Longrightarrow> G \<subseteq> H \<Longrightarrow> framed b H m m'"
  unfolding framed_def by (meson subsetD)

lemma framed_mapped: "framed b G m m' \<Longrightarrow> unit_mapped m' b n = unit_mapped m b n"
  unfolding framed_def unit_mapped_def byte_at_def by (metis domIff)

lemma gaddr_plus: "gaddr b n + of_nat f = b + of_nat (32 * n + f)"
  by (simp add: gaddr_def add.assoc)

lemma unit_disjoint:
  "n \<noteq> n' \<Longrightarrow> f + l \<le> 32 \<Longrightarrow> f' + l' \<le> 32 \<Longrightarrow>
   32 * n + f + l \<le> 32 * n' + f' \<or> 32 * n' + f' + l' \<le> 32 * n + f" for n :: nat
  by linarith

text \<open>A store inside one unit: what it stores, and every load it leaves alone.\<close>

lemma store_in_unit:
  assumes T: "32 * T \<le> 2 ^ 64" and n: "n < T" and m: "unit_mapped m b n" and f: "f + length bs \<le> 32"
  obtains m' where "store_bytes m (gaddr b n + of_nat f) bs = Some m'"
    and "framed b {n} m m'"
    and "load_bytes m' (gaddr b n + of_nat f) (length bs) = Some bs"
    and "\<And>n' f' l. n' < T \<Longrightarrow> f' + l \<le> 32 \<Longrightarrow> n' \<noteq> n \<or> f' + l \<le> f \<or> f + length bs \<le> f' \<Longrightarrow>
       load_bytes m' (gaddr b n' + of_nat f') l = load_bytes m (gaddr b n' + of_nat f') l"
proof -
  have mapped: "byte_at m b (32 * n + f + i) \<noteq> None" if "i < length bs" for i
    using m f that unfolding unit_mapped_def by (metis add.assoc add_strict_left_mono less_le_trans)
  have R: "32 * n + f + length bs \<le> 32 * T" using n f by linarith
  obtain m' where s: "store_bytes m (b + of_nat (32 * n + f)) bs = Some m'"
    and at: "\<And>k. k < 32 * T \<Longrightarrow> byte_at m' b k =
        (if 32 * n + f \<le> k \<and> k < 32 * n + f + length bs then Some (bs ! (k - (32 * n + f))) else byte_at m b k)"
    and out: "\<And>x. length bs \<le> unat (x - (b + of_nat (32 * n + f))) \<Longrightarrow> m' x = m x"
    and d: "dom m' = dom m"
    using store_bytes_at [OF mapped R T] by blast
  have "m' x = m x" if x: "32 \<le> unat (x - gaddr b n)" for x
  proof (rule out)
    have "unat (x - gaddr b n - of_nat f) = unat (x - gaddr b n) - f"
      using x f by (subst unat_sub) (simp_all add: word_le_nat_alt unat_of_nat)
    then show "length bs \<le> unat (x - (b + of_nat (32 * n + f)))"
      using x f unfolding gaddr_plus [symmetric] diff_diff_eq [symmetric] by linarith
  qed
  then have "framed b {n} m m'" using d by (simp add: framed_def)
  moreover have "load_bytes m' (gaddr b n + of_nat f) (length bs) = Some bs"
    unfolding gaddr_plus using R by (intro load_bytes_stored) (simp add: at)
  moreover have "load_bytes m' (gaddr b n' + of_nat f') l = load_bytes m (gaddr b n' + of_nat f') l"
    if "n' < T" "f' + l \<le> 32" "n' \<noteq> n \<or> f' + l \<le> f \<or> f + length bs \<le> f'" for n' f' l
    unfolding gaddr_plus
  proof (rule load_bytes_cong)
    fix i assume i: "i < l"
    have "32 * n' + f' + i < 32 * n + f \<or> 32 * n + f + length bs \<le> 32 * n' + f' + i"
      using that(2,3) i f unit_disjoint [of n n' f "length bs" f' l] by linarith
    moreover have "32 * n' + f' + i < 32 * T" using that(1,2) i by linarith
    ultimately show "byte_at m' b (32 * n' + f' + i) = byte_at m b (32 * n' + f' + i)"
      by (subst at) auto
  qed
  ultimately show thesis using that [of m'] s unfolding gaddr_plus by blast
qed

section \<open>Reading and writing header fields\<close>

text \<open>A unit of the region whose address is not null.\<close>

definition region_ok :: "u64 \<Rightarrow> nat \<Rightarrow> bool" where
  "region_ok b T \<longleftrightarrow> b \<noteq> 0 \<and> unat b mod 32 = 0 \<and> unat b + 32 * T < 2 ^ 64 \<and> 0 < T \<and> T < 2 ^ 27"

lemma region_okD:
  assumes "region_ok b T"
  shows "32 * T \<le> 2 ^ 64" "0 < T" "T < 2 ^ 27" "b \<noteq> 0" "unat b + 32 * T < 2 ^ 64"
  using assms by (simp_all add: region_ok_def)

lemma unat_gaddr: "region_ok b T \<Longrightarrow> n \<le> T \<Longrightarrow> unat (gaddr b n) = unat b + 32 * n"
proof -
  assume a: "region_ok b T" "n \<le> T"
  then have "unat (of_nat (32 * n) :: u64) = 32 * n" "unat b + 32 * n < 2 ^ 64"
    by (simp_all add: region_ok_def unat_of_nat del: of_nat_mult)
  then show ?thesis unfolding gaddr_def by (subst unat_add_small) simp_all
qed

lemma gptr_not_null: "region_ok b T \<Longrightarrow> n \<le> T \<Longrightarrow> \<not> Pointer_is_null (gptr b n)"
  using unat_gaddr [of b T n] by (auto simp: Pointer_is_null_def gptr_def region_ok_def unat_eq_0)

lemma address_gptr [simp]: "address (gptr b n) = gaddr b n"
  by (simp add: gptr_def)

lemma gptr_inject: "region_ok b T \<Longrightarrow> m \<le> T \<Longrightarrow> n \<le> T \<Longrightarrow> gptr b m = gptr b n \<longleftrightarrow> m = n"
proof -
  assume a: "region_ok b T" "m \<le> T" "n \<le> T"
  have "gptr b m = gptr b n \<longleftrightarrow> unat (gaddr b m) = unat (gaddr b n)"
    by (simp add: gptr_def word_unat_eq_iff)
  then show ?thesis using a by (simp add: unat_gaddr)
qed

lemma gptr_less_iff: "region_ok b T \<Longrightarrow> m \<le> T \<Longrightarrow> n \<le> T \<Longrightarrow> gptr b m < gptr b n \<longleftrightarrow> m < n"
  using unat_gaddr [of b T m] unat_gaddr [of b T n] by (simp add: less_Pointer_def Pointer_less_def word_less_nat_alt)

lemma Pointer_is_null_NULL [simp]: "Pointer_is_null NULL"
  by (simp add: Pointer_is_null_def NULL_def)

lemma gptr_neq_NULL: "region_ok b T \<Longrightarrow> n \<le> T \<Longrightarrow> gptr b n \<noteq> NULL"
  by (metis gptr_not_null Pointer_is_null_NULL)

lemma gptr_0: "gptr b 0 = Pointer b"
  by (simp add: gptr_def gaddr_def)

lemma ucast_bytes: "n < 2 ^ 27 \<Longrightarrow> ucast (bytes (sz n)) = (of_nat (32 * n) :: u64)"
proof -
  assume "n < 2 ^ 27"
  then have "unat (bytes (sz n)) = 32 * n" by (simp add: unat_bytes_small)
  then show ?thesis by (metis of_nat_unat)
qed

lemma gptr_add: "n < 2 ^ 27 \<Longrightarrow> Pointer_unchecked_add (gptr b m) (sz n) = gptr b (m + n)"
  by (simp add: Pointer_unchecked_add_def ucast_bytes gptr_def gaddr_def algebra_simps)

lemma gptr_sub: "n < 2 ^ 27 \<Longrightarrow> n \<le> m \<Longrightarrow> Pointer_unchecked_sub (gptr b m) (sz n) = gptr b (m - n)"
  by (simp add: Pointer_unchecked_sub_def ucast_bytes gptr_def gaddr_def algebra_simps)

lemma from_pointer_and_base_gptr:
  assumes "region_ok b T" "n \<le> T"
  shows "from_pointer_and_base_unchecked c (gptr b n) (Pointer b) = Some (sz n)"
proof -
  have n: "n < 2 ^ 27" using assms by (simp add: region_ok_def)
  have "b \<le> gaddr b n" using unat_gaddr [OF assms] by (simp add: word_le_nat_alt)
  moreover have "unat (drop_bit 5 (gaddr b n - b)) = n"
    using n unfolding unat_drop_bit_div by (simp add: gaddr_def unat_of_nat del: of_nat_mult)
  then have "ucast (drop_bit 5 (gaddr b n - b)) = (of_nat n :: u32)" by (metis of_nat_unat)
  ultimately show ?thesis
    by (simp add: from_pointer_and_base_unchecked_def sub_chk_ok shr_def sz_def)
qed

lemma gets_gptr:
  assumes "region_ok b T" "n \<le> T"
  shows "get_prev_chunk_size c m (gptr b n) = hprev m b n"
    "get_size c m (gptr b n) = hsize m b n"
    "get_next_in_list c m (gptr b n) = hnext m b n"
    "get_prev_in_list c m (gptr b n) = hback m b n"
  using gptr_not_null [OF assms]
  by (simp_all add: get_prev_chunk_size_def get_size_def get_next_in_list_def get_prev_in_list_def
      header_views map_conv_bind_option o_def)

lemma load_after_store:
  assumes "load_bytes m a (length bs) = Some bs"
  shows "length bs = 4 \<Longrightarrow> bs = to_le 4 v \<Longrightarrow> load_u32 m a = Some v"
    and "length bs = 8 \<Longrightarrow> bs = to_le 8 w \<Longrightarrow> load_u64 m a = Some w"
  using assms by (simp_all add: load_u32_def load_u64_def)

lemma set_prev_chunk_size_ok:
  assumes b: "region_ok b T" and n: "n < T" and m: "unit_mapped m b n"
  obtains m' where "set_prev_chunk_size c m (gptr b n) v = Some m'" "framed b {n} m m'"
    "\<And>k. k < T \<Longrightarrow> hprev m' b k = (if k = n then Some v else hprev m b k)"
    "\<And>k. k < T \<Longrightarrow> hsize m' b k = hsize m b k"
    "\<And>k. k < T \<Longrightarrow> hnext m' b k = hnext m b k"
    "\<And>k. k < T \<Longrightarrow> hback m' b k = hback m b k"
proof -
  obtain m' where s: "store_bytes m (gaddr b n + of_nat 0) (to_le 4 (raw_units v)) = Some m'" "framed b {n} m m'"
    and l: "load_bytes m' (gaddr b n + of_nat 0) (length (to_le 4 (raw_units v))) = Some (to_le 4 (raw_units v))"
    and o: "\<And>n' f' l. n' < T \<Longrightarrow> f' + l \<le> 32 \<Longrightarrow> n' \<noteq> n \<or> f' + l \<le> 0 \<or> 0 + length (to_le 4 (raw_units v)) \<le> f' \<Longrightarrow>
       load_bytes m' (gaddr b n' + of_nat f') l = load_bytes m (gaddr b n' + of_nat f') l"
    using store_in_unit [OF region_okD(1) [OF b] n m, of 0 "to_le 4 (raw_units v)"] by auto
  have "set_prev_chunk_size c m (gptr b n) v = Some m'"
    using gptr_not_null [OF b less_imp_le [OF n]] s by (simp add: set_prev_chunk_size_def store_u32_def)
  then show thesis
    using that [of m'] s(2) l o [of _ 0 4] o [of _ 4 4] o [of _ 8 8] o [of _ 16 8]
    by (simp add: header_views load_u32_def load_u64_def)
qed

lemma set_size_ok:
  assumes b: "region_ok b T" and n: "n < T" and m: "unit_mapped m b n"
  obtains m' where "set_size c m (gptr b n) v = Some m'" "framed b {n} m m'"
    "\<And>k. k < T \<Longrightarrow> hprev m' b k = hprev m b k"
    "\<And>k. k < T \<Longrightarrow> hsize m' b k = (if k = n then Some v else hsize m b k)"
    "\<And>k. k < T \<Longrightarrow> hnext m' b k = hnext m b k"
    "\<And>k. k < T \<Longrightarrow> hback m' b k = hback m b k"
proof -
  obtain m' where s: "store_bytes m (gaddr b n + of_nat 4) (to_le 4 (raw_chunk v)) = Some m'" "framed b {n} m m'"
    and l: "load_bytes m' (gaddr b n + of_nat 4) (length (to_le 4 (raw_chunk v))) = Some (to_le 4 (raw_chunk v))"
    and o: "\<And>n' f' l. n' < T \<Longrightarrow> f' + l \<le> 32 \<Longrightarrow> n' \<noteq> n \<or> f' + l \<le> 4 \<or> 4 + length (to_le 4 (raw_chunk v)) \<le> f' \<Longrightarrow>
       load_bytes m' (gaddr b n' + of_nat f') l = load_bytes m (gaddr b n' + of_nat f') l"
    using store_in_unit [OF region_okD(1) [OF b] n m, of 4 "to_le 4 (raw_chunk v)"] by auto
  have "set_size c m (gptr b n) v = Some m'"
    using gptr_not_null [OF b less_imp_le [OF n]] s by (simp add: set_size_def store_u32_def)
  then show thesis
    using that [of m'] s(2) l o [of _ 0 4] o [of _ 4 4] o [of _ 8 8] o [of _ 16 8]
    by (cases v) (simp add: header_views load_u32_def load_u64_def)
qed

lemma set_next_in_list_ok:
  assumes b: "region_ok b T" and n: "n < T" and m: "unit_mapped m b n"
  obtains m' where "set_next_in_list c m (gptr b n) v = Some m'" "framed b {n} m m'"
    "\<And>k. k < T \<Longrightarrow> hprev m' b k = hprev m b k"
    "\<And>k. k < T \<Longrightarrow> hsize m' b k = hsize m b k"
    "\<And>k. k < T \<Longrightarrow> hnext m' b k = (if k = n then Some v else hnext m b k)"
    "\<And>k. k < T \<Longrightarrow> hback m' b k = hback m b k"
proof -
  obtain m' where s: "store_bytes m (gaddr b n + of_nat 8) (to_le 8 (address v)) = Some m'" "framed b {n} m m'"
    and l: "load_bytes m' (gaddr b n + of_nat 8) (length (to_le 8 (address v))) = Some (to_le 8 (address v))"
    and o: "\<And>n' f' l. n' < T \<Longrightarrow> f' + l \<le> 32 \<Longrightarrow> n' \<noteq> n \<or> f' + l \<le> 8 \<or> 8 + length (to_le 8 (address v)) \<le> f' \<Longrightarrow>
       load_bytes m' (gaddr b n' + of_nat f') l = load_bytes m (gaddr b n' + of_nat f') l"
    using store_in_unit [OF region_okD(1) [OF b] n m, of 8 "to_le 8 (address v)"] by auto
  have "set_next_in_list c m (gptr b n) v = Some m'"
    using gptr_not_null [OF b less_imp_le [OF n]] s by (simp add: set_next_in_list_def store_u64_def)
  then show thesis
    using that [of m'] s(2) l o [of _ 0 4] o [of _ 4 4] o [of _ 8 8] o [of _ 16 8]
    by (cases v) (simp add: header_views load_u32_def load_u64_def)
qed

lemma set_prev_in_list_ok:
  assumes b: "region_ok b T" and n: "n < T" and m: "unit_mapped m b n"
  obtains m' where "set_prev_in_list c m (gptr b n) v = Some m'" "framed b {n} m m'"
    "\<And>k. k < T \<Longrightarrow> hprev m' b k = hprev m b k"
    "\<And>k. k < T \<Longrightarrow> hsize m' b k = hsize m b k"
    "\<And>k. k < T \<Longrightarrow> hnext m' b k = hnext m b k"
    "\<And>k. k < T \<Longrightarrow> hback m' b k = (if k = n then Some v else hback m b k)"
proof -
  obtain m' where s: "store_bytes m (gaddr b n + of_nat 16) (to_le 8 (address v)) = Some m'" "framed b {n} m m'"
    and l: "load_bytes m' (gaddr b n + of_nat 16) (length (to_le 8 (address v))) = Some (to_le 8 (address v))"
    and o: "\<And>n' f' l. n' < T \<Longrightarrow> f' + l \<le> 32 \<Longrightarrow> n' \<noteq> n \<or> f' + l \<le> 16 \<or> 16 + length (to_le 8 (address v)) \<le> f' \<Longrightarrow>
       load_bytes m' (gaddr b n' + of_nat f') l = load_bytes m (gaddr b n' + of_nat f') l"
    using store_in_unit [OF region_okD(1) [OF b] n m, of 16 "to_le 8 (address v)"] by auto
  have "set_prev_in_list c m (gptr b n) v = Some m'"
    using gptr_not_null [OF b less_imp_le [OF n]] s by (simp add: set_prev_in_list_def store_u64_def)
  then show thesis
    using that [of m'] s(2) l o [of _ 0 4] o [of _ 4 4] o [of _ 8 8] o [of _ 16 8]
    by (cases v) (simp add: header_views load_u32_def load_u64_def)
qed

text \<open>The two header writes are sequences of field writes.\<close>

lemma write_chunk_header_eq:
  "write_chunk_header c m p h = do {
     m \<leftarrow> set_prev_chunk_size c m p (prev_chunk_size h);
     set_size c m p (chunk_size h)
   }"
  by (cases "Pointer_is_null p"; cases "paranoid c")
    (simp_all add: write_chunk_header_def set_prev_chunk_size_def set_size_def paranoid_assert_def)

lemma write_free_chunk_header_eq:
  "write_free_chunk_header c m p h = do {
     m \<leftarrow> set_prev_chunk_size c m p (prev_chunk_size h);
     m \<leftarrow> set_size c m p (chunk_size h);
     m \<leftarrow> set_next_in_list c m p (next_in_list h);
     set_prev_in_list c m p (prev_in_list h)
   }"
  by (cases "Pointer_is_null p"; cases "paranoid c")
    (simp_all add: write_free_chunk_header_def set_prev_chunk_size_def set_size_def set_next_in_list_def
      set_prev_in_list_def paranoid_assert_def)

end
