(* ===== verification/Envs.thy ===== *)
theory Envs
  imports Chunks
begin

text \<open>
  The trait \<^verbatim>\<open>Env\<close> of \<^verbatim>\<open>src/env.rs\<close>, as a record of operations on an environment state and the
  memory, and its implementation \<^verbatim>\<open>ArrayPointer\<close>. The locale \<open>env_contract\<close> states what the
  allocator relies on: where the address space lies, that memory only grows, and which units are
  mapped after an expansion. \<open>zeroed_env\<close> adds that fresh memory reads as zero, which the
  allocator assumes when it skips clearing in \<^verbatim>\<open>alloc_zeroed\<close>.
\<close>

section \<open>Aborting\<close>

text \<open>
  Execution does not go on after an abort; the native library also ends a panic this way, whatever
  the panic says.
\<close>

definition abort :: "'a option" where
  "abort = None"

definition panic_handler :: "'i \<Rightarrow> 'a option" where
  "panic_handler info = abort"

lemma abort_None [simp]: "abort = None"
  by (simp add: abort_def)

section \<open>The trait\<close>

text \<open>
  Every operation may change the environment and the memory; \<^const>\<open>None\<close> is an abort. An address
  space that could not be had is the null address.
\<close>

record 'e env_ops =
  total_space :: "'e \<Rightarrow> Size"
  allocate_address_space :: "'e \<Rightarrow> memory \<Rightarrow> (u64 \<times> 'e \<times> memory) option"
  expand_memory_until :: "'e \<Rightarrow> memory \<Rightarrow> u64 \<Rightarrow> Size \<Rightarrow> (bool \<times> 'e \<times> memory) option"
  free_address_space :: "'e \<Rightarrow> memory \<Rightarrow> u64 \<Rightarrow> ('e \<times> memory) option"

section \<open>The contract\<close>

text \<open>
  \<open>env_init\<close> holds of an environment whose address space has not been taken yet, \<open>env_ok\<close> of one
  whose address space starts at the given base. \<open>T\<close> is the size of the address space in units.
\<close>

definition mapped_until :: "memory \<Rightarrow> u64 \<Rightarrow> nat \<Rightarrow> bool" where
  "mapped_until m b n \<longleftrightarrow> (\<forall>k < 32 * n. byte_at m b k \<noteq> None)"

definition zero_from :: "memory \<Rightarrow> u64 \<Rightarrow> nat \<Rightarrow> nat \<Rightarrow> bool" where
  "zero_from m b n T \<longleftrightarrow> (\<forall>k. 32 * n \<le> k \<and> k < 32 * T \<longrightarrow> byte_at m b k = None \<or> byte_at m b k = Some 0)"

locale env_contract =
  fixes ops :: "'e env_ops"
    and env_init :: "'e \<Rightarrow> memory \<Rightarrow> bool"
    and env_ok :: "'e \<Rightarrow> memory \<Rightarrow> u64 \<Rightarrow> bool"
    and T :: nat
  assumes total_space_ok: "total_space ops e = sz T"
    and env_ok_region: "env_ok e m b \<Longrightarrow> region_ok b T"
    and env_ok_dom: "env_ok e m b \<Longrightarrow> dom m' = dom m \<Longrightarrow> env_ok e m' b"
    and allocate_ok: "env_init e m \<Longrightarrow> \<exists>b e' m'. allocate_address_space ops e m = Some (b, e', m') \<and>
      m \<subseteq>\<^sub>m m' \<and> (if b = 0 then env_init e' m' else env_ok e' m' b)"
    and expand_ok: "env_ok e m b \<Longrightarrow> n \<le> T \<Longrightarrow> \<exists>r e' m'. expand_memory_until ops e m b (sz n) = Some (r, e', m') \<and>
      m \<subseteq>\<^sub>m m' \<and> env_ok e' m' b \<and> (r \<longrightarrow> mapped_until m' b n)"
    and free_ok: "env_ok e m b \<Longrightarrow> \<exists>e' m'. free_address_space ops e m b = Some (e', m') \<and> m' \<subseteq>\<^sub>m m"
    and undo_ok: "env_init e m \<Longrightarrow> allocate_address_space ops e m = Some (b, e\<^sub>1, m\<^sub>1) \<Longrightarrow> b \<noteq> 0 \<Longrightarrow>
      expand_memory_until ops e\<^sub>1 m\<^sub>1 b (sz 1) = Some (False, e\<^sub>2, m\<^sub>2) \<Longrightarrow>
      free_address_space ops e\<^sub>2 m\<^sub>2 b = Some (e\<^sub>3, m\<^sub>3) \<Longrightarrow> env_init e\<^sub>3 m\<^sub>3"

locale zeroed_env = env_contract +
  assumes allocate_zero: "env_init e m \<Longrightarrow> allocate_address_space ops e m = Some (b, e', m') \<Longrightarrow> b \<noteq> 0 \<Longrightarrow>
      zero_from m' b 0 T"
    and expand_zero: "env_ok e m b \<Longrightarrow> n \<le> T \<Longrightarrow> expand_memory_until ops e m b (sz n) = Some (r, e', m') \<Longrightarrow>
      m x = None \<Longrightarrow> m' x = None \<or> m' x = Some 0"

text \<open>
  More generally, bytes that the allocator has not come to yet satisfy a condition \<open>Q\<close> on their offset and
  contents, which an expansion keeps; space is only ever granted up to \<open>Z\<close> units, and below \<open>Z\<close> the
  condition says that memory is zero.
\<close>

definition tail_from :: "(nat \<Rightarrow> u8 option \<Rightarrow> bool) \<Rightarrow> memory \<Rightarrow> u64 \<Rightarrow> nat \<Rightarrow> nat \<Rightarrow> bool" where
  "tail_from Q m b n T \<longleftrightarrow> (\<forall>k. 32 * n \<le> k \<and> k < 32 * T \<longrightarrow> Q k (byte_at m b k))"

definition unwritten :: "nat \<Rightarrow> u8 option \<Rightarrow> bool" where
  "unwritten k v \<longleftrightarrow> v = None \<or> v = Some 0"

lemma zero_from_tail: "zero_from m b n T \<longleftrightarrow> tail_from unwritten m b n T"
  by (simp add: zero_from_def tail_from_def unwritten_def)

locale tail_env = env_contract +
  fixes Q :: "nat \<Rightarrow> u8 option \<Rightarrow> bool" and Z :: nat
  assumes allocate_tail: "env_init e m \<Longrightarrow> allocate_address_space ops e m = Some (b, e', m') \<Longrightarrow> b \<noteq> 0 \<Longrightarrow>
      tail_from Q m' b 0 T"
    and expand_tail: "env_ok e m b \<Longrightarrow> n \<le> T \<Longrightarrow> expand_memory_until ops e m b (sz n) = Some (r, e', m') \<Longrightarrow>
      k < 32 * T \<Longrightarrow> Q k (byte_at m b k) \<Longrightarrow> Q k (byte_at m' b k)"
    and granted_below: "env_ok e m b \<Longrightarrow> n \<le> T \<Longrightarrow> expand_memory_until ops e m b (sz n) = Some (True, e', m') \<Longrightarrow> n \<le> Z"
    and tail_zero: "Q k v \<Longrightarrow> k < 32 * Z \<Longrightarrow> v = None \<or> v = Some 0"

sublocale zeroed_env \<subseteq> tail_env ops env_init env_ok T unwritten T
proof (unfold_locales, goal_cases)
  case (1 e m b e' m')
  then show ?case using allocate_zero unfolding zero_from_tail by blast
next
  case (2 e m b n r e' m' k)
  show ?case
  proof (cases "byte_at m b k = None")
    case True
    then show ?thesis using expand_zero [OF 2(1-3)] unfolding byte_at_def unwritten_def by blast
  next
    case False
    have "m \<subseteq>\<^sub>m m'" using expand_ok [OF 2(1,2)] 2(3) by auto
    then have "byte_at m' b k = byte_at m b k" using False unfolding byte_at_def map_le_def by (metis domIff)
    then show ?thesis using 2(5) by simp
  qed
next
  case 3
  then show ?case by simp
next
  case 4
  then show ?case by (simp add: unwritten_def)
qed

text \<open>Mapping a range that was not mapped only adds to the memory.\<close>

lemma map_le_fresh_region:
  fixes b :: u64
  assumes "\<And>i. i < n \<Longrightarrow> m (b + of_nat i) = None" "\<And>x. n \<le> unat (x - b) \<Longrightarrow> m' x = m x"
  shows "m \<subseteq>\<^sub>m m'"
proof -
  have "m' x = m x" if x: "x \<in> dom m" for x
  proof (cases "unat (x - b) < n")
    case True
    then have "m (b + of_nat (unat (x - b))) = None" using assms(1) by blast
    moreover have "b + of_nat (unat (x - b)) = x" by (metis add.commute diff_add_cancel of_nat_unat ucast_id)
    ultimately show ?thesis using x by auto
  next
    case False
    then show ?thesis using assms(2) [of x] by (simp only: not_less)
  qed
  then show ?thesis by (simp add: map_le_def)
qed

lemma mapped_until_0 [simp]: "mapped_until m b 0"
  by (simp add: mapped_until_def)

lemma mapped_until_mono: "mapped_until m b n \<Longrightarrow> k \<le> n \<Longrightarrow> mapped_until m b k"
  unfolding mapped_until_def by (meson less_le_trans mult_le_mono2)

lemma mapped_until_grow: "mapped_until m b n \<Longrightarrow> m \<subseteq>\<^sub>m m' \<Longrightarrow> mapped_until m' b n"
  unfolding mapped_until_def byte_at_def map_le_def by (metis domIff)

lemma mapped_until_dom: "dom m' = dom m \<Longrightarrow> mapped_until m' b n = mapped_until m b n"
  unfolding mapped_until_def byte_at_def by (metis domIff)

lemma mapped_until_unit: "mapped_until m b n \<Longrightarrow> k < n \<Longrightarrow> unit_mapped m b k"
  unfolding mapped_until_def unit_mapped_def by simp

section \<open>ArrayPointer\<close>

text \<open>
  The const generic \<^verbatim>\<open>SIZE\<close> is the first argument of every operation; the pointer is the address
  of the array. \<open>const_unwrap\<close> is \<^verbatim>\<open>unwrap\<close> in a \<^verbatim>\<open>const\<close> block, which fails at compile time, so that
  the program exists only for sizes where it succeeds.
\<close>

datatype ArrayPointer = ArrayPointer (array: u64)

definition const_size :: "usize \<Rightarrow> Size" where
  "const_size SIZE = the (from_bytes_usize SIZE)"

definition ArrayPointer_total_space :: "usize \<Rightarrow> ArrayPointer \<Rightarrow> Size" where
  "ArrayPointer_total_space SIZE e = const_size SIZE"

definition ArrayPointer_allocate_address_space ::
    "ArrayPointer \<Rightarrow> memory \<Rightarrow> (u64 \<times> ArrayPointer \<times> memory) option" where
  "ArrayPointer_allocate_address_space e m = Some (array e, e, m)"

definition ArrayPointer_expand_memory_until ::
    "usize \<Rightarrow> ArrayPointer \<Rightarrow> memory \<Rightarrow> u64 \<Rightarrow> Size \<Rightarrow> (bool \<times> ArrayPointer \<times> memory) option" where
  "ArrayPointer_expand_memory_until SIZE e m base n = Some (n \<le> const_size SIZE, e, m)"

definition ArrayPointer_free_address_space ::
    "ArrayPointer \<Rightarrow> memory \<Rightarrow> u64 \<Rightarrow> (ArrayPointer \<times> memory) option" where
  "ArrayPointer_free_address_space e m base = Some (e, m)"

definition ArrayPointer_env :: "usize \<Rightarrow> ArrayPointer env_ops" where
  "ArrayPointer_env SIZE =
     \<lparr>total_space = ArrayPointer_total_space SIZE,
      allocate_address_space = ArrayPointer_allocate_address_space,
      expand_memory_until = ArrayPointer_expand_memory_until SIZE,
      free_address_space = ArrayPointer_free_address_space\<rparr>"

lemmas ArrayPointer_defs = ArrayPointer_env_def ArrayPointer_total_space_def
  ArrayPointer_allocate_address_space_def ArrayPointer_expand_memory_until_def
  ArrayPointer_free_address_space_def

text \<open>
  The array is a static: it is aligned to 32 bytes, its size is rounded up to that alignment, and
  all of it is mapped.
\<close>

definition space :: "usize \<Rightarrow> nat" where
  "space SIZE = units (const_size SIZE)"

definition array_ok :: "usize \<Rightarrow> ArrayPointer \<Rightarrow> memory \<Rightarrow> u64 \<Rightarrow> bool" where
  "array_ok SIZE e m b \<longleftrightarrow> b = array e \<and> region_ok b (space SIZE) \<and> mapped_until m b (space SIZE)"

definition array_init :: "usize \<Rightarrow> ArrayPointer \<Rightarrow> memory \<Rightarrow> bool" where
  "array_init SIZE e m \<longleftrightarrow> array e = 0 \<or> array_ok SIZE e m (array e)"

lemma const_size_sz: "const_size SIZE = sz (space SIZE)"
  by (simp add: space_def)

lemma array_expand:
  assumes "array_ok SIZE e m b" "n \<le> space SIZE"
  shows "\<exists>r e' m'. expand_memory_until (ArrayPointer_env SIZE) e m b (sz n) = Some (r, e', m') \<and>
    m \<subseteq>\<^sub>m m' \<and> array_ok SIZE e' m' b \<and> (r \<longrightarrow> mapped_until m' b n)"
proof -
  have "mapped_until m b n" using assms mapped_until_mono unfolding array_ok_def by blast
  then show ?thesis using assms(1) by (simp add: ArrayPointer_defs)
qed

lemma array_space_ok: "total_space (ArrayPointer_env SIZE) e = sz (space SIZE)"
  by (simp add: ArrayPointer_defs const_size_sz)

lemma array_ok_dom: "array_ok SIZE e m b \<Longrightarrow> dom m' = dom m \<Longrightarrow> array_ok SIZE e m' b"
  unfolding array_ok_def using mapped_until_dom by blast

interpretation array: env_contract "ArrayPointer_env SIZE" "array_init SIZE" "array_ok SIZE" "space SIZE"
  for SIZE
proof (unfold_locales, goal_cases)
  case 1
  then show ?case by (rule array_space_ok)
next
  case 5
  then show ?case by (rule array_expand)
next
  case 3
  then show ?case by (rule array_ok_dom)
qed (auto simp: ArrayPointer_defs array_init_def array_ok_def)

text \<open>With an array that starts out zeroed, the contract of zeroed memory holds as well.\<close>

definition zero_array_init :: "usize \<Rightarrow> ArrayPointer \<Rightarrow> memory \<Rightarrow> bool" where
  "zero_array_init SIZE e m \<longleftrightarrow>
     array e = 0 \<or> array_ok SIZE e m (array e) \<and> zero_from m (array e) 0 (space SIZE)"

interpretation zero_array: zeroed_env "ArrayPointer_env SIZE" "zero_array_init SIZE" "array_ok SIZE" "space SIZE"
  for SIZE
proof (unfold_locales, goal_cases)
  case 1
  then show ?case by (rule array_space_ok)
next
  case 5
  then show ?case by (rule array_expand)
next
  case 3
  then show ?case by (rule array_ok_dom)
qed (auto simp: ArrayPointer_defs zero_array_init_def array_ok_def)

end
