(* ===== verification/Free_Lists.thy ===== *)
theory Free_Lists
  imports Bit_Masks Envs
begin

text \<open>
  The allocator's state (\<^verbatim>\<open>struct Allocator\<close> of \<^verbatim>\<open>src/allocator.rs\<close>) and its free lists: one doubly
  linked list per bin, threaded through the headers of the free chunks, with the head of each list
  in an array and the set of non-empty lists in the bit mask. \<open>lists_ok\<close> relates a state to the
  map \<open>F\<close> from the offset of each registered chunk to its size; taking a chunk out and putting one
  in are shown to be deletion and insertion on \<open>F\<close>.
\<close>

section \<open>The program\<close>

record 'e allocator =
  allocated_space :: Size
  base_address :: u64
  free_lists_with_unallocated_memory :: BitMask
  first_in_free_list :: "Pointer list"
  env :: 'e

text \<open>The allocator together with the memory it runs in.\<close>

record 'e machine = "'e allocator" +
  mem :: memory

definition paranoid_check_access :: "build \<Rightarrow> 'e machine \<Rightarrow> Pointer \<Rightarrow> u64 \<Rightarrow> unit option" where
  "paranoid_check_access c s p size_of = do {
     paranoid_assert c (Some (\<not> Pointer_is_null p));
     paranoid_assert c (Some (address p - base_address s + size_of \<le> ucast (bytes (allocated_space s))))
   }"

definition size_to_bin_round_down :: "Size \<Rightarrow> BitIndex" where
  "size_to_bin_round_down n =
     (let n = (if raw_units n > raw_units MAX_ALLOCATION_SIZE then MAX_ALLOCATION_SIZE else n)
      in BitMask_index (to_bin_index False n))"

definition size_to_bin_round_up :: "Size \<Rightarrow> BitIndex" where
  "size_to_bin_round_up n =
     (let n = (if raw_units n > raw_units MAX_ALLOCATION_SIZE then MAX_ALLOCATION_SIZE else n)
      in BitMask_index (to_bin_index True n))"

definition unregister_free_space_first_chunk ::
    "build \<Rightarrow> 'e machine \<Rightarrow> Pointer \<Rightarrow> BitIndex \<Rightarrow> 'e machine option" where
  "unregister_free_space_first_chunk c s chunk bin = do {
     paranoid_check_access c s chunk SIZEOF_FreeChunkHeader;
     paranoid_assert c (do {
       p \<leftarrow> get_unchecked (first_in_free_list s) (BitIndex_index bin);
       Some (p = chunk) });
     paranoid_assert c (do { k \<leftarrow> get_size c (mem s) chunk; Some (\<not> is_allocated k) });
     paranoid_assert c (do { p \<leftarrow> get_prev_in_list c (mem s) chunk; Some (Pointer_is_null p) });
     next \<leftarrow> get_next_in_list c (mem s) chunk;
     paranoid_assert c (Some (next \<noteq> chunk));
     firsts \<leftarrow> set_unchecked (first_in_free_list s) (BitIndex_index bin) next;
     let s = s\<lparr>first_in_free_list := firsts\<rparr>;
     if Pointer_is_null next
     then do {
       mask \<leftarrow> BitMask_unset (free_lists_with_unallocated_memory s) bin;
       Some (s\<lparr>free_lists_with_unallocated_memory := mask\<rparr>)
     }
     else do {
       m \<leftarrow> set_prev_in_list c (mem s) next NULL;
       Some (s\<lparr>mem := m\<rparr>)
     }
   }"

definition unregister_free_space ::
    "build \<Rightarrow> 'e machine \<Rightarrow> Pointer \<Rightarrow> BitIndex \<Rightarrow> 'e machine option" where
  "unregister_free_space c s chunk bin = do {
     paranoid_check_access c s chunk SIZEOF_FreeChunkHeader;
     first \<leftarrow> get_unchecked (first_in_free_list s) (BitIndex_index bin);
     if first = chunk
     then unregister_free_space_first_chunk c s chunk bin
     else do {
       paranoid_assert c (do { k \<leftarrow> get_size c (mem s) chunk; Some (\<not> is_allocated k) });
       next \<leftarrow> get_next_in_list c (mem s) chunk;
       prev \<leftarrow> get_prev_in_list c (mem s) chunk;
       paranoid_assert c (Some (next \<noteq> chunk));
       paranoid_assert c (Some (prev \<noteq> chunk));
       paranoid_assert c (Some (\<not> Pointer_is_null prev));
       m \<leftarrow> set_next_in_list c (mem s) prev next;
       m \<leftarrow> (if \<not> Pointer_is_null next then set_prev_in_list c m next prev else Some m);
       Some (s\<lparr>mem := m\<rparr>)
     }
   }"

text \<open>The result is the size to record as the previous chunk's size in the chunk that follows.\<close>

definition register_free_space ::
    "build \<Rightarrow> 'e machine \<Rightarrow> Pointer \<Rightarrow> Size \<Rightarrow> Size \<Rightarrow> (Size \<times> 'e machine) option" where
  "register_free_space c s chunk prev n =
     (if Size_is_empty n then Some (prev, s)
      else do {
        paranoid_check_access c s chunk SIZEOF_FreeChunkHeader;
        let bin = size_to_bin_round_down n;
        next \<leftarrow> get_unchecked (first_in_free_list s) (BitIndex_index bin);
        firsts \<leftarrow> set_unchecked (first_in_free_list s) (BitIndex_index bin) chunk;
        m \<leftarrow> write_free_chunk_header c (mem s) chunk
          \<lparr>prev_chunk_size = prev, chunk_size = new_unallocated n, next_in_list = next, prev_in_list = NULL\<rparr>;
        m \<leftarrow> (if \<not> Pointer_is_null next then set_prev_in_list c m next chunk else Some m);
        mask \<leftarrow> BitMask_set (free_lists_with_unallocated_memory s) bin;
        Some (n, s\<lparr>first_in_free_list := firsts, mem := m, free_lists_with_unallocated_memory := mask\<rparr>)
      })"

definition register_allocation ::
    "build \<Rightarrow> 'e machine \<Rightarrow> Pointer \<Rightarrow> Size \<Rightarrow> Size \<Rightarrow> 'e machine option" where
  "register_allocation c s chunk prev n = do {
     paranoid_check_access c s chunk SIZEOF_ChunkHeader;
     m \<leftarrow> write_chunk_header c (mem s) chunk \<lparr>prev_chunk_size = prev, chunk_size = new_allocated n\<rparr>;
     Some (s\<lparr>mem := m\<rparr>)
   }"

section \<open>Bins of sizes\<close>

definition bin_of :: "nat \<Rightarrow> nat" where
  "bin_of n = bin_down 7 (min n (2 ^ 25))"

lemma bin_of_range: "bin_of n < 2432"
  by (simp add: bin_of_def bin_down_range_7)

lemma size_to_bin_round_down_eq: "size_to_bin_round_down n = bi (bin_of (units n))"
proof -
  have "units (if raw_units n > raw_units MAX_ALLOCATION_SIZE then MAX_ALLOCATION_SIZE else n) = min (units n) (2 ^ 25)"
    unfolding raw_units_gt_iff by simp
  then show ?thesis
    by (simp add: size_to_bin_round_down_def Let_def BitMask_index_bi unat_to_bin_index bin_of_def)
qed

section \<open>Doubly linked segments\<close>

text \<open>
  \<open>dseg m b q p xs q' r\<close>: starting at pointer \<open>p\<close> with predecessor \<open>q\<close>, the chunks at the offsets
  \<open>xs\<close> are linked both ways, and the walk leaves at pointer \<open>r\<close> with predecessor \<open>q'\<close>.
\<close>

fun dseg :: "memory \<Rightarrow> u64 \<Rightarrow> Pointer \<Rightarrow> Pointer \<Rightarrow> nat list \<Rightarrow> Pointer \<Rightarrow> Pointer \<Rightarrow> bool" where
  "dseg m b q p [] q' r \<longleftrightarrow> q' = q \<and> r = p"
| "dseg m b q p (x # xs) q' r \<longleftrightarrow>
     p = gptr b x \<and> hback m b x = Some q \<and> (\<exists>p'. hnext m b x = Some p' \<and> dseg m b (gptr b x) p' xs q' r)"

lemma dseg_append:
  "dseg m b q p (xs @ ys) q' r \<longleftrightarrow> (\<exists>q\<^sub>1 p\<^sub>1. dseg m b q p xs q\<^sub>1 p\<^sub>1 \<and> dseg m b q\<^sub>1 p\<^sub>1 ys q' r)"
  by (induction xs arbitrary: q p) auto

lemma dseg_cong:
  "(\<And>x. x \<in> set xs \<Longrightarrow> hnext m' b x = hnext m b x \<and> hback m' b x = hback m b x) \<Longrightarrow>
   dseg m' b q p xs q' r = dseg m b q p xs q' r"
  by (induction xs arbitrary: q p) auto

lemma dseg_relink_start:
  assumes "dseg m b q p (y # ys) q' r" "hback m' b y = Some q\<^sub>2" "y \<notin> set ys"
    and "\<And>x. x \<in> set (y # ys) \<Longrightarrow> hnext m' b x = hnext m b x"
    and "\<And>x. x \<in> set ys \<Longrightarrow> hback m' b x = hback m b x"
  shows "dseg m' b q\<^sub>2 p (y # ys) q' r"
proof -
  obtain p' where "hnext m b y = Some p'" "dseg m b (gptr b y) p' ys q' r" "p = gptr b y"
    using assms(1) by auto
  then show ?thesis using assms(2,4,5) dseg_cong [of ys m' b m] by simp
qed

lemma dseg_relink_end:
  assumes "dseg m b q p (xs @ [z]) q' r" "hnext m' b z = Some r'" "z \<notin> set xs"
    and "\<And>x. x \<in> set xs \<Longrightarrow> hnext m' b x = hnext m b x"
    and "\<And>x. x \<in> set (xs @ [z]) \<Longrightarrow> hback m' b x = hback m b x"
  shows "dseg m' b q p (xs @ [z]) q' r'"
  using assms dseg_cong [of xs m' b m] by (auto simp: dseg_append)

section \<open>The free lists of a state\<close>

definition members :: "(nat \<rightharpoonup> nat) \<Rightarrow> nat \<Rightarrow> nat set" where
  "members F i = {x. \<exists>n. F x = Some n \<and> bin_of n = i}"

definition lists_by :: "nat \<Rightarrow> (nat \<rightharpoonup> nat) \<Rightarrow> (nat \<Rightarrow> nat list) \<Rightarrow> 'e machine \<Rightarrow> bool" where
  "lists_by T F L s \<longleftrightarrow>
     (let b = base_address s; m = mem s in
      region_ok b T \<and> units (allocated_space s) \<le> T \<and> mapped_until m b (units (allocated_space s)) \<and>
      length (first_in_free_list s) = 2432 \<and>
      mask_inv (free_lists_with_unallocated_memory s) \<and>
      mask_bits (free_lists_with_unallocated_memory s) = {i. i < 2432 \<and> L i \<noteq> []} \<and>
      (\<forall>i < 2432. distinct (L i) \<and> set (L i) = members F i \<and>
        (\<exists>q. dseg m b NULL (first_in_free_list s ! i) (L i) q NULL)) \<and>
      (\<forall>x n. F x = Some n \<longrightarrow>
        0 < n \<and> n < 2 ^ 27 \<and> x < units (allocated_space s) \<and> hsize m b x = Some (packed n False)))"

definition lists_ok :: "nat \<Rightarrow> (nat \<rightharpoonup> nat) \<Rightarrow> 'e machine \<Rightarrow> bool" where
  "lists_ok T F s \<longleftrightarrow> (\<exists>L. lists_by T F L s)"

text \<open>What the list operations keep.\<close>

definition same_env :: "'e machine \<Rightarrow> 'e machine \<Rightarrow> bool" where
  "same_env s s' \<longleftrightarrow>
     allocated_space s' = allocated_space s \<and> base_address s' = base_address s \<and> env s' = env s"

lemma same_env_refl [simp]: "same_env s s"
  by (simp add: same_env_def)

lemma same_env_trans: "same_env s s' \<Longrightarrow> same_env s' s'' \<Longrightarrow> same_env s s''"
  by (simp add: same_env_def)

lemma paranoid_check_access_ok:
  assumes "region_ok (base_address s) T" "units (allocated_space s) \<le> T" "x < units (allocated_space s)" "unat n \<le> 32"
  shows "paranoid_check_access c s (gptr (base_address s) x) n = Some ()"
proof -
  have A: "units (allocated_space s) < 2 ^ 27" "x \<le> T" using assms by (auto simp: region_ok_def)
  then have "unat (of_nat (32 * x) :: u64) = 32 * x" using assms(3) by (simp add: unat_of_nat del: of_nat_mult)
  then have "unat (of_nat (32 * x) + n :: u64) = 32 * x + unat n"
    using A assms(3,4) by (subst unat_add_small) simp_all
  moreover have "unat (ucast (bytes (allocated_space s)) :: u64) = 32 * units (allocated_space s)"
    using A(1) by (simp add: unat_ucast_up unat_bytes_small)
  ultimately have "of_nat (32 * x) + n \<le> (ucast (bytes (allocated_space s)) :: u64)"
    unfolding word_le_nat_alt using assms(3,4) by linarith
  then show ?thesis
    using gptr_not_null [OF assms(1) A(2)] by (simp add: paranoid_check_access_def gaddr_def)
qed

lemma lists_byD:
  assumes "lists_by T F L s"
  shows "region_ok (base_address s) T" "units (allocated_space s) \<le> T"
    "mapped_until (mem s) (base_address s) (units (allocated_space s))"
    "length (first_in_free_list s) = 2432" "mask_inv (free_lists_with_unallocated_memory s)"
    "mask_bits (free_lists_with_unallocated_memory s) = {i. i < 2432 \<and> L i \<noteq> []}"
  using assms by (simp_all add: lists_by_def Let_def)

lemma lists_by_list:
  assumes "lists_by T F L s" "i < 2432"
  shows "distinct (L i)" "set (L i) = members F i"
    "\<exists>q. dseg (mem s) (base_address s) NULL (first_in_free_list s ! i) (L i) q NULL"
  using assms by (simp_all add: lists_by_def Let_def)

lemma lists_by_chunk:
  assumes "lists_by T F L s" "F x = Some n"
  shows "0 < n" "n < 2 ^ 27" "x < units (allocated_space s)" "x < T"
    "hsize (mem s) (base_address s) x = Some (packed n False)"
    "unit_mapped (mem s) (base_address s) x"
proof -
  show "0 < n" "n < 2 ^ 27" "hsize (mem s) (base_address s) x = Some (packed n False)"
    and x: "x < units (allocated_space s)"
    using assms unfolding lists_by_def Let_def by blast+
  show "x < T" using x lists_byD(2) [OF assms(1)] by simp
  show "unit_mapped (mem s) (base_address s) x"
    using lists_byD(3) [OF assms(1)] x by (rule mapped_until_unit)
qed

lemma lists_by_update:
  assumes l: "lists_by T F L s" and i: "i < 2432" and e: "same_env s s'" and d: "dom (mem s') = dom (mem s)"
    and f: "first_in_free_list s' = (first_in_free_list s)[i := p]"
    and k: "mask_inv (free_lists_with_unallocated_memory s')"
      "mask_bits (free_lists_with_unallocated_memory s') = {j. j < 2432 \<and> (L(i := ys)) j \<noteq> []}"
    and o: "\<And>j x. j \<noteq> i \<Longrightarrow> j < 2432 \<Longrightarrow> x \<in> members F j \<Longrightarrow>
      hnext (mem s') (base_address s) x = hnext (mem s) (base_address s) x \<and>
      hback (mem s') (base_address s) x = hback (mem s) (base_address s) x"
    and y: "distinct ys" "set ys = members F' i" "dseg (mem s') (base_address s) NULL p ys q NULL"
    and m: "\<And>j. j \<noteq> i \<Longrightarrow> members F' j = members F j"
    and h: "\<And>x n. F' x = Some n \<Longrightarrow> 0 < n \<and> n < 2 ^ 27 \<and> x < units (allocated_space s) \<and>
      hsize (mem s') (base_address s) x = Some (packed n False)"
  shows "lists_by T F' (L(i := ys)) s'"
proof -
  have "distinct ((L(i := ys)) j) \<and> set ((L(i := ys)) j) = members F' j \<and>
      (\<exists>q. dseg (mem s') (base_address s) NULL (first_in_free_list s' ! j) ((L(i := ys)) j) q NULL)"
    if j: "j < 2432" for j
  proof (cases "j = i")
    case True
    then show ?thesis using y i f lists_byD(4) [OF l] by auto
  next
    case False
    have "dseg (mem s') (base_address s) NULL (first_in_free_list s ! j) (L j) q NULL =
        dseg (mem s) (base_address s) NULL (first_in_free_list s ! j) (L j) q NULL" for q
      using o [OF False j] lists_by_list(2) [OF l j] by (intro dseg_cong) blast
    then show ?thesis using False lists_by_list [OF l j] m [OF False] f by simp
  qed
  moreover have "mapped_until (mem s') (base_address s) (units (allocated_space s))"
    using lists_byD(3) [OF l] mapped_until_dom [OF d] by blast
  ultimately show ?thesis
    using lists_byD [OF l] e f k h unfolding lists_by_def Let_def same_env_def by simp
qed

lemma first_of_list:
  assumes "lists_by T F L s" "i < 2432" "L i = y # ys"
  shows "first_in_free_list s ! i = gptr (base_address s) y"
    "hback (mem s) (base_address s) y = Some NULL"
    "\<exists>p' q. hnext (mem s) (base_address s) y = Some p' \<and>
       dseg (mem s) (base_address s) (gptr (base_address s) y) p' ys q NULL"
  using lists_by_list(3) [OF assms(1,2)] assms(3) by auto

lemma members_remove:
  "F x = Some n \<Longrightarrow> members (F(x := None)) i = (if i = bin_of n then members F i - {x} else members F i)"
  by (auto simp: members_def)

lemma members_insert:
  "F x = None \<Longrightarrow> members (F(x \<mapsto> n)) i = (if i = bin_of n then insert x (members F i) else members F i)"
  by (auto simp: members_def)

lemma members_disjoint: "x \<in> members F i \<Longrightarrow> x \<in> members F j \<Longrightarrow> i = j"
  by (auto simp: members_def)

lemma member_chunk:
  assumes "lists_by T F L s" "x \<in> members F i"
  shows "x < T" "unit_mapped (mem s) (base_address s) x" "x \<in> dom F"
  using assms(2) lists_by_chunk [OF assms(1)] by (auto simp: members_def)

section \<open>Taking a chunk out\<close>

definition heads_kept :: "u64 \<Rightarrow> nat \<Rightarrow> memory \<Rightarrow> memory \<Rightarrow> bool" where
  "heads_kept b T m m' \<longleftrightarrow> (\<forall>k < T. hprev m' b k = hprev m b k \<and> hsize m' b k = hsize m b k)"

definition removed :: "nat \<Rightarrow> (nat \<rightharpoonup> nat) \<Rightarrow> nat \<Rightarrow> 'e machine \<Rightarrow> 'e machine \<Rightarrow> bool" where
  "removed T F x s s' \<longleftrightarrow> lists_ok T (F(x := None)) s' \<and> same_env s s' \<and>
     framed (base_address s) (dom F) (mem s) (mem s') \<and> heads_kept (base_address s) T (mem s) (mem s')"

lemma removedI:
  assumes l: "lists_by T F L s" and x: "F x = Some n" and e: "same_env s s'"
    and fr: "framed (base_address s) (dom F) (mem s) (mem s')"
    and hk: "heads_kept (base_address s) T (mem s) (mem s')"
    and f: "first_in_free_list s' = (first_in_free_list s)[bin_of n := p]"
    and k: "mask_inv (free_lists_with_unallocated_memory s')"
      "mask_bits (free_lists_with_unallocated_memory s') = {j. j < 2432 \<and> (L(bin_of n := ys)) j \<noteq> []}"
    and o: "\<And>j y. j \<noteq> bin_of n \<Longrightarrow> y \<in> members F j \<Longrightarrow>
      hnext (mem s') (base_address s) y = hnext (mem s) (base_address s) y \<and>
      hback (mem s') (base_address s) y = hback (mem s) (base_address s) y"
    and y: "distinct ys" "set ys = set (L (bin_of n)) - {x}"
      "dseg (mem s') (base_address s) NULL p ys q NULL"
  shows "removed T F x s s'"
proof -
  have "lists_by T (F(x := None)) (L(bin_of n := ys)) s'"
    using l bin_of_range e
  proof (rule lists_by_update [OF _ _ _ _ f k])
    show "dom (mem s') = dom (mem s)" using fr by (simp add: framed_def)
    show "set ys = members (F(x := None)) (bin_of n)"
      using y(2) lists_by_list(2) [OF l bin_of_range] by (simp add: members_remove [where F = F and x = x, OF x])
    fix z k assume "(F(x := None)) z = Some k"
    then have z: "F z = Some k" by (simp split: if_splits)
    show "0 < k \<and> k < 2 ^ 27 \<and> z < units (allocated_space s) \<and>
        hsize (mem s') (base_address s) z = Some (packed k False)"
      using lists_by_chunk [OF l z] hk by (simp add: heads_kept_def)
  qed (use o y members_remove [where F = F and x = x, OF x] in auto)
  then show ?thesis using e fr hk unfolding removed_def lists_ok_def by blast
qed

lemma unregister_first_ok:
  assumes l: "lists_by T F L s" and x: "F x = Some n" and L: "L (bin_of n) = x # ys"
  shows "\<exists>s'. unregister_free_space_first_chunk c s (gptr (base_address s) x) (bi (bin_of n)) = Some s' \<and>
    removed T F x s s'"
proof -
  let ?b = "base_address s" and ?i = "bin_of n"
  note b = lists_byD(1) [OF l]
  have xT: "x < T" "x \<le> T" and xA: "x < units (allocated_space s)" using lists_by_chunk [OF l x] by simp_all
  obtain p' q where p': "hnext (mem s) ?b x = Some p'" "dseg (mem s) ?b (gptr ?b x) p' ys q NULL"
    using first_of_list [OF l bin_of_range L] by auto
  have acc: "paranoid_check_access c s (gptr ?b x) SIZEOF_FreeChunkHeader = Some ()"
    using paranoid_check_access_ok [OF b lists_byD(2) [OF l] xA] by (simp add: SIZEOF_FreeChunkHeader_def)
  have d: "x \<notin> set ys" "distinct ys" using lists_by_list(1) [OF l bin_of_range [of n]] L by simp_all
  have ne: "p' \<noteq> gptr ?b x"
  proof (cases ys)
    case Nil
    then show ?thesis using p'(2) gptr_neq_NULL [OF b xT(2)] by auto
  next
    case (Cons z zs)
    have "z \<in> members F ?i" using lists_by_list(2) [OF l bin_of_range [of n]] L Cons by auto
    then have "z < T" by (rule member_chunk(1) [OF l])
    then show ?thesis using p'(2) Cons d(1) gptr_inject [OF b _ xT(2), of z] by auto
  qed
  have len: "bin_of n < length (first_in_free_list s)" using lists_byD(4) [OF l] bin_of_range by simp
  note run = unregister_free_space_first_chunk_def acc gets_gptr [OF b xT(2)] p'(1) ne len
    first_of_list [OF l bin_of_range L] lists_by_chunk(2,5) [OF l x]
  show ?thesis
  proof (cases ys)
    case Nil
    then have p'N: "p' = NULL" using p'(2) by simp
    obtain k' where k': "BitMask_unset (free_lists_with_unallocated_memory s) (bi ?i) = Some k'" "mask_inv k'"
      "mask_bits k' = mask_bits (free_lists_with_unallocated_memory s) - {?i}"
      using BitMask_unset_ok lists_byD(5) [OF l] bin_of_range [of n] by blast
    let ?s = "s\<lparr>first_in_free_list := (first_in_free_list s)[?i := NULL], free_lists_with_unallocated_memory := k'\<rparr>"
    have "unregister_free_space_first_chunk c s (gptr ?b x) (bi ?i) = Some ?s"
      using ne by (simp add: run p'N k' bin_of_range)
    moreover have "removed T F x s ?s"
      using l x by (rule removedI [where p = NULL and ys = "[]"])
        (use k' L d lists_byD(6) [OF l] Nil in \<open>auto simp: same_env_def heads_kept_def\<close>)
    ultimately show ?thesis by blast
  next
    case (Cons z zs)
    have z: "z \<in> members F ?i" using lists_by_list(2) [OF l bin_of_range [of n]] L Cons by auto
    have p'z: "p' = gptr ?b z" using p'(2) Cons by simp
    have inT: "y < T" if "y = z \<or> y \<in> set zs" for y
      using that lists_by_list(2) [OF l bin_of_range [of n]] L Cons member_chunk(1) [OF l] by auto
    obtain m' where m': "set_prev_in_list c (mem s) (gptr ?b z) NULL = Some m'" "framed ?b {z} (mem s) m'"
      "\<And>k. k < T \<Longrightarrow> hprev m' ?b k = hprev (mem s) ?b k" "\<And>k. k < T \<Longrightarrow> hsize m' ?b k = hsize (mem s) ?b k"
      "\<And>k. k < T \<Longrightarrow> hnext m' ?b k = hnext (mem s) ?b k"
      "\<And>k. k < T \<Longrightarrow> hback m' ?b k = (if k = z then Some NULL else hback (mem s) ?b k)"
      using set_prev_in_list_ok [OF b member_chunk(1,2) [OF l z]] by metis
    let ?s = "s\<lparr>first_in_free_list := (first_in_free_list s)[?i := gptr ?b z], mem := m'\<rparr>"
    have "\<not> Pointer_is_null (gptr ?b z)"
      using gptr_not_null [OF b less_imp_le [OF member_chunk(1) [OF l z]]] .
    then have "unregister_free_space_first_chunk c s (gptr ?b x) (bi ?i) = Some ?s"
      using ne by (simp add: run p'z m' bin_of_range)
    moreover have "removed T F x s ?s"
      using l x
    proof (rule removedI [where p = "gptr ?b z" and ys = ys])
      show "framed (base_address s) (dom F) (mem s) (mem ?s)"
        using m'(2) member_chunk(3) [OF l z] by (auto elim: framed_mono)
      have "dseg m' ?b NULL (gptr ?b z) (z # zs) q NULL"
        by (rule dseg_relink_start [where m = "mem s" and q = "gptr ?b x"])
          (use p'(2) m'(5,6) d Cons inT in \<open>simp_all add: p'z\<close>, auto)
      then show "dseg (mem ?s) ?b NULL (gptr ?b z) ys q NULL" using Cons by simp
      fix j y assume "j \<noteq> ?i" "y \<in> members F j"
      then have "y < T" "y \<noteq> z" using member_chunk(1) [OF l] z members_disjoint by blast+
      then show "hnext (mem ?s) ?b y = hnext (mem s) ?b y \<and> hback (mem ?s) ?b y = hback (mem s) ?b y"
        using m' by simp
    qed (use lists_byD [OF l] m' L d Cons in \<open>auto simp: same_env_def heads_kept_def\<close>)
    ultimately show ?thesis by blast
  qed
qed

text \<open>Bridging the gap that a chunk in the middle of its list leaves.\<close>

lemma dseg_bridge:
  assumes seg: "dseg m b NULL p (ws @ [w]) (gptr b w) (gptr b x)" "dseg m b (gptr b x) r ys q NULL"
    and m1: "hnext m' b w = Some r" "\<And>k. k \<in> set ws \<union> set ys \<Longrightarrow> hnext m' b k = hnext m b k"
    and m2: "\<And>k. k \<in> set (ws @ [w]) \<Longrightarrow> hback m' b k = hback m b k"
      "\<And>k. k \<in> set (tl ys) \<Longrightarrow> hback m' b k = hback m b k" "ys \<noteq> [] \<Longrightarrow> hback m' b (hd ys) = Some (gptr b w)"
    and d: "distinct (ws @ [w])" "distinct ys"
  shows "\<exists>q'. dseg m' b NULL p ((ws @ [w]) @ ys) q' NULL"
proof -
  have 1: "dseg m' b NULL p (ws @ [w]) (gptr b w) r"
    by (rule dseg_relink_end [OF seg(1) m1(1)]) (use m1(2) m2(1) d in auto)
  have "\<exists>q'. dseg m' b (gptr b w) r ys q' NULL"
  proof (cases ys)
    case Nil
    then show ?thesis using seg(2) by auto
  next
    case (Cons y zs)
    have "dseg m' b (gptr b w) r (y # zs) q NULL"
      by (rule dseg_relink_start [OF seg(2) [unfolded Cons]]) (use m1(2) m2 d Cons in auto)
    then show ?thesis using Cons by blast
  qed
  then show ?thesis using 1 unfolding dseg_append by blast
qed

lemma set_next_prev_ok:
  assumes b: "region_ok b T" and w: "w < T" "unit_mapped m b w"
    and y: "\<And>y. y \<in> set (take 1 ys) \<Longrightarrow> y < T \<and> unit_mapped m b y"
    and r: "r = (case ys of [] \<Rightarrow> NULL | y # _ \<Rightarrow> gptr b y)"
  shows "\<exists>m'. do { m \<leftarrow> set_next_in_list c m (gptr b w) r;
      if \<not> Pointer_is_null r then set_prev_in_list c m r (gptr b w) else Some m } = Some m' \<and>
    framed b (insert w (set (take 1 ys))) m m' \<and> heads_kept b T m m' \<and>
    (\<forall>k < T. hnext m' b k = (if k = w then Some r else hnext m b k)) \<and>
    (\<forall>k < T. hback m' b k = (if k \<in> set (take 1 ys) then Some (gptr b w) else hback m b k))"
proof -
  obtain m1 where m1: "set_next_in_list c m (gptr b w) r = Some m1" "framed b {w} m m1"
      "\<And>k. k < T \<Longrightarrow> hprev m1 b k = hprev m b k" "\<And>k. k < T \<Longrightarrow> hsize m1 b k = hsize m b k"
      "\<And>k. k < T \<Longrightarrow> hnext m1 b k = (if k = w then Some r else hnext m b k)"
      "\<And>k. k < T \<Longrightarrow> hback m1 b k = hback m b k"
    using set_next_in_list_ok [OF b w] by metis
  show ?thesis
  proof (cases ys)
    case Nil
    then show ?thesis using m1 r by (auto simp: heads_kept_def)
  next
    case (Cons y zs)
    then have y: "y < T" "unit_mapped m1 b y" using y framed_mapped [OF m1(2)] by auto
    obtain m2 where m2: "set_prev_in_list c m1 (gptr b y) (gptr b w) = Some m2" "framed b {y} m1 m2"
        "\<And>k. k < T \<Longrightarrow> hprev m2 b k = hprev m1 b k" "\<And>k. k < T \<Longrightarrow> hsize m2 b k = hsize m1 b k"
        "\<And>k. k < T \<Longrightarrow> hnext m2 b k = hnext m1 b k"
        "\<And>k. k < T \<Longrightarrow> hback m2 b k = (if k = y then Some (gptr b w) else hback m1 b k)"
      using set_prev_in_list_ok [OF b y] by metis
    have "framed b {w, y} m m2" using framed_trans [OF m1(2) m2(2)] by (simp add: insert_commute)
    then show ?thesis
      using m1 m2 r Cons gptr_not_null [OF b less_imp_le [OF y(1)]]
      by (auto simp: heads_kept_def)
  qed
qed

lemma unregister_middle_ok:
  assumes l: "lists_by T F L s" and x: "F x = Some n" and L: "L (bin_of n) = (ws @ [w]) @ x # ys"
  shows "\<exists>s'. unregister_free_space c s (gptr (base_address s) x) (bi (bin_of n)) = Some s' \<and>
    removed T F x s s'"
proof -
  let ?b = "base_address s" and ?i = "bin_of n" and ?p = "first_in_free_list s ! bin_of n"
  note b = lists_byD(1) [OF l]
  have xT: "x < T" "x \<le> T" and xA: "x < units (allocated_space s)" using lists_by_chunk [OF l x] by simp_all
  obtain q where "dseg (mem s) ?b NULL ?p (ws @ [w]) (gptr ?b w) (gptr ?b x)"
      and at: "hback (mem s) ?b x = Some (gptr ?b w)"
    and r: "\<exists>r. hnext (mem s) ?b x = Some r \<and> dseg (mem s) ?b (gptr ?b x) r ys q NULL"
    using lists_by_list(3) [OF l bin_of_range [of n]] unfolding L dseg_append by auto
  then obtain r where seg: "dseg (mem s) ?b NULL ?p (ws @ [w]) (gptr ?b w) (gptr ?b x)"
    "dseg (mem s) ?b (gptr ?b x) r ys q NULL" and next_eq: "hnext (mem s) ?b x = Some r" by blast
  have d: "distinct ws" "w \<notin> set ws" "x \<notin> set ws" "x \<noteq> w" "x \<notin> set ys" "w \<notin> set ys" "set ws \<inter> set ys = {}"
      "distinct ys"
    using lists_by_list(1) [OF l bin_of_range [of n]] unfolding L by auto
  have mem: "y \<in> members F ?i" if "y \<in> set ws \<union> {w} \<union> set ys" for y
    using that lists_by_list(2) [OF l bin_of_range [of n]] unfolding L by auto
  note inT = member_chunk [OF l mem]
  have re: "r = (case ys of [] \<Rightarrow> NULL | y # _ \<Rightarrow> gptr ?b y)"
    using seg(2) by (cases ys) simp_all
  have ne: "?p \<noteq> gptr ?b x" "r \<noteq> gptr ?b x" "gptr ?b w \<noteq> gptr ?b x" "\<not> Pointer_is_null (gptr ?b w)"
  proof -
    have g: "gptr ?b y \<noteq> gptr ?b x" if "y \<in> set ws \<union> {w} \<union> set ys" for y
      using gptr_inject [OF b less_imp_le [OF inT(1) [OF that]] xT(2)] that d by auto
    show "?p \<noteq> gptr ?b x" using seg(1) g by (cases ws) auto
    show "r \<noteq> gptr ?b x" using g gptr_neq_NULL [OF b xT(2)] unfolding re by (cases ys) auto
    show "gptr ?b w \<noteq> gptr ?b x" using g by simp
    show "\<not> Pointer_is_null (gptr ?b w)" using gptr_not_null [OF b less_imp_le [OF inT(1)]] by simp
  qed
  have acc: "paranoid_check_access c s (gptr ?b x) SIZEOF_FreeChunkHeader = Some ()"
    using paranoid_check_access_ok [OF b lists_byD(2) [OF l] xA] by (simp add: SIZEOF_FreeChunkHeader_def)
  have len: "?i < length (first_in_free_list s)" using lists_byD(4) [OF l] bin_of_range by simp
  have t1: "y \<in> set ys" if "y \<in> set (take 1 ys)" for y using that by (meson in_set_takeD)
  obtain m' where m': "do { m \<leftarrow> set_next_in_list c (mem s) (gptr ?b w) r;
      if \<not> Pointer_is_null r then set_prev_in_list c m r (gptr ?b w) else Some m } = Some m'"
    "framed ?b (insert w (set (take 1 ys))) (mem s) m'" "heads_kept ?b T (mem s) m'"
    "\<And>k. k < T \<Longrightarrow> hnext m' ?b k = (if k = w then Some r else hnext (mem s) ?b k)"
    "\<And>k. k < T \<Longrightarrow> hback m' ?b k = (if k \<in> set (take 1 ys) then Some (gptr ?b w) else hback (mem s) ?b k)"
    using set_next_prev_ok [OF b inT(1,2) _ re, of w c] t1 inT by auto
  have run: "unregister_free_space c s (gptr ?b x) (bi ?i) = Some (s\<lparr>mem := m'\<rparr>)"
    using m'(1) ne len lists_by_chunk(2,5) [OF l x] next_eq at
    by (simp add: unregister_free_space_def acc gets_gptr [OF b xT(2)] bin_of_range
        flip: bind_assoc)
  have "\<exists>q'. dseg m' ?b NULL ?p ((ws @ [w]) @ ys) q' NULL"
  proof (rule dseg_bridge [OF seg])
    fix k assume "k \<in> set (tl ys)"
    then show "hback m' ?b k = hback (mem s) ?b k"
      using m'(5) inT(1) [of k] d(8) by (cases ys) auto
  next
    fix k assume "k \<in> set (ws @ [w])"
    then have "k < T" "k \<notin> set ys" using inT(1) d by auto
    then show "hback m' ?b k = hback (mem s) ?b k" using m'(5) t1 by auto
  next
    assume "ys \<noteq> []"
    then show "hback m' ?b (hd ys) = Some (gptr ?b w)" using m'(5) inT(1) by (cases ys) auto
  next
    fix k assume "k \<in> set ws \<union> set ys"
    then have "k < T" "k \<noteq> w" using inT(1) d by auto
    then show "hnext m' ?b k = hnext (mem s) ?b k" using m'(4) by simp
  qed (use m'(4) inT(1) d in auto)
  then obtain q' where q': "dseg m' ?b NULL ?p ((ws @ [w]) @ ys) q' NULL" by blast
  have nonempty: "(L(?i := (ws @ [w]) @ ys)) j \<noteq> [] \<longleftrightarrow> L j \<noteq> []" for j
    by (cases "j = ?i") (simp_all add: L)
  have "removed T F x s (s\<lparr>mem := m'\<rparr>)"
    using l x
  proof (rule removedI [where p = ?p and ys = "(ws @ [w]) @ ys" and q = q'])
    show "framed ?b (dom F) (mem s) (mem (s\<lparr>mem := m'\<rparr>))"
      using m'(2) inT(3) t1 by (auto elim!: framed_mono)
    fix j y assume "j \<noteq> ?i" and y: "y \<in> members F j"
    then have "y \<notin> members F ?i" using members_disjoint by blast
    then have "y < T" "y \<noteq> w" "y \<notin> set (take 1 ys)"
      using member_chunk(1) [OF l y] mem t1 [of y] by auto
    then show "hnext (mem (s\<lparr>mem := m'\<rparr>)) ?b y = hnext (mem s) ?b y \<and>
        hback (mem (s\<lparr>mem := m'\<rparr>)) ?b y = hback (mem s) ?b y"
      using m'(4,5) by simp
  next
    show "mask_bits (free_lists_with_unallocated_memory (s\<lparr>mem := m'\<rparr>)) =
        {j. j < 2432 \<and> (L(?i := (ws @ [w]) @ ys)) j \<noteq> []}"
      unfolding nonempty using lists_byD(6) [OF l] by simp
  next
    show "distinct ((ws @ [w]) @ ys)" "set ((ws @ [w]) @ ys) = set (L ?i) - {x}"
      using d unfolding L by auto
  qed (use lists_byD(5) [OF l] m'(3) q' in \<open>simp_all add: same_env_def\<close>)
  then show ?thesis using run by blast
qed

theorem unregister_free_space_ok:
  assumes "lists_ok T F s" "F x = Some n"
  shows "\<exists>s'. unregister_free_space c s (gptr (base_address s) x) (bi (bin_of n)) = Some s' \<and>
    removed T F x s s'"
proof -
  obtain L where l: "lists_by T F L s" using assms(1) unfolding lists_ok_def by blast
  have "x \<in> set (L (bin_of n))"
    using lists_by_list(2) [OF l bin_of_range] assms(2) by (simp add: members_def)
  then obtain xs ys where L: "L (bin_of n) = xs @ x # ys" by (meson split_list)
  show ?thesis
  proof (cases xs rule: rev_cases)
    case Nil
    then have L: "L (bin_of n) = x # ys" using L by simp
    have "paranoid_check_access c s (gptr (base_address s) x) SIZEOF_FreeChunkHeader = Some ()"
      using paranoid_check_access_ok [OF lists_byD(1,2) [OF l] lists_by_chunk(3) [OF l assms(2)]]
      by (simp add: SIZEOF_FreeChunkHeader_def)
    then show ?thesis
      using unregister_first_ok [OF l assms(2) L] lists_byD(4) [OF l] bin_of_range [of n]
        first_of_list(1) [OF l bin_of_range L]
      by (simp add: unregister_free_space_def)
  next
    case (snoc ws w)
    then show ?thesis using unregister_middle_ok [OF l assms(2)] L by simp
  qed
qed

section \<open>Putting a chunk in\<close>

text \<open>The four header fields of a free chunk written at once.\<close>

lemma write_free_chunk_header_ok:
  assumes b: "region_ok b T" and x: "x < T" "unit_mapped m b x"
  shows "\<exists>m'. write_free_chunk_header c m (gptr b x)
      \<lparr>prev_chunk_size = v, chunk_size = k, next_in_list = r, prev_in_list = q\<rparr> = Some m' \<and>
    framed b {x} m m' \<and>
    (\<forall>y < T. hprev m' b y = (if y = x then Some v else hprev m b y)) \<and>
    (\<forall>y < T. hsize m' b y = (if y = x then Some k else hsize m b y)) \<and>
    (\<forall>y < T. hnext m' b y = (if y = x then Some r else hnext m b y)) \<and>
    (\<forall>y < T. hback m' b y = (if y = x then Some q else hback m b y))"
proof -
  obtain m1 where m1: "set_prev_chunk_size c m (gptr b x) v = Some m1" "framed b {x} m m1"
      "\<And>y. y < T \<Longrightarrow> hprev m1 b y = (if y = x then Some v else hprev m b y)"
      "\<And>y. y < T \<Longrightarrow> hsize m1 b y = hsize m b y" "\<And>y. y < T \<Longrightarrow> hnext m1 b y = hnext m b y"
      "\<And>y. y < T \<Longrightarrow> hback m1 b y = hback m b y"
    using set_prev_chunk_size_ok [OF b x] by metis
  have x1: "unit_mapped m1 b x" using x framed_mapped [OF m1(2)] by simp
  obtain m2 where m2: "set_size c m1 (gptr b x) k = Some m2" "framed b {x} m1 m2"
      "\<And>y. y < T \<Longrightarrow> hprev m2 b y = hprev m1 b y"
      "\<And>y. y < T \<Longrightarrow> hsize m2 b y = (if y = x then Some k else hsize m1 b y)"
      "\<And>y. y < T \<Longrightarrow> hnext m2 b y = hnext m1 b y" "\<And>y. y < T \<Longrightarrow> hback m2 b y = hback m1 b y"
    using set_size_ok [OF b x(1) x1] by metis
  have x2: "unit_mapped m2 b x" using x1 framed_mapped [OF m2(2)] by simp
  obtain m3 where m3: "set_next_in_list c m2 (gptr b x) r = Some m3" "framed b {x} m2 m3"
      "\<And>y. y < T \<Longrightarrow> hprev m3 b y = hprev m2 b y" "\<And>y. y < T \<Longrightarrow> hsize m3 b y = hsize m2 b y"
      "\<And>y. y < T \<Longrightarrow> hnext m3 b y = (if y = x then Some r else hnext m2 b y)"
      "\<And>y. y < T \<Longrightarrow> hback m3 b y = hback m2 b y"
    using set_next_in_list_ok [OF b x(1) x2] by metis
  have x3: "unit_mapped m3 b x" using x2 framed_mapped [OF m3(2)] by simp
  obtain m4 where m4: "set_prev_in_list c m3 (gptr b x) q = Some m4" "framed b {x} m3 m4"
      "\<And>y. y < T \<Longrightarrow> hprev m4 b y = hprev m3 b y" "\<And>y. y < T \<Longrightarrow> hsize m4 b y = hsize m3 b y"
      "\<And>y. y < T \<Longrightarrow> hnext m4 b y = hnext m3 b y"
      "\<And>y. y < T \<Longrightarrow> hback m4 b y = (if y = x then Some q else hback m3 b y)"
    using set_prev_in_list_ok [OF b x(1) x3] by metis
  have "framed b {x} m m4"
    using framed_trans [OF framed_trans [OF framed_trans [OF m1(2) m2(2)] m3(2)] m4(2)] by simp
  then show ?thesis
    using m1 m2 m3 m4 by (simp add: write_free_chunk_header_eq)
qed

lemma write_chunk_header_ok:
  assumes b: "region_ok b T" and x: "x < T" "unit_mapped m b x"
  shows "\<exists>m'. write_chunk_header c m (gptr b x) \<lparr>prev_chunk_size = v, chunk_size = k\<rparr> = Some m' \<and>
    framed b {x} m m' \<and>
    (\<forall>y < T. hprev m' b y = (if y = x then Some v else hprev m b y)) \<and>
    (\<forall>y < T. hsize m' b y = (if y = x then Some k else hsize m b y)) \<and>
    (\<forall>y < T. hnext m' b y = hnext m b y) \<and> (\<forall>y < T. hback m' b y = hback m b y)"
proof -
  obtain m1 where m1: "set_prev_chunk_size c m (gptr b x) v = Some m1" "framed b {x} m m1"
      "\<And>y. y < T \<Longrightarrow> hprev m1 b y = (if y = x then Some v else hprev m b y)"
      "\<And>y. y < T \<Longrightarrow> hsize m1 b y = hsize m b y" "\<And>y. y < T \<Longrightarrow> hnext m1 b y = hnext m b y"
      "\<And>y. y < T \<Longrightarrow> hback m1 b y = hback m b y"
    using set_prev_chunk_size_ok [OF b x] by metis
  have x1: "unit_mapped m1 b x" using x framed_mapped [OF m1(2)] by simp
  obtain m2 where m2: "set_size c m1 (gptr b x) k = Some m2" "framed b {x} m1 m2"
      "\<And>y. y < T \<Longrightarrow> hprev m2 b y = hprev m1 b y"
      "\<And>y. y < T \<Longrightarrow> hsize m2 b y = (if y = x then Some k else hsize m1 b y)"
      "\<And>y. y < T \<Longrightarrow> hnext m2 b y = hnext m1 b y" "\<And>y. y < T \<Longrightarrow> hback m2 b y = hback m1 b y"
    using set_size_ok [OF b x(1) x1] by metis
  have "framed b {x} m m2" using framed_trans [OF m1(2) m2(2)] by simp
  then show ?thesis using m1 m2 by (simp add: write_chunk_header_eq)
qed

text \<open>What registering the chunk \<open>x\<close> of size \<open>n\<close> does.\<close>

definition added :: "nat \<Rightarrow> (nat \<rightharpoonup> nat) \<Rightarrow> nat \<Rightarrow> Size \<Rightarrow> nat \<Rightarrow> 'e machine \<Rightarrow> 'e machine \<Rightarrow> bool" where
  "added T F x v n s s' \<longleftrightarrow> lists_ok T (F(x \<mapsto> n)) s' \<and> same_env s s' \<and>
     framed (base_address s) (insert x (dom F)) (mem s) (mem s') \<and>
     (\<forall>y < T. hprev (mem s') (base_address s) y = (if y = x then Some v else hprev (mem s) (base_address s) y)) \<and>
     (\<forall>y < T. hsize (mem s') (base_address s) y =
       (if y = x then Some (packed n False) else hsize (mem s) (base_address s) y))"

theorem register_free_space_ok:
  assumes ok: "lists_ok T F s" and x: "F x = None" "x < units (allocated_space s)" and n: "0 < n" "n < 2 ^ 27"
  shows "\<exists>s'. register_free_space c s (gptr (base_address s) x) v (sz n) = Some (sz n, s') \<and> added T F x v n s s'"
proof -
  obtain L where l: "lists_by T F L s" using ok unfolding lists_ok_def by blast
  let ?b = "base_address s" and ?i = "bin_of n" and ?p = "first_in_free_list s ! bin_of n"
  note b = lists_byD(1) [OF l]
  have xT: "x < T" "x \<le> T" "unit_mapped (mem s) ?b x"
    using x(2) lists_byD(2) [OF l] mapped_until_unit [OF lists_byD(3) [OF l] x(2)] by simp_all
  have x_in: "x \<notin> members F j" for j using x(1) by (simp add: members_def)
  have set_L: "set (L ?i) = members F ?i" using lists_by_list(2) [OF l bin_of_range] .
  have acc: "paranoid_check_access c s (gptr ?b x) SIZEOF_FreeChunkHeader = Some ()"
    using paranoid_check_access_ok [OF b lists_byD(2) [OF l] x(2)] by (simp add: SIZEOF_FreeChunkHeader_def)
  have len: "?i < length (first_in_free_list s)" using lists_byD(4) [OF l] bin_of_range by simp
  obtain q where q: "dseg (mem s) ?b NULL ?p (L ?i) q NULL"
    using lists_by_list(3) [OF l bin_of_range] by blast
  obtain m1 where m1: "write_free_chunk_header c (mem s) (gptr ?b x)
      \<lparr>prev_chunk_size = v, chunk_size = packed n False, next_in_list = ?p, prev_in_list = NULL\<rparr> = Some m1"
    "framed ?b {x} (mem s) m1"
    "\<And>y. y < T \<Longrightarrow> hprev m1 ?b y = (if y = x then Some v else hprev (mem s) ?b y)"
    "\<And>y. y < T \<Longrightarrow> hsize m1 ?b y = (if y = x then Some (packed n False) else hsize (mem s) ?b y)"
    "\<And>y. y < T \<Longrightarrow> hnext m1 ?b y = (if y = x then Some ?p else hnext (mem s) ?b y)"
    "\<And>y. y < T \<Longrightarrow> hback m1 ?b y = (if y = x then Some NULL else hback (mem s) ?b y)"
    using write_free_chunk_header_ok [OF b xT(1,3), where c = c and v = v and k = "packed n False"
        and r = ?p and q = NULL] by blast
  have "\<exists>m2. (if \<not> Pointer_is_null ?p then set_prev_in_list c m1 ?p (gptr ?b x) else Some m1) = Some m2 \<and>
      framed ?b (set (take 1 (L ?i))) m1 m2 \<and> heads_kept ?b T m1 m2 \<and>
      (\<forall>y < T. hnext m2 ?b y = hnext m1 ?b y) \<and>
      (\<forall>y < T. hback m2 ?b y = (if y \<in> set (take 1 (L ?i)) then Some (gptr ?b x) else hback m1 ?b y))"
  proof (cases "L ?i")
    case Nil
    then show ?thesis using q by (simp add: heads_kept_def)
  next
    case (Cons y ys)
    then have "y \<in> members F ?i" using set_L by auto
    note y = member_chunk [OF l this]
    have y1: "unit_mapped m1 ?b y" using y(2) framed_mapped [OF m1(2)] by simp
    have "?p = gptr ?b y" using q Cons by simp
    moreover obtain m2 where "set_prev_in_list c m1 (gptr ?b y) (gptr ?b x) = Some m2" "framed ?b {y} m1 m2"
      "\<And>z. z < T \<Longrightarrow> hprev m2 ?b z = hprev m1 ?b z" "\<And>z. z < T \<Longrightarrow> hsize m2 ?b z = hsize m1 ?b z"
      "\<And>z. z < T \<Longrightarrow> hnext m2 ?b z = hnext m1 ?b z"
      "\<And>z. z < T \<Longrightarrow> hback m2 ?b z = (if z = y then Some (gptr ?b x) else hback m1 ?b z)"
      using set_prev_in_list_ok [OF b y(1) y1] by metis
    ultimately show ?thesis
      using Cons gptr_not_null [OF b less_imp_le [OF y(1)]] by (simp add: heads_kept_def)
  qed
  then obtain m2 where m2: "(if \<not> Pointer_is_null ?p then set_prev_in_list c m1 ?p (gptr ?b x) else Some m1) = Some m2"
    "framed ?b (set (take 1 (L ?i))) m1 m2" "heads_kept ?b T m1 m2" "\<And>y. y < T \<Longrightarrow> hnext m2 ?b y = hnext m1 ?b y"
    "\<And>y. y < T \<Longrightarrow> hback m2 ?b y = (if y \<in> set (take 1 (L ?i)) then Some (gptr ?b x) else hback m1 ?b y)"
    by blast
  obtain k where k: "BitMask_set (free_lists_with_unallocated_memory s) (bi ?i) = Some k" "mask_inv k"
      "mask_bits k = insert ?i (mask_bits (free_lists_with_unallocated_memory s))"
    using BitMask_set_ok lists_byD(5) [OF l] bin_of_range [of n] by blast
  let ?s = "s\<lparr>first_in_free_list := (first_in_free_list s)[?i := gptr ?b x], mem := m2,
    free_lists_with_unallocated_memory := k\<rparr>"
  have "units (sz n) = n" using n(2) by simp
  then have run: "register_free_space c s (gptr ?b x) v (sz n) = Some (sz n, ?s)"
    using m1(1) m2(1) k(1) len n(1)
    by (simp add: register_free_space_def acc size_to_bin_round_down_eq bin_of_range new_unallocated_sz)
  have t1: "y \<in> members F ?i" if "y \<in> set (take 1 (L ?i))" for y
    using in_set_takeD [OF that] set_L by simp
  have fr: "framed ?b (insert x (dom F)) (mem s) m2"
  proof (rule framed_mono [OF framed_trans [OF m1(2) m2(2)]])
    show "{x} \<union> set (take 1 (L ?i)) \<subseteq> insert x (dom F)" using member_chunk(3) [OF l t1] by auto
  qed
  have links: "hnext m2 ?b y = hnext (mem s) ?b y"
    "y \<notin> set (take 1 (L ?i)) \<Longrightarrow> hback m2 ?b y = hback (mem s) ?b y" if "y \<in> members F j" for y j
    using that member_chunk(1) [OF l that] x_in m1(5,6) m2(4,5) by auto
  have seg: "\<exists>q. dseg m2 ?b (gptr ?b x) ?p (L ?i) q NULL"
  proof (cases "L ?i")
    case Nil
    then show ?thesis using q by simp
  next
    case (Cons y ys)
    have "y \<in> members F ?i" "set ys \<subseteq> members F ?i" "distinct (y # ys)"
      using set_L Cons lists_by_list(1) [OF l bin_of_range [of n]] by auto
    then have "dseg m2 ?b (gptr ?b x) ?p (y # ys) q NULL"
      using dseg_relink_start [OF q [unfolded Cons], of m2 "gptr ?b x"] links [of _ ?i] m2(5) [of y]
        member_chunk(1) [OF l, of y] Cons by auto
    then show ?thesis using Cons by auto
  qed
  have xt1: "x \<notin> set (take 1 (L ?i))" using t1 x_in by blast
  obtain q' where seg: "dseg m2 ?b NULL (gptr ?b x) (x # L ?i) q' NULL"
    using seg m1(5,6) m2(4,5) xT(1) xt1 by auto
  have heads: "hprev m2 ?b y = (if y = x then Some v else hprev (mem s) ?b y)"
    "hsize m2 ?b y = (if y = x then Some (packed n False) else hsize (mem s) ?b y)" if "y < T" for y
    using that m1(3,4) m2(3) unfolding heads_kept_def by auto
  have nonempty: "(L(?i := x # L ?i)) j \<noteq> [] \<longleftrightarrow> j = ?i \<or> L j \<noteq> []" for j by simp
  have "lists_by T (F(x \<mapsto> n)) (L(?i := x # L ?i)) ?s"
    using l bin_of_range
  proof (rule lists_by_update [where q = q'])
    show "mask_bits (free_lists_with_unallocated_memory ?s) = {j. j < 2432 \<and> (L(?i := x # L ?i)) j \<noteq> []}"
      unfolding nonempty using k(3) lists_byD(6) [OF l] bin_of_range [of n] by auto
    show "distinct (x # L ?i)" using lists_by_list(1) [OF l bin_of_range [of n]] set_L x_in by simp
    show "set (x # L ?i) = members (F(x \<mapsto> n)) ?i"
      using set_L members_insert [where F = F and x = x, OF x(1)] by simp
  next
    fix j y assume "j \<noteq> ?i" and y: "y \<in> members F j"
    then have "y \<notin> set (take 1 (L ?i))" using members_disjoint t1 by blast
    then show "hnext (mem ?s) ?b y = hnext (mem s) ?b y \<and> hback (mem ?s) ?b y = hback (mem s) ?b y"
      using links [OF y] by simp
  next
    fix y k assume "(F(x \<mapsto> n)) y = Some k"
    then show "0 < k \<and> k < 2 ^ 27 \<and> y < units (allocated_space s) \<and>
        hsize (mem ?s) (base_address s) y = Some (packed k False)"
      using lists_by_chunk [OF l, of y k] n x(2) heads(2) xT(1) by (cases "y = x") auto
  qed (use fr k(2) seg members_insert [where F = F and x = x, OF x(1)] in \<open>simp_all add: same_env_def framed_def\<close>)
  then have "added T F x v n s ?s"
    using fr heads unfolding added_def lists_ok_def by (auto simp: same_env_def)
  then show ?thesis using run by blast
qed

end
