(* ===== verification/Layouts.thy ===== *)
theory Layouts
  imports Free_Lists
begin

text \<open>
  The address space as a sequence of chunks. A layout lists the sizes of the chunks from the base
  on, each with its allocated bit; \<open>frees\<close> are the free chunks by offset, \<open>starts\<close> the offsets of
  all chunks, and \<open>heads\<close> says that the headers in memory spell out the layout. \<open>heap_ok\<close> is the
  invariant of an initialised allocator.
\<close>

section \<open>Layouts\<close>

type_synonym layout = "(nat \<times> bool) list"

definition extent :: "layout \<Rightarrow> nat" where
  "extent ks = sum_list (map fst ks)"

lemma extent_simps [simp]:
  "extent [] = 0" "extent (k # ks) = fst k + extent ks" "extent (us @ vs) = extent us + extent vs"
  by (simp_all add: extent_def)

fun frees :: "nat \<Rightarrow> layout \<Rightarrow> nat \<rightharpoonup> nat" where
  "frees x [] = Map.empty"
| "frees x ((n, a) # ks) = (if a then frees (x + n) ks else (frees (x + n) ks)(x \<mapsto> n))"

fun starts :: "nat \<Rightarrow> layout \<Rightarrow> nat set" where
  "starts x [] = {}"
| "starts x ((n, a) # ks) = insert x (starts (x + n) ks)"

definition sizes_pos :: "layout \<Rightarrow> bool" where
  "sizes_pos ks \<longleftrightarrow> (\<forall>k \<in> set ks. 0 < fst k)"

text \<open>No two neighbours are both free.\<close>

definition coalesced :: "layout \<Rightarrow> bool" where
  "coalesced ks \<longleftrightarrow> successively (\<lambda>j k. snd j \<or> snd k) ks"

lemma coalesced_simps [simp]:
  "coalesced []" "coalesced [k]" "coalesced (j # k # ks) \<longleftrightarrow> (snd j \<or> snd k) \<and> coalesced (k # ks)"
  by (simp_all add: coalesced_def)

lemma coalesced_append:
  "coalesced (us @ vs) \<longleftrightarrow> coalesced us \<and> coalesced vs \<and> (us = [] \<or> vs = [] \<or> snd (last us) \<or> snd (hd vs))"
  by (auto simp: coalesced_def successively_append_iff)

lemma coalesced_Cons: "coalesced (k # ks) \<longleftrightarrow> coalesced ks \<and> (ks = [] \<or> snd k \<or> snd (hd ks))"
  by (cases ks) auto

lemma sizes_pos_simps [simp]:
  "sizes_pos []" "sizes_pos (k # ks) \<longleftrightarrow> 0 < fst k \<and> sizes_pos ks"
  "sizes_pos (us @ vs) \<longleftrightarrow> sizes_pos us \<and> sizes_pos vs"
  by (auto simp: sizes_pos_def)

lemma starts_append: "starts x (us @ vs) = starts x us \<union> starts (x + extent us) vs"
  by (induction us arbitrary: x) (auto simp: add.assoc)

lemma starts_range: "sizes_pos ks \<Longrightarrow> y \<in> starts x ks \<Longrightarrow> x \<le> y \<and> y < x + extent ks"
  by (induction x ks rule: starts.induct) fastforce+

lemma frees_append: "frees x (us @ vs) = frees (x + extent us) vs ++ frees x us"
proof (induction us arbitrary: x)
  case (Cons k us)
  then show ?case
    by (cases k) (auto simp: add.assoc [symmetric] map_add_def fun_eq_iff split: option.splits)
qed simp

lemma dom_frees: "dom (frees x ks) \<subseteq> starts x ks"
  by (induction x ks rule: frees.induct) auto

lemma frees_range: "sizes_pos ks \<Longrightarrow> frees x ks y = Some n \<Longrightarrow> x \<le> y \<and> y < x + extent ks"
  using dom_frees [of x ks] starts_range [of ks y x] by blast

lemma frees_outside: "sizes_pos ks \<Longrightarrow> y < x \<or> x + extent ks \<le> y \<Longrightarrow> frees x ks y = None"
  using frees_range [of ks x y] by (cases "frees x ks y") auto

lemma starts_outside: "sizes_pos ks \<Longrightarrow> y < x \<or> x + extent ks \<le> y \<Longrightarrow> y \<notin> starts x ks"
  using starts_range [of ks y x] by auto

text \<open>A free chunk of a layout splits it.\<close>

lemma frees_split:
  "frees x ks y = Some n \<Longrightarrow> sizes_pos ks \<Longrightarrow> \<exists>us vs. ks = us @ (n, False) # vs \<and> y = x + extent us"
proof (induction x ks rule: frees.induct)
  case (2 x k a ks)
  show ?case
  proof (cases "\<not> a \<and> y = x")
    case True
    with 2 have "n = k" by simp
    then show ?thesis using True by (intro exI [of _ "[]"] exI [of _ ks]) simp
  next
    case False
    then obtain us vs where "ks = us @ (n, False) # vs" "y = x + k + extent us"
      using 2 by (auto split: if_splits)
    then show ?thesis by (intro exI [of _ "(k, a) # us"] exI [of _ vs]) simp
  qed
qed simp

text \<open>
  The free chunks of a layout around a gap: what is free on both sides of the offsets from
  \<open>extent us\<close> to \<open>z\<close>, where \<open>vs\<close> starts.
\<close>

definition frees_around :: "layout \<Rightarrow> nat \<Rightarrow> layout \<Rightarrow> nat \<rightharpoonup> nat" where
  "frees_around us z vs = frees z vs ++ frees 0 us"

lemma frees_around_mid:
  "sizes_pos us \<Longrightarrow> sizes_pos vs \<Longrightarrow> extent us \<le> y \<Longrightarrow> y < z \<Longrightarrow> frees_around us z vs y = None"
  by (simp add: frees_around_def map_add_def frees_outside)

lemma map_add_upd_left_outside: "h y = None \<Longrightarrow> (f(y \<mapsto> n)) ++ h = (f ++ h)(y \<mapsto> n)"
  by (auto simp: map_add_def split: option.splits)

lemma frees_mid:
  assumes "sizes_pos us" "sizes_pos vs" "sizes_pos ms"
  shows "frees 0 (us @ ms @ vs) = frees_around us (extent us + extent ms) vs ++ frees (extent us) ms"
proof
  fix y
  show "frees 0 (us @ ms @ vs) y = (frees_around us (extent us + extent ms) vs ++ frees (extent us) ms) y"
    using frees_outside [OF assms(1), of y 0] frees_outside [OF assms(3), of y "extent us"]
      frees_outside [OF assms(2), of y "extent us + extent ms"]
    by (cases "y < extent us"; cases "y < extent us + extent ms")
      (auto simp: frees_append frees_around_def map_add_def split: option.splits)
qed

lemma frees_mid_1:
  assumes "sizes_pos us" "sizes_pos vs" "0 < n"
  shows "frees 0 (us @ (n, False) # vs) = (frees_around us (extent us + n) vs)(extent us \<mapsto> n)"
    "frees 0 (us @ (n, True) # vs) = frees_around us (extent us + n) vs"
  using frees_mid [of us vs "[(n, False)]"] frees_mid [of us vs "[(n, True)]"] assms by simp_all

section \<open>Headers in memory\<close>

fun heads :: "memory \<Rightarrow> u64 \<Rightarrow> nat \<Rightarrow> nat \<Rightarrow> nat \<Rightarrow> layout \<Rightarrow> bool" where
  "heads m b A x p [] \<longleftrightarrow> True"
| "heads m b A x p ((n, a) # ks) \<longleftrightarrow>
     0 < n \<and> x < A \<and> (a \<longrightarrow> x + n \<le> A) \<and> hprev m b x = Some (sz p) \<and> hsize m b x = Some (packed n a) \<and>
     heads m b A (x + n) n ks"

definition last_size :: "nat \<Rightarrow> layout \<Rightarrow> nat" where
  "last_size p us = (if us = [] then p else fst (last us))"

lemma last_size_simps [simp]: "last_size p [] = p" "last_size p (us @ [k]) = fst k"
  "last_size p (k # us) = last_size (fst k) us"
  by (simp_all add: last_size_def)

lemma last_size_append [simp]: "last_size p (us @ vs) = last_size (last_size p us) vs"
  by (induction us arbitrary: p) simp_all

lemma heads_append:
  "heads m b A x p (us @ vs) \<longleftrightarrow> heads m b A x p us \<and> heads m b A (x + extent us) (last_size p us) vs"
  by (induction us arbitrary: x p) (auto simp: add.assoc)

lemma heads_sizes_pos: "heads m b A x p ks \<Longrightarrow> sizes_pos ks"
  by (induction ks arbitrary: x p) auto

lemma heads_cong:
  assumes "\<And>y. x \<le> y \<Longrightarrow> y < x + extent ks \<Longrightarrow> hprev m' b y = hprev m b y \<and> hsize m' b y = hsize m b y"
    and "heads m b A x p ks" "A \<le> A'"
  shows "heads m' b A' x p ks"
  using assms by (induction m b A x p ks rule: heads.induct) auto

lemma heads_start: "heads m b A x p ks \<Longrightarrow> y \<in> starts x ks \<Longrightarrow> y < A"
  by (induction m b A x p ks rule: heads.induct) auto

section \<open>The invariant\<close>

definition heap_inv :: "nat \<Rightarrow> 'e machine \<Rightarrow> layout \<Rightarrow> bool" where
  "heap_inv T s ks \<longleftrightarrow>
     extent ks = T \<and> coalesced ks \<and> lists_ok T (frees 0 ks) s \<and>
     heads (mem s) (base_address s) (units (allocated_space s)) 0 0 ks"

definition heap_ok :: "('e \<Rightarrow> memory \<Rightarrow> u64 \<Rightarrow> bool) \<Rightarrow> nat \<Rightarrow> 'e machine \<Rightarrow> layout \<Rightarrow> bool" where
  "heap_ok env_ok T s ks \<longleftrightarrow> heap_inv T s ks \<and> env_ok (env s) (mem s) (base_address s)"

lemma lists_okD:
  assumes "lists_ok T F s"
  shows "region_ok (base_address s) T" "units (allocated_space s) \<le> T"
    "mapped_until (mem s) (base_address s) (units (allocated_space s))"
  using assms lists_byD unfolding lists_ok_def by blast+

lemma heap_invD:
  assumes "heap_inv T s ks"
  shows "region_ok (base_address s) T" "units (allocated_space s) \<le> T"
    "mapped_until (mem s) (base_address s) (units (allocated_space s))"
    "extent ks = T" "sizes_pos ks" "coalesced ks" "lists_ok T (frees 0 ks) s" "T < 2 ^ 27"
    "heads (mem s) (base_address s) (units (allocated_space s)) 0 0 ks"
proof -
  show "lists_ok T (frees 0 ks) s" and h: "heads (mem s) (base_address s) (units (allocated_space s)) 0 0 ks"
    and "extent ks = T" "coalesced ks"
    using assms by (simp_all add: heap_inv_def)
  note l = lists_okD [OF \<open>lists_ok T (frees 0 ks) s\<close>]
  show "region_ok (base_address s) T" "units (allocated_space s) \<le> T"
    "mapped_until (mem s) (base_address s) (units (allocated_space s))" by (rule l)+
  show "T < 2 ^ 27" using l(1) by (simp add: region_ok_def)
  show "sizes_pos ks" by (rule heads_sizes_pos [OF h])
qed

text \<open>What is known of one chunk, and of the chunk that follows it.\<close>

lemma heap_inv_at:
  assumes "heap_inv T s (us @ (n, a) # vs)"
  shows "0 < n" "extent us < units (allocated_space s)" "extent us + n \<le> T" "n < 2 ^ 27"
    "a \<Longrightarrow> extent us + n \<le> units (allocated_space s)"
    "hprev (mem s) (base_address s) (extent us) = Some (sz (last_size 0 us))"
    "hsize (mem s) (base_address s) (extent us) = Some (packed n a)"
    "extent us + n = T \<longleftrightarrow> vs = []"
proof -
  note h = heap_invD [OF assms]
  show "0 < n" "extent us < units (allocated_space s)" "a \<Longrightarrow> extent us + n \<le> units (allocated_space s)"
    "hprev (mem s) (base_address s) (extent us) = Some (sz (last_size 0 us))"
    "hsize (mem s) (base_address s) (extent us) = Some (packed n a)"
    using h(9) unfolding heads_append by simp_all
  show "extent us + n \<le> T" using h(4) by simp
  then show "n < 2 ^ 27" using h(8) by simp
  have "extent vs = 0 \<longleftrightarrow> vs = []" using h(5) by (cases vs) auto
  then show "extent us + n = T \<longleftrightarrow> vs = []" using h(4) by auto
qed

end
