(* ===== verification/Allocators.thy ===== *)
theory Allocators
  imports Layouts
begin

text \<open>
  The operations of \<^verbatim>\<open>impl Allocator\<close> in \<^verbatim>\<open>src/allocator.rs\<close>, over any environment \<open>ops\<close>. An
  operation takes the build configuration and the state and returns the new state, and
  \<^const>\<open>None\<close> when the program panics, aborts or accesses unmapped memory. A Rust \<^verbatim>\<open>Option\<close> in the
  result is an option inside it. Blocks that several functions repeat are definitions of their own:
  \<open>ensure_space\<close>, \<open>absorb_next\<close> and \<open>record_prev\<close>.
\<close>

section \<open>Construction and destruction\<close>

definition Allocator_new :: "'e \<Rightarrow> memory \<Rightarrow> 'e machine" where
  "Allocator_new e m =
     \<lparr>allocated_space = the (from_bytes_usize 0), base_address = 0,
      free_lists_with_unallocated_memory = BitMask_new,
      first_in_free_list = replicate (unat (bin_count BIN_CONFIG)) NULL, env = e, mem = m\<rparr>"

definition Allocator_drop :: "'e env_ops \<Rightarrow> 'e machine \<Rightarrow> 'e machine option" where
  "Allocator_drop ops s = do {
     (e, m) \<leftarrow> free_address_space ops (env s) (mem s) (base_address s);
     Some (s\<lparr>env := e, mem := m\<rparr>)
   }"

section \<open>Checking a chunk\<close>

definition end_of_address_space :: "'e env_ops \<Rightarrow> 'e machine \<Rightarrow> Pointer" where
  "end_of_address_space ops s = Pointer_unchecked_add (Pointer (base_address s)) (total_space ops (env s))"

definition check_prev_chunk :: "build \<Rightarrow> 'e machine \<Rightarrow> Pointer \<Rightarrow> bool \<Rightarrow> unit option" where
  "check_prev_chunk c s chunk is_alloc = do {
     prev \<leftarrow> get_prev_chunk_size c (mem s) chunk;
     if Size_is_empty prev then paranoid_assert c (Some (chunk = Pointer (base_address s)))
     else do {
       let prev_chunk = Pointer_unchecked_sub chunk prev;
       paranoid_assert c (Some (prev_chunk \<ge> Pointer (base_address s)));
       paranoid_assert c (do { k \<leftarrow> get_size c (mem s) prev_chunk; Some (ChunkSize_size k = prev) });
       if \<not> is_alloc
       then paranoid_assert c (do { k \<leftarrow> get_size c (mem s) prev_chunk; Some (is_allocated k) })
       else Some ()
     }
   }"

definition check_next_chunk :: "'e env_ops \<Rightarrow> build \<Rightarrow> 'e machine \<Rightarrow> Pointer \<Rightarrow> bool \<Rightarrow> unit option" where
  "check_next_chunk ops c s chunk is_alloc = do {
     k \<leftarrow> get_size c (mem s) chunk;
     let n = ChunkSize_size k;
     let next_chunk = Pointer_unchecked_add chunk n;
     if next_chunk < end_of_address_space ops s
     then do {
       paranoid_assert c (do { p \<leftarrow> get_prev_chunk_size c (mem s) next_chunk; Some (p = n) });
       if \<not> is_alloc
       then paranoid_assert c (do { k \<leftarrow> get_size c (mem s) next_chunk; Some (is_allocated k) })
       else Some ()
     }
     else paranoid_assert c (Some (next_chunk = end_of_address_space ops s))
   }"

definition paranoid_check_chunk :: "'e env_ops \<Rightarrow> build \<Rightarrow> 'e machine \<Rightarrow> Pointer \<Rightarrow> unit option" where
  "paranoid_check_chunk ops c s chunk =
     (if \<not> paranoid c then Some ()
      else do {
        paranoid_assert c (Some (\<not> Pointer_is_null chunk));
        paranoid_assert c (Some (base_address s \<noteq> 0));
        paranoid_assert c (Some (chunk \<ge> Pointer (base_address s)));
        if chunk = end_of_address_space ops s then Some ()
        else do {
          paranoid_assert c (Some (address chunk < address (end_of_address_space ops s)));
          paranoid_assert c (Some (address chunk + SIZEOF_ChunkHeader \<le> address (end_of_address_space ops s)));
          paranoid_check_access c s chunk SIZEOF_ChunkHeader;
          k \<leftarrow> get_size c (mem s) chunk;
          check_prev_chunk c s chunk (is_allocated k);
          check_next_chunk ops c s chunk (is_allocated k)
        }
      })"

section \<open>Taking the address space\<close>

definition initialize_impl :: "'e env_ops \<Rightarrow> build \<Rightarrow> 'e machine \<Rightarrow> (bool \<times> 'e machine) option" where
  "initialize_impl ops c s = do {
     (base, e, m) \<leftarrow> allocate_address_space ops (env s) (mem s);
     let s = s\<lparr>env := e, mem := m\<rparr>;
     if base = 0 then Some (False, s)
     else do {
       paranoid_assert c (Some (base mod ucast ALLOCATION_GRANULARITY = 0));
       let chunk = Pointer base;
       paranoid_assert c (Some (base mod 8 = 0));
       (is_ok, e, m) \<leftarrow> expand_memory_until ops (env s) (mem s) base FREE_CHUNK_HEADER_SIZE;
       let s = s\<lparr>env := e, mem := m\<rparr>;
       if \<not> is_ok
       then do {
         (e, m) \<leftarrow> free_address_space ops (env s) (mem s) base;
         Some (False, s\<lparr>env := e, mem := m\<rparr>)
       }
       else do {
         let s = s\<lparr>base_address := base, allocated_space := FREE_CHUNK_HEADER_SIZE\<rparr>;
         paranoid_check_access c s chunk SIZEOF_FreeChunkHeader;
         let space = total_space ops (env s);
         let bin = size_to_bin_round_down space;
         mask \<leftarrow> BitMask_set (free_lists_with_unallocated_memory s) bin;
         m \<leftarrow> write_free_chunk_header c (mem s) chunk
           \<lparr>prev_chunk_size = Size 0, chunk_size = new_unallocated space, next_in_list = NULL, prev_in_list = NULL\<rparr>;
         firsts \<leftarrow> set_unchecked (first_in_free_list s) (BitIndex_index bin) chunk;
         let s = s\<lparr>free_lists_with_unallocated_memory := mask, mem := m, first_in_free_list := firsts\<rparr>;
         paranoid_check_chunk ops c s chunk;
         Some (True, s)
       }
     }
   }"

definition initialize :: "'e env_ops \<Rightarrow> build \<Rightarrow> 'e machine \<Rightarrow> (bool \<times> 'e machine) option" where
  "initialize ops c s = (if base_address s = 0 then initialize_impl ops c s else Some (True, s))"

section \<open>Shared blocks\<close>

text \<open>Growing the mapped part of the address space, in \<^verbatim>\<open>alloc_impl\<close> and \<^verbatim>\<open>grow_inplace\<close>.\<close>

definition ensure_space :: "'e env_ops \<Rightarrow> 'e machine \<Rightarrow> Size \<Rightarrow> (bool \<times> 'e machine) option" where
  "ensure_space ops s end_offset =
     (if allocated_space s < end_offset
      then do {
        (ok, e, m) \<leftarrow> expand_memory_until ops (env s) (mem s) (base_address s) end_offset;
        let s = s\<lparr>env := e, mem := m\<rparr>;
        if ok then Some (True, s\<lparr>allocated_space := end_offset\<rparr>) else Some (False, s)
      }
      else Some (True, s))"

text \<open>
  The chunk after a change learns the size of its new predecessor, unless the address space ends
  there.
\<close>

definition record_prev ::
    "'e env_ops \<Rightarrow> build \<Rightarrow> 'e machine \<Rightarrow> Pointer \<Rightarrow> u64 \<Rightarrow> Size \<Rightarrow> 'e machine option" where
  "record_prev ops c s chunk size_of v =
     (if chunk < end_of_address_space ops s
      then do {
        paranoid_check_access c s chunk size_of;
        m \<leftarrow> set_prev_chunk_size c (mem s) chunk v;
        Some (s\<lparr>mem := m\<rparr>)
      }
      else Some s)"

text \<open>A free chunk that follows is taken out of its list and its size added.\<close>

definition absorb_next ::
    "'e env_ops \<Rightarrow> build \<Rightarrow> 'e machine \<Rightarrow> Pointer \<Rightarrow> Size \<Rightarrow> (Size \<times> 'e machine) option" where
  "absorb_next ops c s next_chunk n =
     (if next_chunk < end_of_address_space ops s
      then do {
        paranoid_check_access c s next_chunk SIZEOF_ChunkHeader;
        k \<leftarrow> get_size c (mem s) next_chunk;
        if \<not> is_allocated k
        then do {
          let next_size = ChunkSize_size k;
          s \<leftarrow> unregister_free_space c s next_chunk (size_to_bin_round_down next_size);
          n \<leftarrow> Size_unchecked_add c n next_size;
          Some (n, s)
        }
        else Some (n, s)
      }
      else Some (n, s))"

section \<open>Allocating\<close>

text \<open>
  The second half of \<^verbatim>\<open>alloc_impl\<close>, once a chunk that is large enough has been found: carve the
  allocation out of it, and register what is left on both sides.
\<close>

definition alloc_in_chunk ::
    "'e env_ops \<Rightarrow> build \<Rightarrow> 'e machine \<Rightarrow> Pointer \<Rightarrow> Size \<Rightarrow> BitIndex \<Rightarrow> Size \<Rightarrow> Size \<Rightarrow> bool \<Rightarrow>
     (Pointer option \<times> 'e machine) option" where
  "alloc_in_chunk ops c s chunk size_of_chunk bin align requested_size is_calloc = do {
     chunk_offset \<leftarrow> from_pointer_and_base_unchecked c chunk (Pointer (base_address s));
     x \<leftarrow> add_chk c (raw_units chunk_offset) (raw_units HEADER_SIZE);
     d \<leftarrow> align_offset c x (raw_units align) (base_address s);
     let data_offset = Size d;
     header_offset \<leftarrow> Size_unchecked_sub c data_offset HEADER_SIZE;
     let allocation_chunk = Pointer_unchecked_add (Pointer (base_address s)) header_offset;
     paranoid_assert c (Some (header_offset \<ge> chunk_offset));
     free_space_lhs \<leftarrow> Size_unchecked_sub c header_offset chunk_offset;
     r \<leftarrow> Size_unchecked_sub c size_of_chunk requested_size;
     r \<leftarrow> Size_unchecked_sub c r free_space_lhs;
     free_space_rhs \<leftarrow> Size_unchecked_sub c r HEADER_SIZE;
     end_offset \<leftarrow> Size_unchecked_add c data_offset requested_size;
     end_offset \<leftarrow> (if \<not> Size_is_empty free_space_rhs
                   then Size_unchecked_add c end_offset FREE_CHUNK_HEADER_SIZE else Some end_offset);
     let zero_memory = (allocated_space s > data_offset \<and> is_calloc);
     (ok, s) \<leftarrow> ensure_space ops s end_offset;
     if \<not> ok then Some (None, s)
     else do {
       prev \<leftarrow> get_prev_chunk_size c (mem s) chunk;
       s \<leftarrow> unregister_free_space_first_chunk c s chunk bin;
       (prev, s) \<leftarrow> register_free_space c s chunk prev free_space_lhs;
       n \<leftarrow> Size_unchecked_add c requested_size HEADER_SIZE;
       s \<leftarrow> register_allocation c s allocation_chunk prev n;
       prev \<leftarrow> Size_unchecked_add c requested_size HEADER_SIZE;
       let next_chunk = Pointer_unchecked_add (Pointer_unchecked_add allocation_chunk HEADER_SIZE) requested_size;
       (prev, s) \<leftarrow> register_free_space c s next_chunk prev free_space_rhs;
       let final_chunk = Pointer_unchecked_add next_chunk free_space_rhs;
       s \<leftarrow> record_prev ops c s final_chunk SIZEOF_FreeChunkHeader prev;
       paranoid_check_chunk ops c s allocation_chunk;
       paranoid_check_chunk ops c s (Pointer_unchecked_sub allocation_chunk free_space_lhs);
       paranoid_check_chunk ops c s
         (Pointer_unchecked_add (Pointer_unchecked_add allocation_chunk HEADER_SIZE) requested_size);
       paranoid_assert c (do {
         k \<leftarrow> get_size c (mem s) allocation_chunk;
         n \<leftarrow> Size_unchecked_add c requested_size HEADER_SIZE;
         Some (ChunkSize_size k = n) });
       let data = Pointer_unchecked_add allocation_chunk HEADER_SIZE;
       paranoid_assert c (Some (address data mod ucast (bytes align) = 0));
       paranoid_check_chunk ops c s (Pointer_unchecked_sub data HEADER_SIZE);
       m \<leftarrow> (if zero_memory then write_bytes (mem s) (address data) 0 (unat (bytes requested_size)) else Some (mem s));
       Some (Some data, s\<lparr>mem := m\<rparr>)
     }
   }"

text \<open>
  The first half: reject what cannot be served, find a bin that is large enough from the rounded-up
  bin on, and failing that from the rounded-down bin on, and look at the first chunk of that bin.
\<close>

definition alloc_find_bin :: "'e machine \<Rightarrow> Size \<Rightarrow> BitIndex option option" where
  "alloc_find_bin s min_size = do {
     bin \<leftarrow> BitMask_find_first (free_lists_with_unallocated_memory s) (size_to_bin_round_up min_size);
     if bin = None
     then BitMask_find_first (free_lists_with_unallocated_memory s) (size_to_bin_round_down min_size)
     else Some bin
   }"

definition alloc_min_size :: "build \<Rightarrow> Size \<Rightarrow> Size \<Rightarrow> Size option option" where
  "alloc_min_size c align requested_size = do {
     a \<leftarrow> Size_unchecked_sub c align (Size 1);
     Some (Option.bind (Size_checked_add requested_size HEADER_SIZE) (\<lambda>n. Size_checked_add n a))
   }"

definition alloc_impl ::
    "'e env_ops \<Rightarrow> build \<Rightarrow> 'e machine \<Rightarrow> Size \<Rightarrow> Size \<Rightarrow> bool \<Rightarrow> (Pointer option \<times> 'e machine) option" where
  "alloc_impl ops c s align requested_size is_calloc =
     (if raw_units align = 0 \<or> \<not> is_power_of_two (raw_units align) then Some (None, s)
      else do {
        (ok, s) \<leftarrow> initialize ops c s;
        if \<not> ok then Some (None, s)
        else do {
          n \<leftarrow> alloc_min_size c align requested_size;
          case n of
            None \<Rightarrow> Some (None, s)
          | Some min_size \<Rightarrow>
              if raw_units min_size > raw_units MAX_ALLOCATION_SIZE then Some (None, s)
              else do {
                bin \<leftarrow> alloc_find_bin s min_size;
                case bin of
                  None \<Rightarrow> Some (None, s)
                | Some bin \<Rightarrow> do {
                    chunk \<leftarrow> get_unchecked (first_in_free_list s) (BitIndex_index bin);
                    paranoid_check_chunk ops c s chunk;
                    k \<leftarrow> get_size c (mem s) chunk;
                    paranoid_assert c (Some (\<not> is_allocated k));
                    let n = ChunkSize_size k;
                    paranoid_assert c (BitIndex_eq c (size_to_bin_round_down n) bin);
                    if n < min_size then Some (None, s)
                    else alloc_in_chunk ops c s chunk n bin align requested_size is_calloc
                  }
              }
        }
      })"

definition alloc :: "'e env_ops \<Rightarrow> build \<Rightarrow> 'e machine \<Rightarrow> Size \<Rightarrow> Size \<Rightarrow> (Pointer option \<times> 'e machine) option" where
  "alloc ops c s align requested_size = alloc_impl ops c s align requested_size False"

definition alloc_zeroed ::
    "'e env_ops \<Rightarrow> build \<Rightarrow> 'e machine \<Rightarrow> Size \<Rightarrow> Size \<Rightarrow> (Pointer option \<times> 'e machine) option" where
  "alloc_zeroed ops c s align requested_size = alloc_impl ops c s align requested_size True"

section \<open>Freeing\<close>

text \<open>
  \<open>free_merge_prev\<close> is the block of \<^verbatim>\<open>free\<close> that merges the chunk with a free predecessor; its
  result is the chunk, the size recorded for the chunk before it, and its size.
\<close>

definition free_merge_prev ::
    "build \<Rightarrow> 'e machine \<Rightarrow> Pointer \<Rightarrow> Size \<Rightarrow> Size \<Rightarrow> (Pointer \<times> Size \<times> Size \<times> 'e machine) option" where
  "free_merge_prev c s chunk prev n = do {
     offset \<leftarrow> from_pointer_and_base_unchecked c chunk (Pointer (base_address s));
     if \<not> Size_is_empty offset
     then do {
       let prev_chunk = Pointer_unchecked_sub chunk prev;
       paranoid_check_access c s prev_chunk SIZEOF_ChunkHeader;
       k \<leftarrow> get_size c (mem s) prev_chunk;
       paranoid_assert c (Some (ChunkSize_size k = prev));
       if \<not> is_allocated k
       then do {
         prev \<leftarrow> get_prev_chunk_size c (mem s) prev_chunk;
         let prev_size = ChunkSize_size k;
         s \<leftarrow> unregister_free_space c s prev_chunk (size_to_bin_round_down prev_size);
         n \<leftarrow> Size_unchecked_add c n prev_size;
         Some (Pointer_unchecked_sub chunk prev_size, prev, n, s)
       }
       else Some (chunk, prev, n, s)
     }
     else Some (chunk, prev, n, s)
   }"

definition free :: "'e env_ops \<Rightarrow> build \<Rightarrow> 'e machine \<Rightarrow> Pointer \<Rightarrow> 'e machine option" where
  "free ops c s pointer = do {
     paranoid_assert c (Some (base_address s \<noteq> 0));
     let chunk = Pointer_unchecked_sub pointer HEADER_SIZE;
     paranoid_check_chunk ops c s chunk;
     k \<leftarrow> get_size c (mem s) chunk;
     prev \<leftarrow> get_prev_chunk_size c (mem s) chunk;
     paranoid_assert c (Some (is_allocated k));
     (chunk, prev, n, s) \<leftarrow> free_merge_prev c s chunk prev (ChunkSize_size k);
     (n, s) \<leftarrow> absorb_next ops c s (Pointer_unchecked_add chunk n) n;
     (_, s) \<leftarrow> register_free_space c s chunk prev n;
     s \<leftarrow> record_prev ops c s (Pointer_unchecked_add chunk n) SIZEOF_FreeChunkHeader n;
     paranoid_check_chunk ops c s chunk;
     Some s
   }"

section \<open>Resizing\<close>

definition shrink_inplace :: "'e env_ops \<Rightarrow> build \<Rightarrow> 'e machine \<Rightarrow> Pointer \<Rightarrow> Size \<Rightarrow> 'e machine option" where
  "shrink_inplace ops c s pointer new_size =
     (if Size_is_empty new_size then free ops c s pointer
      else do {
        new_size \<leftarrow> Size_unchecked_add c new_size HEADER_SIZE;
        let chunk = Pointer_unchecked_sub pointer HEADER_SIZE;
        paranoid_check_chunk ops c s chunk;
        k \<leftarrow> get_size c (mem s) chunk;
        paranoid_assert c (Some (is_allocated k));
        let current_size = ChunkSize_size k;
        if new_size \<ge> current_size then Some s
        else do {
          free_space \<leftarrow> Size_unchecked_sub c current_size new_size;
          m \<leftarrow> set_size c (mem s) chunk (new_allocated new_size);
          let s = s\<lparr>mem := m\<rparr>;
          (free_space, s) \<leftarrow> absorb_next ops c s (Pointer_unchecked_add chunk current_size) free_space;
          let next_chunk = Pointer_unchecked_add chunk new_size;
          (_, s) \<leftarrow> register_free_space c s next_chunk new_size free_space;
          let final_chunk = Pointer_unchecked_add next_chunk free_space;
          s \<leftarrow> record_prev ops c s final_chunk SIZEOF_ChunkHeader free_space;
          paranoid_check_chunk ops c s chunk;
          paranoid_check_chunk ops c s next_chunk;
          paranoid_check_chunk ops c s final_chunk;
          Some s
        }
      })"

definition grow_inplace ::
    "'e env_ops \<Rightarrow> build \<Rightarrow> 'e machine \<Rightarrow> Pointer \<Rightarrow> Size \<Rightarrow> (Size option \<times> 'e machine) option" where
  "grow_inplace ops c s pointer new_size =
     (case Size_checked_add new_size HEADER_SIZE of
        None \<Rightarrow> Some (None, s)
      | Some new_size \<Rightarrow> do {
          let chunk = Pointer_unchecked_sub pointer HEADER_SIZE;
          paranoid_check_chunk ops c s chunk;
          k \<leftarrow> get_size c (mem s) chunk;
          paranoid_assert c (Some (is_allocated k));
          let current_size = ChunkSize_size k;
          if current_size \<ge> new_size
          then do {
            n \<leftarrow> Size_unchecked_sub c current_size HEADER_SIZE;
            Some (Some n, s)
          }
          else do {
            let old_next_chunk = Pointer_unchecked_add chunk current_size;
            if old_next_chunk \<ge> end_of_address_space ops s then Some (None, s)
            else do {
              paranoid_check_chunk ops c s old_next_chunk;
              k \<leftarrow> get_size c (mem s) old_next_chunk;
              if is_allocated k then Some (None, s)
              else do {
                let old_next_size = ChunkSize_size k;
                available_space \<leftarrow> Size_unchecked_add c current_size old_next_size;
                if available_space < new_size then Some (None, s)
                else do {
                  remaining_free_space \<leftarrow> Size_unchecked_sub c available_space new_size;
                  let new_next_chunk = Pointer_unchecked_add chunk new_size;
                  end_offset \<leftarrow> from_pointer_and_base_unchecked c new_next_chunk (Pointer (base_address s));
                  end_offset \<leftarrow> (if \<not> Size_is_empty remaining_free_space
                                then Size_unchecked_add c end_offset FREE_CHUNK_HEADER_SIZE else Some end_offset);
                  (ok, s) \<leftarrow> ensure_space ops s end_offset;
                  if \<not> ok then Some (None, s)
                  else do {
                    s \<leftarrow> unregister_free_space c s old_next_chunk (size_to_bin_round_down old_next_size);
                    m \<leftarrow> set_size c (mem s) chunk (new_allocated new_size);
                    let s = s\<lparr>mem := m\<rparr>;
                    (v, s) \<leftarrow> register_free_space c s new_next_chunk new_size remaining_free_space;
                    let final_chunk = Pointer_unchecked_add new_next_chunk remaining_free_space;
                    s \<leftarrow> record_prev ops c s final_chunk SIZEOF_ChunkHeader v;
                    paranoid_check_chunk ops c s chunk;
                    paranoid_check_chunk ops c s new_next_chunk;
                    paranoid_check_chunk ops c s final_chunk;
                    n \<leftarrow> Size_unchecked_sub c new_size HEADER_SIZE;
                    Some (Some n, s)
                  }
                }
              }
            }
          }
        })"

section \<open>Sizes of allocations, and reallocation\<close>

definition header_for_pointer :: "Pointer \<Rightarrow> Pointer" where
  "header_for_pointer pointer = Pointer (address pointer - ucast (bytes HEADER_SIZE))"

definition usable_size_impl :: "build \<Rightarrow> memory \<Rightarrow> Pointer \<Rightarrow> Size option" where
  "usable_size_impl c m pointer = do {
     w \<leftarrow> load_u32 m (address (header_for_pointer pointer) + 4);
     Size_unchecked_sub c (ChunkSize_size (ChunkSize w)) HEADER_SIZE
   }"

definition usable_size :: "build \<Rightarrow> memory \<Rightarrow> Pointer \<Rightarrow> usize option" where
  "usable_size c m pointer = map_option (\<lambda>n. ucast (bytes n)) (usable_size_impl c m pointer)"

definition realloc ::
    "'e env_ops \<Rightarrow> build \<Rightarrow> 'e machine \<Rightarrow> Pointer \<Rightarrow> Size \<Rightarrow> Size \<Rightarrow> (Pointer option \<times> 'e machine) option" where
  "realloc ops c s pointer align new_size = do {
     current_size \<leftarrow> usable_size_impl c (mem s) pointer;
     if new_size = current_size then Some (Some pointer, s)
     else if Size_is_empty new_size then do { s \<leftarrow> free ops c s pointer; Some (None, s) }
     else if realloc_inplace c \<and> new_size < current_size
     then do { s \<leftarrow> shrink_inplace ops c s pointer new_size; Some (Some pointer, s) }
     else do {
       (grown, s) \<leftarrow> (if realloc_inplace c
                      then do { (r, s) \<leftarrow> grow_inplace ops c s pointer new_size; Some (r \<noteq> None, s) }
                      else Some (False, s));
       if grown then Some (Some pointer, s)
       else do {
         (r, s) \<leftarrow> alloc ops c s align new_size;
         case r of
           None \<Rightarrow> Some (None, s)
         | Some new_pointer \<Rightarrow> do {
             m \<leftarrow> copy_nonoverlapping (mem s) (address pointer) (address new_pointer) (unat (bytes current_size));
             s \<leftarrow> free ops c (s\<lparr>mem := m\<rparr>) pointer;
             Some (Some new_pointer, s)
           }
       }
     }
   }"

end
