(* ===== verification/Chunk_Steps.thy ===== *)
theory Chunk_Steps
  imports Allocators
begin

text \<open>
  The steps that the operations share, each with its effect on the invariant: the paranoid checks
  pass on every chunk boundary of a layout, a predecessor size is recorded, a free neighbour is
  absorbed, a possibly empty chunk is registered, and the mapped part of the address space grows.
\<close>

section \<open>Pointers into the address space\<close>

lemma gptr_le_iff: "region_ok b T \<Longrightarrow> m \<le> T \<Longrightarrow> n \<le> T \<Longrightarrow> gptr b m \<le> gptr b n \<longleftrightarrow> m \<le> n"
  using gptr_less_iff [of b T n m] by (simp flip: not_less)

lemma base_gptr: "Pointer b = gptr b 0"
  by (simp add: gptr_0)

lemma end_of_address_space_eq:
  assumes "total_space ops (env s) = sz T" "T < 2 ^ 27"
  shows "end_of_address_space ops s = gptr (base_address s) T"
  using assms by (simp add: end_of_address_space_def base_gptr gptr_add)

text \<open>The pointer that a user of the chunk at offset \<open>x\<close> holds.\<close>

definition data_ptr :: "u64 \<Rightarrow> nat \<Rightarrow> Pointer" where
  "data_ptr b x = gptr b (Suc x)"

lemma header_of_data_ptr [simp]: "Pointer_unchecked_sub (data_ptr b x) HEADER_SIZE = gptr b x"
  by (simp add: data_ptr_def gptr_sub)

lemma header_of_data_ptr' [simp]: "Pointer_unchecked_sub (data_ptr b x) (sz (Suc 0)) = gptr b x"
  using header_of_data_ptr by simp

section \<open>The paranoid checks pass\<close>

lemma check_prev_chunk_ok:
  assumes h: "heap_inv T s (us @ (n, a) # vs)"
  shows "check_prev_chunk c s (gptr (base_address s) (extent us)) a = Some ()"
proof -
  let ?b = "base_address s"
  note i = heap_invD [OF h] and k = heap_inv_at [OF h]
  have x: "extent us \<le> T" using k(2) i(2) by simp
  show ?thesis
  proof (cases us rule: rev_cases)
    case Nil
    then show ?thesis
      using k(6) gets_gptr(1) [OF i(1), of 0] by (simp add: check_prev_chunk_def base_gptr)
  next
    case (snoc us' j)
    obtain l d where j: "j = (l, d)" by (cases j)
    have h': "heap_inv T s (us' @ (l, d) # (n, a) # vs)" using h snoc j by simp
    note k' = heap_inv_at [OF h']
    have "d \<or> a" using i(6) snoc j by (simp add: coalesced_append)
    have s: "Pointer_unchecked_sub (gptr ?b (extent us)) (sz l) = gptr ?b (extent us')"
      using snoc j k'(4) by (simp add: gptr_sub)
    have "extent us' \<le> T" "l < 2 ^ 32" "l \<noteq> 0" using k'(1,3,4) by simp_all
    then show ?thesis
      using \<open>d \<or> a\<close> k(6) k'(4,7) x snoc j gptr_le_iff [OF i(1), of 0 "extent us'"]
      by (cases d) (simp_all add: check_prev_chunk_def gets_gptr [OF i(1)] base_gptr s [unfolded snoc j, simplified])
  qed
qed

lemma check_next_chunk_ok:
  assumes h: "heap_inv T s (us @ (n, a) # vs)" and t: "total_space ops (env s) = sz T"
  shows "check_next_chunk ops c s (gptr (base_address s) (extent us)) a = Some ()"
proof -
  let ?b = "base_address s"
  note i = heap_invD [OF h] and k = heap_inv_at [OF h]
  have x: "extent us \<le> T" using k(2) i(2) by simp
  note e = end_of_address_space_eq [OF t i(8)]
  have s: "Pointer_unchecked_add (gptr ?b (extent us)) (sz n) = gptr ?b (extent us + n)"
    using k(4) by (simp add: gptr_add)
  show ?thesis
  proof (cases vs)
    case Nil
    then have "extent us + n = T" using k(8) by simp
    then show ?thesis using k(4,7) by (simp add: check_next_chunk_def gets_gptr [OF i(1) x] s e)
  next
    case (Cons j vs')
    obtain l d where j: "j = (l, d)" by (cases j)
    have h': "heap_inv T s ((us @ [(n, a)]) @ (l, d) # vs')" using h Cons j by simp
    note k' = heap_inv_at [OF h']
    have "extent us + n < T" using k(3,8) Cons by auto
    moreover have "a \<or> d" using i(6) Cons j by (auto simp: coalesced_append)
    moreover have "hprev (mem s) ?b (extent us + n) = Some (sz n)"
      "hsize (mem s) ?b (extent us + n) = Some (packed l d)" using k'(6,7) by simp_all
    ultimately show ?thesis
      using k(4,7) gptr_less_iff [OF i(1) k(3) order_refl]
      by (cases d) (simp_all add: check_next_chunk_def gets_gptr [OF i(1) x] gets_gptr [OF i(1) k(3)] s e)
  qed
qed

lemma paranoid_check_chunk_ok:
  assumes h: "heap_inv T s (us @ vs)" and t: "\<And>e. total_space ops e = sz T"
  shows "paranoid_check_chunk ops c s (gptr (base_address s) (extent us)) = Some ()"
proof (cases vs)
  case Nil
  note i = heap_invD [OF h]
  have x: "extent us = T" using i(4) Nil by simp
  show ?thesis
    using gptr_not_null [OF i(1), of T] gptr_le_iff [OF i(1), of 0 T] region_okD(4) [OF i(1)]
    by (simp add: paranoid_check_chunk_def x end_of_address_space_eq [OF t i(8)] base_gptr)
next
  case (Cons k vs')
  obtain n a where k: "k = (n, a)" by (cases k)
  have h: "heap_inv T s (us @ (n, a) # vs')" using h Cons k by simp
  let ?b = "base_address s" and ?x = "extent us"
  note i = heap_invD [OF h] and at = heap_inv_at [OF h]
  have x: "?x < T" "?x \<le> T" "?x + 1 \<le> T" using at(1,3) by simp_all
  note e = end_of_address_space_eq [where ops = ops and s = s, OF t i(8)]
  have "unat (gaddr ?b ?x + SIZEOF_ChunkHeader) = unat ?b + 32 * ?x + 8"
    using unat_gaddr [OF i(1) x(2)] region_okD(5) [OF i(1)] x(1)
    by (subst unat_add_small) (simp_all add: SIZEOF_ChunkHeader_def)
  then have 1: "gaddr ?b ?x + SIZEOF_ChunkHeader \<le> gaddr ?b T"
    unfolding word_le_nat_alt unat_gaddr [OF i(1) order_refl] using x(3) by simp
  have 2: "gaddr ?b ?x < gaddr ?b T"
    unfolding word_less_nat_alt unat_gaddr [OF i(1) order_refl] unat_gaddr [OF i(1) x(2)] using x(1) by simp
  have 3: "gptr ?b ?x \<noteq> gptr ?b T" using x(1) gptr_inject [OF i(1) x(2) order_refl] by simp
  have 4: "paranoid_check_access c s (gptr ?b ?x) SIZEOF_ChunkHeader = Some ()"
    by (rule paranoid_check_access_ok [OF i(1,2) at(2)]) (simp add: SIZEOF_ChunkHeader_def)
  show ?thesis
    using gptr_not_null [OF i(1) x(2)] gptr_le_iff [OF i(1) _ x(2), of 0] region_okD(4) [OF i(1)] 1 2 3 4 at(7)
      check_prev_chunk_ok [OF h, of c] check_next_chunk_ok [OF h t, of c]
    by (simp add: paranoid_check_chunk_def e base_gptr gets_gptr [OF i(1) x(2)])
qed

section \<open>Steps on the free lists\<close>

text \<open>A change that leaves the links and sizes of the registered chunks alone keeps the lists.\<close>

lemma lists_ok_change:
  assumes "lists_ok T F s" "dom m' = dom (mem s)"
    and "\<And>x. x \<in> dom F \<Longrightarrow> hnext m' (base_address s) x = hnext (mem s) (base_address s) x \<and>
      hback m' (base_address s) x = hback (mem s) (base_address s) x \<and>
      hsize m' (base_address s) x = hsize (mem s) (base_address s) x"
  shows "lists_ok T F (s\<lparr>mem := m'\<rparr>)"
proof -
  obtain L where l: "lists_by T F L s" using assms(1) unfolding lists_ok_def by blast
  have "dseg m' (base_address s) NULL p (L i) q NULL = dseg (mem s) (base_address s) NULL p (L i) q NULL"
    if "i < 2432" for p q i
    using assms(3) member_chunk(3) [OF l] lists_by_list(2) [OF l that] by (intro dseg_cong) blast
  moreover have "0 < n \<and> n < 2 ^ 27 \<and> x < units (allocated_space s) \<and>
      hsize m' (base_address s) x = Some (packed n False)" if "F x = Some n" for x n
    using lists_by_chunk [OF l that] assms(3) [of x] that by auto
  moreover have "mapped_until m' (base_address s) (units (allocated_space s))"
    using lists_byD(3) [OF l] mapped_until_dom [OF assms(2)] by blast
  ultimately have "lists_by T F L (s\<lparr>mem := m'\<rparr>)"
    using lists_byD [OF l] lists_by_list [OF l] unfolding lists_by_def Let_def by simp
  then show ?thesis unfolding lists_ok_def by blast
qed

text \<open>Recording the size of the predecessor in the chunk at \<open>y\<close>, or nowhere at the end.\<close>

definition prev_recorded :: "nat \<Rightarrow> nat \<Rightarrow> Size \<Rightarrow> 'e machine \<Rightarrow> 'e machine \<Rightarrow> bool" where
  "prev_recorded T y v s s' \<longleftrightarrow>
     (\<exists>m'. s' = s\<lparr>mem := m'\<rparr>) \<and> framed (base_address s) (if y < T then {y} else {}) (mem s) (mem s') \<and>
     (\<forall>k < T. hprev (mem s') (base_address s) k = (if k = y then Some v else hprev (mem s) (base_address s) k)) \<and>
     (\<forall>k < T. hsize (mem s') (base_address s) k = hsize (mem s) (base_address s) k)"

lemma record_prev_ok:
  assumes l: "lists_ok T F s" and t: "\<And>e. total_space ops e = sz T" and y: "y \<le> T" "y < T \<Longrightarrow> y < units (allocated_space s)"
    and z: "unat z \<le> 32"
  shows "\<exists>s'. record_prev ops c s (gptr (base_address s) y) z v = Some s' \<and> prev_recorded T y v s s' \<and> lists_ok T F s'"
proof -
  let ?b = "base_address s"
  note d = lists_okD [OF l]
  have e: "end_of_address_space ops s = gptr ?b T"
    using end_of_address_space_eq [OF t] region_okD(3) [OF d(1)] .
  show ?thesis
  proof (cases "y < T")
    case False
    then have "\<not> gptr ?b y < gptr ?b T" using gptr_less_iff [OF d(1) y(1) order_refl] by simp
    then show ?thesis
      using l False y(1) by (auto simp: record_prev_def e prev_recorded_def intro: exI [of _ "mem s"])
  next
    case True
    then have A: "y < units (allocated_space s)" using y(2) by simp
    obtain m' where m': "set_prev_chunk_size c (mem s) (gptr ?b y) v = Some m'" "framed ?b {y} (mem s) m'"
      "\<And>k. k < T \<Longrightarrow> hprev m' ?b k = (if k = y then Some v else hprev (mem s) ?b k)"
      "\<And>k. k < T \<Longrightarrow> hsize m' ?b k = hsize (mem s) ?b k" "\<And>k. k < T \<Longrightarrow> hnext m' ?b k = hnext (mem s) ?b k"
      "\<And>k. k < T \<Longrightarrow> hback m' ?b k = hback (mem s) ?b k"
      using set_prev_chunk_size_ok [OF d(1) True mapped_until_unit [OF d(3) A]] by metis
    have "x < T" if "x \<in> dom F" for x
      using that l lists_by_chunk(4) unfolding lists_ok_def by blast
    then have "lists_ok T F (s\<lparr>mem := m'\<rparr>)"
      using m' by (intro lists_ok_change [OF l]) (simp_all add: framed_def)
    moreover have "record_prev ops c s (gptr ?b y) z v = Some (s\<lparr>mem := m'\<rparr>)"
      using m'(1) gptr_less_iff [OF d(1) y(1) order_refl] True paranoid_check_access_ok [OF d(1,2) A z]
      by (simp add: record_prev_def e)
    ultimately show ?thesis using m' True by (auto simp: prev_recorded_def)
  qed
qed

text \<open>Registering what is left over, when there is anything left.\<close>

definition left_over :: "nat \<Rightarrow> layout" where
  "left_over n = (if n = 0 then [] else [(n, False)])"

lemma left_over_simps [simp]:
  "extent (left_over n) = n" "sizes_pos (left_over n)" "left_over 0 = []" "0 < n \<Longrightarrow> left_over n = [(n, False)]"
  by (simp_all add: left_over_def)

lemma frees_left_over: "frees x (left_over n) = (if n = 0 then Map.empty else [x \<mapsto> n])"
  by (simp add: left_over_def)

definition added_any :: "nat \<Rightarrow> (nat \<rightharpoonup> nat) \<Rightarrow> nat \<Rightarrow> Size \<Rightarrow> nat \<Rightarrow> 'e machine \<Rightarrow> 'e machine \<Rightarrow> bool" where
  "added_any T F x v n s s' \<longleftrightarrow> lists_ok T (F ++ frees x (left_over n)) s' \<and> same_env s s' \<and>
     framed (base_address s) (starts x (left_over n) \<union> dom F) (mem s) (mem s') \<and>
     (\<forall>y < T. hprev (mem s') (base_address s) y =
       (if y = x \<and> 0 < n then Some v else hprev (mem s) (base_address s) y)) \<and>
     (\<forall>y < T. hsize (mem s') (base_address s) y =
       (if y = x \<and> 0 < n then Some (packed n False) else hsize (mem s) (base_address s) y))"

lemma register_any_ok:
  assumes "lists_ok T F s" "F x = None" "0 < n \<Longrightarrow> x < units (allocated_space s)" "n < 2 ^ 27"
  shows "\<exists>s'. register_free_space c s (gptr (base_address s) x) v (sz n) = Some (if n = 0 then v else sz n, s') \<and>
    added_any T F x v n s s'"
proof (cases "n = 0")
  case True
  then show ?thesis using assms(1) by (simp add: register_free_space_def added_any_def)
next
  case False
  then show ?thesis
    using register_free_space_ok [OF assms(1,2), of n c v] assms(3,4)
    by (auto simp: added_def added_any_def)
qed

lemma register_allocation_ok:
  assumes l: "lists_ok T F s" and x: "F x = None" "x < units (allocated_space s)"
  shows "\<exists>s'. register_allocation c s (gptr (base_address s) x) v (sz n) = Some s' \<and> lists_ok T F s' \<and> same_env s s' \<and>
    framed (base_address s) {x} (mem s) (mem s') \<and>
    (\<forall>y < T. hprev (mem s') (base_address s) y = (if y = x then Some v else hprev (mem s) (base_address s) y)) \<and>
    (\<forall>y < T. hsize (mem s') (base_address s) y =
      (if y = x then Some (packed n True) else hsize (mem s) (base_address s) y))"
proof -
  let ?b = "base_address s"
  note d = lists_okD [OF l]
  have xT: "x < T" using x(2) d(2) by simp
  obtain m' where m': "write_chunk_header c (mem s) (gptr ?b x) \<lparr>prev_chunk_size = v, chunk_size = packed n True\<rparr> = Some m'"
    "framed ?b {x} (mem s) m'"
    "\<forall>y < T. hprev m' ?b y = (if y = x then Some v else hprev (mem s) ?b y)"
    "\<forall>y < T. hsize m' ?b y = (if y = x then Some (packed n True) else hsize (mem s) ?b y)"
    "\<forall>y < T. hnext m' ?b y = hnext (mem s) ?b y" "\<forall>y < T. hback m' ?b y = hback (mem s) ?b y"
    using write_chunk_header_ok [OF d(1) xT mapped_until_unit [OF d(3) x(2)], where c = c and v = v
        and k = "packed n True"] by blast
  have "y < T \<and> y \<noteq> x" if "y \<in> dom F" for y
    using that l x(1) lists_by_chunk(4) unfolding lists_ok_def by fastforce
  then have "lists_ok T F (s\<lparr>mem := m'\<rparr>)"
    using m' by (intro lists_ok_change [OF l]) (auto simp: framed_def)
  moreover have "paranoid_check_access c s (gptr ?b x) SIZEOF_ChunkHeader = Some ()"
    by (rule paranoid_check_access_ok [OF d(1,2) x(2)]) (simp add: SIZEOF_ChunkHeader_def)
  ultimately show ?thesis
    using m' by (simp add: register_allocation_def new_allocated_sz same_env_def)
qed

end
