(* ===== verification/Gaps.thy ===== *)
theory Gaps
  imports Chunk_Steps
begin

text \<open>
  The states in the middle of an operation. While chunks are taken out, merged and carved up, the
  headers spell out a layout only on both sides of a gap: the chunks \<open>us\<close> from the base on, and the
  chunks \<open>vs\<close> from offset \<open>z\<close> on, the first of which may record an outdated predecessor size. Every
  operation of the allocator opens a gap in a layout, moves its borders, and closes it; one lemma
  per move gives its effect on the gap and the units it may have written.
\<close>

section \<open>The invariant of a gap\<close>

fun heads_tail :: "memory \<Rightarrow> u64 \<Rightarrow> nat \<Rightarrow> nat \<Rightarrow> layout \<Rightarrow> bool" where
  "heads_tail m b A x [] \<longleftrightarrow> True"
| "heads_tail m b A x ((n, a) # ks) \<longleftrightarrow>
     0 < n \<and> x < A \<and> (a \<longrightarrow> x + n \<le> A) \<and> hsize m b x = Some (packed n a) \<and> heads m b A (x + n) n ks"

lemma heads_as_tail: "heads m b A x p ks \<longleftrightarrow> (ks \<noteq> [] \<longrightarrow> hprev m b x = Some (sz p)) \<and> heads_tail m b A x ks"
  by (cases ks) auto

lemma heads_tail_sizes_pos: "heads_tail m b A x ks \<Longrightarrow> sizes_pos ks"
  by (cases ks) (auto dest: heads_sizes_pos)

lemma heads_tail_start: "heads_tail m b A x ks \<Longrightarrow> y \<in> starts x ks \<Longrightarrow> y < A"
  by (cases ks) (auto dest: heads_start)

lemma heads_tail_cong:
  assumes "\<And>y. x < y \<Longrightarrow> y < x + extent ks \<Longrightarrow> hprev m' b y = hprev m b y"
    "\<And>y. x \<le> y \<Longrightarrow> y < x + extent ks \<Longrightarrow> hsize m' b y = hsize m b y"
    and h: "heads_tail m b A x ks" and A: "A \<le> A'"
  shows "heads_tail m' b A' x ks"
proof (cases ks)
  case (Cons k vs)
  obtain n a where k: "k = (n, a)" by (cases k)
  have "heads m' b A' (x + n) n vs"
    by (rule heads_cong [where m = m and A = A]) (use assms Cons k in auto)
  then show ?thesis using assms Cons k by auto
qed simp

definition gap_starts :: "layout \<Rightarrow> nat \<Rightarrow> layout \<Rightarrow> nat set" where
  "gap_starts us z vs = starts 0 us \<union> starts z vs"

definition gap_inv :: "nat \<Rightarrow> 'e machine \<Rightarrow> layout \<Rightarrow> nat \<Rightarrow> layout \<Rightarrow> bool" where
  "gap_inv T s us z vs \<longleftrightarrow>
     extent us \<le> z \<and> z + extent vs = T \<and> lists_ok T (frees_around us z vs) s \<and>
     heads (mem s) (base_address s) (units (allocated_space s)) 0 0 us \<and>
     heads_tail (mem s) (base_address s) (units (allocated_space s)) z vs"

lemma gap_invD:
  assumes "gap_inv T s us z vs"
  shows "extent us \<le> z" "z + extent vs = T" "lists_ok T (frees_around us z vs) s"
    "heads (mem s) (base_address s) (units (allocated_space s)) 0 0 us"
    "heads_tail (mem s) (base_address s) (units (allocated_space s)) z vs"
    "sizes_pos us" "sizes_pos vs" "region_ok (base_address s) T" "units (allocated_space s) \<le> T" "T < 2 ^ 27"
proof -
  show "extent us \<le> z" "z + extent vs = T" and l: "lists_ok T (frees_around us z vs) s"
    and h: "heads (mem s) (base_address s) (units (allocated_space s)) 0 0 us"
    and t: "heads_tail (mem s) (base_address s) (units (allocated_space s)) z vs"
    using assms by (simp_all add: gap_inv_def)
  show "sizes_pos us" "sizes_pos vs" using heads_sizes_pos [OF h] heads_tail_sizes_pos [OF t] .
  show "region_ok (base_address s) T" "units (allocated_space s) \<le> T" "T < 2 ^ 27"
    using lists_okD [OF l] region_okD by blast+
qed

text \<open>What a move from one gap to another does to the state.\<close>

definition moved :: "nat \<Rightarrow> layout \<Rightarrow> nat \<Rightarrow> layout \<Rightarrow> layout \<Rightarrow> nat \<Rightarrow> layout \<Rightarrow> 'e machine \<Rightarrow> 'e machine \<Rightarrow> bool" where
  "moved T us z vs us' z' vs' s s' \<longleftrightarrow>
     gap_inv T s' us' z' vs' \<and> same_env s s' \<and>
     framed (base_address s) (gap_starts us z vs \<union> gap_starts us' z' vs') (mem s) (mem s')"

lemma dom_frees_around: "dom (frees_around us z vs) \<subseteq> gap_starts us z vs"
  using dom_frees [of 0 us] dom_frees [of z vs] by (auto simp: frees_around_def gap_starts_def)

section \<open>The free chunks at the borders\<close>

lemma frees_around_Cons:
  assumes "sizes_pos us" "extent us \<le> z"
  shows "frees_around us z ((n, a) # vs) =
    (if a then frees_around us (z + n) vs else (frees_around us (z + n) vs)(z \<mapsto> n))"
  using assms by (auto simp: frees_around_def frees_outside map_add_upd_left_outside)

lemma frees_around_snoc:
  "frees_around (us @ [(n, a)]) z vs =
    (if a then frees_around us z vs else (frees_around us z vs)(extent us \<mapsto> n))" if "sizes_pos us"
  using that frees_outside [OF that, of "extent us" 0]
  by (auto simp: frees_around_def frees_append map_add_def fun_eq_iff split: option.splits)

lemma frees_around_closed: "frees_around us (extent us) vs = frees 0 (us @ vs)"
  by (simp add: frees_around_def frees_append)

section \<open>Opening and forgetting\<close>

lemma gap_open:
  assumes "heap_inv T s (us @ vs)"
  shows "gap_inv T s us (extent us) vs"
  using heap_invD [OF assms] unfolding gap_inv_def frees_around_closed
  by (simp add: heads_append) (simp add: heads_as_tail [of _ _ _ "extent us"])

lemma gap_forget:
  assumes "gap_inv T s (us @ [(n, True)]) z vs"
  shows "gap_inv T s us z vs"
  using gap_invD [OF assms] by (simp add: gap_inv_def frees_around_snoc heads_append)

text \<open>The fields of the chunk at either border.\<close>

lemma gap_left:
  assumes "gap_inv T s (us @ [(n, a)]) z vs"
  shows "0 < n" "extent us < units (allocated_space s)" "extent us + n \<le> z" "n < 2 ^ 27"
    "hprev (mem s) (base_address s) (extent us) = Some (sz (last_size 0 us))"
    "hsize (mem s) (base_address s) (extent us) = Some (packed n a)"
    "extent us < T" "frees_around us z vs (extent us) = None"
proof -
  note g = gap_invD [OF assms]
  show 1: "0 < n" "extent us < units (allocated_space s)" "extent us + n \<le> z" and "n < 2 ^ 27" "extent us < T"
    "hprev (mem s) (base_address s) (extent us) = Some (sz (last_size 0 us))"
    "hsize (mem s) (base_address s) (extent us) = Some (packed n a)"
    using g by (simp_all add: heads_append)
  show "frees_around us z vs (extent us) = None"
    by (rule frees_around_mid) (use g(6,7) 1 in simp_all)
qed

lemma gap_right:
  assumes "gap_inv T s us z ((n, a) # vs)"
  shows "0 < n" "z < units (allocated_space s)" "z + n \<le> T" "n < 2 ^ 27" "z < T"
    "hsize (mem s) (base_address s) z = Some (packed n a)" "frees_around us (z + n) vs z = None"
proof -
  note g = gap_invD [OF assms]
  show 1: "0 < n" "z < units (allocated_space s)" "z + n \<le> T" and "n < 2 ^ 27" "z < T"
    "hsize (mem s) (base_address s) z = Some (packed n a)"
    using g by simp_all
  show "frees_around us (z + n) vs z = None"
    by (rule frees_around_mid) (use g(1,6,7) 1 in simp_all)
qed

section \<open>Moves\<close>

lemma gap_same_heads:
  assumes "gap_inv T s us z vs" and k: "heads_kept (base_address s) T (mem s) (mem s')" and e: "same_env s s'"
  shows "heads (mem s') (base_address s') (units (allocated_space s')) 0 0 us"
    "heads_tail (mem s') (base_address s') (units (allocated_space s')) z vs"
proof -
  note g = gap_invD [OF assms(1)]
  have "extent us \<le> T" using g(1,2) by simp
  then have "heads (mem s') (base_address s) (units (allocated_space s)) 0 0 us"
    using k by (intro heads_cong [OF _ g(4)]) (simp_all add: heads_kept_def)
  moreover have "heads_tail (mem s') (base_address s) (units (allocated_space s)) z vs"
    using k g(2) by (intro heads_tail_cong [OF _ _ g(5)]) (simp_all add: heads_kept_def)
  ultimately show "heads (mem s') (base_address s') (units (allocated_space s')) 0 0 us"
    "heads_tail (mem s') (base_address s') (units (allocated_space s')) z vs"
    using e by (simp_all add: same_env_def)
qed

lemma removed_framed:
  assumes "removed T (frees_around us z vs) x s s'"
  shows "framed (base_address s) (gap_starts us z vs \<union> G) (mem s) (mem s')"
  using assms dom_frees_around [of us z vs] unfolding removed_def
  by (auto elim!: framed_mono)

text \<open>A free chunk at the left or right border is taken out.\<close>

lemma gap_take_left:
  assumes g: "gap_inv T s (us @ [(n, False)]) z vs"
  shows "\<exists>s'. unregister_free_space c s (gptr (base_address s) (extent us)) (bi (bin_of n)) = Some s' \<and>
    moved T (us @ [(n, False)]) z vs us z vs s s'"
proof -
  note d = gap_invD [OF g] and k = gap_left [OF g]
  have F: "frees_around (us @ [(n, False)]) z vs = (frees_around us z vs)(extent us \<mapsto> n)"
    using d(6) by (simp add: frees_around_snoc)
  obtain s' where s': "unregister_free_space c s (gptr (base_address s) (extent us)) (bi (bin_of n)) = Some s'"
    "removed T (frees_around (us @ [(n, False)]) z vs) (extent us) s s'"
    using unregister_free_space_ok [OF d(3), of "extent us" n c] F by auto
  have l: "lists_ok T (frees_around us z vs) s'"
    using s'(2) k(8) unfolding removed_def F by (simp add: fun_upd_idem)
  have "gap_inv T s' us z vs"
    using gap_same_heads [OF g, of s'] s'(2) d(1,2) l unfolding removed_def gap_inv_def
    by (simp add: heads_append)
  then show ?thesis using s' removed_framed [OF s'(2)] unfolding moved_def removed_def by blast
qed

lemma gap_take_right:
  assumes g: "gap_inv T s us z ((n, False) # vs)"
  shows "\<exists>s'. unregister_free_space c s (gptr (base_address s) z) (bi (bin_of n)) = Some s' \<and>
    moved T us z ((n, False) # vs) us (z + n) vs s s'"
proof -
  note d = gap_invD [OF g] and k = gap_right [OF g]
  have F: "frees_around us z ((n, False) # vs) = (frees_around us (z + n) vs)(z \<mapsto> n)"
    using d(1,6) by (simp add: frees_around_Cons)
  obtain s' where s': "unregister_free_space c s (gptr (base_address s) z) (bi (bin_of n)) = Some s'"
    "removed T (frees_around us z ((n, False) # vs)) z s s'"
    using unregister_free_space_ok [OF d(3), of z n c] F by auto
  have l: "lists_ok T (frees_around us (z + n) vs) s'"
    using s'(2) k(7) unfolding removed_def F by (simp add: fun_upd_idem)
  have "gap_inv T s' us (z + n) vs"
    using gap_same_heads [OF g, of s'] s'(2) d(1,2) l unfolding removed_def gap_inv_def
    by (simp add: heads_as_tail [of _ _ _ "z + n"])
  then show ?thesis using s' removed_framed [OF s'(2)] unfolding moved_def removed_def by blast
qed

text \<open>A free or an allocated chunk is put at the left border.\<close>

lemma gap_heads_left:
  assumes g: "gap_inv T s us z vs" and n: "0 < n" "extent us + n \<le> z" "extent us < units (allocated_space s)"
      "a \<Longrightarrow> extent us + n \<le> units (allocated_space s)"
    and e: "same_env s s'"
    and p: "\<And>y. y < T \<Longrightarrow> hprev (mem s') (base_address s) y =
        (if y = extent us then Some (sz (last_size 0 us)) else hprev (mem s) (base_address s) y)"
    and h: "\<And>y. y < T \<Longrightarrow> hsize (mem s') (base_address s) y =
        (if y = extent us then Some (packed n a) else hsize (mem s) (base_address s) y)"
  shows "heads (mem s') (base_address s') (units (allocated_space s')) 0 0 (us @ [(n, a)])"
    "heads_tail (mem s') (base_address s') (units (allocated_space s')) z vs"
proof -
  note d = gap_invD [OF g]
  have "heads (mem s') (base_address s) (units (allocated_space s)) 0 0 us"
    using p h n d(2) by (intro heads_cong [OF _ d(4)]) simp_all
  moreover have "heads_tail (mem s') (base_address s) (units (allocated_space s)) z vs"
    using p h n d(2) by (intro heads_tail_cong [OF _ _ d(5)]) simp_all
  ultimately show "heads (mem s') (base_address s') (units (allocated_space s')) 0 0 (us @ [(n, a)])"
    "heads_tail (mem s') (base_address s') (units (allocated_space s')) z vs"
    using e n p [of "extent us"] h [of "extent us"] d(2) by (simp_all add: same_env_def heads_append)
qed

lemma gap_put:
  assumes g: "gap_inv T s us z vs" and n: "extent us + n \<le> z" "0 < n \<Longrightarrow> extent us < units (allocated_space s)"
  shows "\<exists>s'. register_free_space c s (gptr (base_address s) (extent us)) (sz (last_size 0 us)) (sz n) =
      Some (sz (last_size 0 (us @ left_over n)), s') \<and> moved T us z vs (us @ left_over n) z vs s s'"
proof (cases "n = 0")
  case True
  then show ?thesis using g by (simp add: register_free_space_def moved_def)
next
  case False
  let ?b = "base_address s" and ?F = "frees_around us z vs"
  note d = gap_invD [OF g]
  have F: "?F (extent us) = None" using frees_around_mid [of us vs "extent us" z] d(6,7) False n(1) by simp
  have "n < 2 ^ 27" using n(1) d(2,10) by simp
  then obtain s' where s': "register_free_space c s (gptr ?b (extent us)) (sz (last_size 0 us)) (sz n) = Some (sz n, s')"
    "added T ?F (extent us) (sz (last_size 0 us)) n s s'"
    using register_free_space_ok [OF d(3) F, of n c] n(2) False by auto
  have e: "same_env s s'" and l: "lists_ok T (?F(extent us \<mapsto> n)) s'"
    and fr: "framed ?b (insert (extent us) (dom ?F)) (mem s) (mem s')" using s'(2) by (simp_all add: added_def)
  have "heads (mem s') (base_address s') (units (allocated_space s')) 0 0 (us @ [(n, False)])"
    "heads_tail (mem s') (base_address s') (units (allocated_space s')) z vs"
    by (rule gap_heads_left [OF g _ n(1) _ _ e]; use s'(2) False n in \<open>simp add: added_def\<close>)+
  then have "gap_inv T s' (us @ left_over n) z vs"
    using l False n d(2,6) by (simp add: gap_inv_def frees_around_snoc)
  moreover have "framed ?b (gap_starts us z vs \<union> gap_starts (us @ left_over n) z vs) (mem s) (mem s')"
    using dom_frees_around [of us z vs] False by (intro framed_mono [OF fr]) (auto simp: gap_starts_def starts_append)
  ultimately show ?thesis using s'(1) e False by (auto simp: moved_def)
qed

lemma gap_put_allocated:
  assumes g: "gap_inv T s us z vs" and n: "0 < n" "extent us + n \<le> z" "extent us + n \<le> units (allocated_space s)"
  shows "\<exists>s'. register_allocation c s (gptr (base_address s) (extent us)) (sz (last_size 0 us)) (sz n) = Some s' \<and>
    moved T us z vs (us @ [(n, True)]) z vs s s'"
proof -
  let ?b = "base_address s" and ?F = "frees_around us z vs"
  note d = gap_invD [OF g]
  have F: "?F (extent us) = None" using frees_around_mid [of us vs "extent us" z] d(6,7) n(1,2) by simp
  have x: "extent us < units (allocated_space s)" using n by simp
  obtain s' where s': "register_allocation c s (gptr ?b (extent us)) (sz (last_size 0 us)) (sz n) = Some s'"
    "lists_ok T ?F s'" "same_env s s'" "framed ?b {extent us} (mem s) (mem s')"
    "\<And>y. y < T \<Longrightarrow> hprev (mem s') ?b y = (if y = extent us then Some (sz (last_size 0 us)) else hprev (mem s) ?b y)"
    "\<And>y. y < T \<Longrightarrow> hsize (mem s') ?b y = (if y = extent us then Some (packed n True) else hsize (mem s) ?b y)"
    using register_allocation_ok [OF d(3) F x, of c _ n] by metis
  have "heads (mem s') (base_address s') (units (allocated_space s')) 0 0 (us @ [(n, True)])"
    "heads_tail (mem s') (base_address s') (units (allocated_space s')) z vs"
    using gap_heads_left [OF g n(1,2) x _ s'(3) s'(5,6)] n(3) by simp_all
  then have "gap_inv T s' (us @ [(n, True)]) z vs"
    using s'(2) n d(2,6) by (simp add: gap_inv_def frees_around_snoc)
  then have "moved T us z vs (us @ [(n, True)]) z vs s s'"
    using s'(3) framed_mono [OF s'(4)] by (simp add: moved_def gap_starts_def starts_append)
  then show ?thesis using s'(1) by blast
qed

text \<open>The allocated chunk at the left border is resized.\<close>

lemma gap_resize_left:
  assumes g: "gap_inv T s (us @ [(n, True)]) z vs" and k: "0 < k" "extent us + k \<le> z" "extent us + k \<le> units (allocated_space s)"
  shows "\<exists>m'. set_size c (mem s) (gptr (base_address s) (extent us)) (packed k True) = Some m' \<and>
    moved T (us @ [(n, True)]) z vs (us @ [(k, True)]) z vs s (s\<lparr>mem := m'\<rparr>)"
proof -
  let ?b = "base_address s" and ?F = "frees_around us z vs"
  note d = gap_invD [OF g] and x = gap_left [OF g]
  have F: "frees_around (us @ [(j, True)]) z vs = ?F" for j using d(6) by (simp add: frees_around_snoc)
  have "unit_mapped (mem s) ?b (extent us)" using mapped_until_unit [OF lists_okD(3) [OF d(3)] x(2)] .
  then obtain m' where m': "set_size c (mem s) (gptr ?b (extent us)) (packed k True) = Some m'"
    "framed ?b {extent us} (mem s) m'" "\<And>y. y < T \<Longrightarrow> hprev m' ?b y = hprev (mem s) ?b y"
    "\<And>y. y < T \<Longrightarrow> hsize m' ?b y = (if y = extent us then Some (packed k True) else hsize (mem s) ?b y)"
    "\<And>y. y < T \<Longrightarrow> hnext m' ?b y = hnext (mem s) ?b y" "\<And>y. y < T \<Longrightarrow> hback m' ?b y = hback (mem s) ?b y"
    using set_size_ok [OF d(8) x(7)] by metis
  have "y < T \<and> y \<noteq> extent us" if "y \<in> dom ?F" for y
    using that x(8) d(3) lists_by_chunk(4) unfolding F lists_ok_def by fastforce
  then have l: "lists_ok T ?F (s\<lparr>mem := m'\<rparr>)"
    using m' d(3) unfolding F by (intro lists_ok_change) (auto simp: framed_def)
  have g': "gap_inv T s us z vs" by (rule gap_forget [OF g])
  have p: "hprev m' ?b y = (if y = extent us then Some (sz (last_size 0 us)) else hprev (mem s) ?b y)"
    if "y < T" for y using m'(3) that x(5) by simp
  have "heads m' ?b (units (allocated_space s)) 0 0 (us @ [(k, True)])"
    "heads_tail m' ?b (units (allocated_space s)) z vs"
    using gap_heads_left [OF g' k(1,2) x(2), of True "s\<lparr>mem := m'\<rparr>"] k(3) p m'(4) by (simp_all add: same_env_def)
  then have "gap_inv T (s\<lparr>mem := m'\<rparr>) (us @ [(k, True)]) z vs"
    using l k(2) d(2) by (simp add: gap_inv_def F)
  then have "moved T (us @ [(n, True)]) z vs (us @ [(k, True)]) z vs s (s\<lparr>mem := m'\<rparr>)"
    using framed_mono [OF m'(2)] by (simp add: moved_def gap_starts_def starts_append same_env_def)
  then show ?thesis using m'(1) by blast
qed

text \<open>When the borders meet, recording the predecessor's size closes the gap.\<close>

lemma gap_close:
  assumes g: "gap_inv T s us (extent us) vs" and k: "coalesced (us @ vs)" and t: "\<And>e. total_space ops e = sz T"
    and w: "unat w \<le> 32"
  shows "\<exists>s'. record_prev ops c s (gptr (base_address s) (extent us)) w (sz (last_size 0 us)) = Some s' \<and>
    heap_inv T s' (us @ vs) \<and> same_env s s' \<and> framed (base_address s) (gap_starts us (extent us) vs) (mem s) (mem s')"
proof -
  let ?x = "extent us" and ?b = "base_address s"
  note d = gap_invD [OF g]
  have "?x < units (allocated_space s)" if "?x < T"
    using that d(2,5) by (cases vs) auto
  then obtain s' where s': "record_prev ops c s (gptr ?b ?x) w (sz (last_size 0 us)) = Some s'"
    "prev_recorded T ?x (sz (last_size 0 us)) s s'" "lists_ok T (frees_around us ?x vs) s'"
    using record_prev_ok [OF d(3) t, of ?x w c] w d(2) by (metis le_add1)
  have e: "same_env s s'" using s'(2) by (auto simp: prev_recorded_def same_env_def)
  have p: "hprev (mem s') ?b y = (if y = ?x then Some (sz (last_size 0 us)) else hprev (mem s) ?b y)"
    "hsize (mem s') ?b y = hsize (mem s) ?b y" if "y < T" for y
    using s'(2) that by (simp_all add: prev_recorded_def)
  have "heads (mem s') ?b (units (allocated_space s)) 0 0 us"
    using p d(2) by (intro heads_cong [OF _ d(4)]) simp_all
  moreover have "heads_tail (mem s') ?b (units (allocated_space s)) ?x vs"
    using p d(2) by (intro heads_tail_cong [OF _ _ d(5)]) simp_all
  moreover have "hprev (mem s') ?b ?x = Some (sz (last_size 0 us))" if "vs \<noteq> []"
    using p(1) [of ?x] that d(2,7) by (cases vs) auto
  ultimately have "heap_inv T s' (us @ vs)"
    using d(2) k e s'(3) heads_as_tail [of "mem s'" ?b _ ?x "last_size 0 us" vs]
    by (simp add: heap_inv_def heads_append frees_around_closed same_env_def)
  moreover have "framed ?b (gap_starts us ?x vs) (mem s) (mem s')"
  proof (rule framed_mono)
    show "framed ?b (if ?x < T then {?x} else {}) (mem s) (mem s')" using s'(2) by (simp add: prev_recorded_def)
    show "(if ?x < T then {?x} else {}) \<subseteq> gap_starts us ?x vs"
      using d(2) by (cases vs) (auto simp: gap_starts_def)
  qed
  ultimately show ?thesis using s'(1) e by blast
qed

end
