(* ===== verification/Deallocation.thy ===== *)
theory Deallocation
  imports Gaps
begin

text \<open>
  \<^verbatim>\<open>free\<close> and \<^verbatim>\<open>shrink_inplace\<close>: on a layout, the freed chunk (or the part cut off) is merged with
  the free neighbours into one free chunk. The operations never fail on a pointer to a live
  allocation, keep the invariant, and write only to headers.
\<close>

section \<open>Free neighbours\<close>

definition lead_free :: "layout \<Rightarrow> nat" where
  "lead_free vs = (case vs of (r, False) # _ \<Rightarrow> r | _ \<Rightarrow> 0)"

definition drop_lead_free :: "layout \<Rightarrow> layout" where
  "drop_lead_free vs = (case vs of (r, False) # ws \<Rightarrow> ws | _ \<Rightarrow> vs)"

definition trail_free :: "layout \<Rightarrow> nat" where
  "trail_free us = (if us = [] \<or> snd (last us) then 0 else fst (last us))"

definition drop_trail_free :: "layout \<Rightarrow> layout" where
  "drop_trail_free us = (if us = [] \<or> snd (last us) then us else butlast us)"

lemma lead_free_simps [simp]:
  "lead_free [] = 0" "lead_free ((r, True) # vs) = 0" "lead_free ((r, False) # vs) = r"
  "drop_lead_free [] = []" "drop_lead_free ((r, True) # vs) = (r, True) # vs" "drop_lead_free ((r, False) # vs) = vs"
  by (simp_all add: lead_free_def drop_lead_free_def)

lemma trail_free_simps [simp]:
  "trail_free [] = 0" "trail_free (us @ [(r, True)]) = 0" "trail_free (us @ [(r, False)]) = r"
  "drop_trail_free [] = []" "drop_trail_free (us @ [(r, True)]) = us @ [(r, True)]" "drop_trail_free (us @ [(r, False)]) = us"
  by (simp_all add: trail_free_def drop_trail_free_def)

lemma lead_split: "left_over (lead_free vs) @ drop_lead_free vs = vs" if "sizes_pos vs"
  using that by (cases vs) (auto simp: lead_free_def drop_lead_free_def left_over_def split: bool.splits)

lemma trail_split: "drop_trail_free us @ left_over (trail_free us) = us" if "sizes_pos us"
  using that by (cases us rule: rev_cases) (auto simp: trail_free_def drop_trail_free_def left_over_def)

lemma extent_lead: "lead_free vs + extent (drop_lead_free vs) = extent vs"
  by (auto simp: lead_free_def drop_lead_free_def split: list.splits bool.splits prod.splits)

lemma extent_trail: "extent (drop_trail_free us) + trail_free us = extent us"
  by (cases us rule: rev_cases) (auto simp: trail_free_def drop_trail_free_def)

lemma starts_lead: "starts (z + lead_free vs) (drop_lead_free vs) \<subseteq> starts z vs"
  by (auto simp: lead_free_def drop_lead_free_def split: list.splits bool.splits prod.splits)

lemma starts_trail: "starts 0 (drop_trail_free us) \<subseteq> starts 0 us"
  by (cases us rule: rev_cases) (auto simp: drop_trail_free_def starts_append)

lemma coalesced_lead: "coalesced vs \<Longrightarrow> coalesced (drop_lead_free vs) \<and> (drop_lead_free vs = [] \<or> snd (hd (drop_lead_free vs)))"
  by (cases vs rule: list.exhaust) (auto simp: drop_lead_free_def coalesced_Cons split: bool.splits)

lemma coalesced_trail: "coalesced us \<Longrightarrow> coalesced (drop_trail_free us) \<and> (drop_trail_free us = [] \<or> snd (last (drop_trail_free us)))"
  by (cases us rule: rev_cases) (auto simp: drop_trail_free_def coalesced_append)

lemma same_envD: "same_env s s' \<Longrightarrow> base_address s' = base_address s"
  "same_env s s' \<Longrightarrow> allocated_space s' = allocated_space s" "same_env s s' \<Longrightarrow> env s' = env s"
  by (simp_all add: same_env_def)

lemma sizeof_le: "unat SIZEOF_ChunkHeader \<le> 32" "unat SIZEOF_FreeChunkHeader \<le> 32"
  by (simp_all add: SIZEOF_ChunkHeader_def SIZEOF_FreeChunkHeader_def)

section \<open>Merging with the neighbours\<close>

lemma absorb_next_ok:
  assumes g: "gap_inv T s us z vs" and t: "\<And>e. total_space ops e = sz T" and n: "n < 2 ^ 27"
  shows "\<exists>s'. absorb_next ops c s (gptr (base_address s) z) (sz n) = Some (sz (n + lead_free vs), s') \<and>
    moved T us z vs us (z + lead_free vs) (drop_lead_free vs) s s'"
proof -
  note d = gap_invD [OF g]
  note e = end_of_address_space_eq [OF t d(10)]
  have z: "z \<le> T" using d(2) by simp
  have self: "moved T us z vs us z vs s s" using g by (simp add: moved_def)
  show ?thesis
  proof (cases vs)
    case Nil
    then have "z = T" using d(2) by simp
    then show ?thesis using self Nil by (simp add: absorb_next_def e)
  next
    case (Cons k ws)
    obtain r a where k: "k = (r, a)" by (cases k)
    have g': "gap_inv T s us z ((r, a) # ws)" using g Cons k by simp
    note x = gap_right [OF g']
    have "paranoid_check_access c s (gptr (base_address s) z) SIZEOF_ChunkHeader = Some ()"
      by (rule paranoid_check_access_ok [OF d(8,9) x(2)]) (simp add: SIZEOF_ChunkHeader_def)
    then have run: "absorb_next ops c s (gptr (base_address s) z) (sz n) =
        (if \<not> a then do {
           s \<leftarrow> unregister_free_space c s (gptr (base_address s) z) (bi (bin_of r));
           Some (sz (n + r), s) } else Some (sz n, s))"
      using x(4,5,6) n gptr_less_iff [OF d(8) z order_refl]
      by (simp add: absorb_next_def e gets_gptr [OF d(8) z] size_to_bin_round_down_eq Size_unchecked_add_sz)
    show ?thesis
    proof (cases a)
      case True
      then show ?thesis using run self Cons k by simp
    next
      case False
      then have "gap_inv T s us z ((r, False) # ws)" using g' by simp
      then show ?thesis using run gap_take_right [of T s us z r ws c] False Cons k by auto
    qed
  qed
qed

lemma free_merge_prev_ok:
  assumes g: "gap_inv T s us z vs" and n: "n < 2 ^ 27"
  shows "\<exists>s'. free_merge_prev c s (gptr (base_address s) (extent us)) (sz (last_size 0 us)) (sz n) =
      Some (gptr (base_address s) (extent (drop_trail_free us)), sz (last_size 0 (drop_trail_free us)),
        sz (n + trail_free us), s') \<and>
    moved T us z vs (drop_trail_free us) z vs s s'"
proof -
  note d = gap_invD [OF g]
  have x: "extent us \<le> T" "extent us < 2 ^ 32" using d(1,2,10) by simp_all
  note off = from_pointer_and_base_gptr [OF d(8) x(1), of c]
  have self: "moved T us z vs us z vs s s" using g by (simp add: moved_def)
  show ?thesis
  proof (cases us rule: rev_cases)
    case Nil
    then show ?thesis using self off by (simp add: free_merge_prev_def)
  next
    case (snoc ws k)
    obtain r a where k: "k = (r, a)" by (cases k)
    have g': "gap_inv T s (ws @ [(r, a)]) z vs" using g snoc k by simp
    note y = gap_left [OF g']
    have yT: "extent ws \<le> T" using y(7) by simp
    have acc: "paranoid_check_access c s (gptr (base_address s) (extent ws)) SIZEOF_ChunkHeader = Some ()"
      by (rule paranoid_check_access_ok [OF d(8,9) y(2)]) (simp add: SIZEOF_ChunkHeader_def)
    have sub: "Pointer_unchecked_sub (gptr (base_address s) (extent ws + r)) (sz r) = gptr (base_address s) (extent ws)"
      using y(4) by (simp add: gptr_sub)
    have run: "free_merge_prev c s (gptr (base_address s) (extent us)) (sz (last_size 0 us)) (sz n) =
        (if \<not> a then do {
           s' \<leftarrow> unregister_free_space c s (gptr (base_address s) (extent ws)) (bi (bin_of r));
           Some (gptr (base_address s) (extent ws), sz (last_size 0 ws), sz (n + r), s') }
         else Some (gptr (base_address s) (extent us), sz r, sz n, s))"
      using off x(2) y n acc snoc k
      by (simp add: free_merge_prev_def Let_def sub gets_gptr [OF d(8) yT] size_to_bin_round_down_eq Size_unchecked_add_sz)
    show ?thesis
    proof (cases a)
      case True
      then show ?thesis using run self snoc k by simp
    next
      case False
      then have "gap_inv T s (ws @ [(r, False)]) z vs" using g' by simp
      then show ?thesis using run gap_take_left [of T s ws r z vs c] False snoc k by auto
    qed
  qed
qed

section \<open>Freeing\<close>

definition freed :: "layout \<Rightarrow> nat \<Rightarrow> layout \<Rightarrow> layout" where
  "freed us n vs =
     drop_trail_free us @ (n + trail_free us + lead_free vs, False) # drop_lead_free vs"

text \<open>Closing a gap with a free chunk: register it, and record its size in what follows.\<close>

lemma gap_fill:
  assumes g: "gap_inv T s us z vs" and n: "0 < n" "extent us + n = z" "extent us < units (allocated_space s)"
    and k: "coalesced (us @ (n, False) # vs)" and t: "\<And>e. total_space ops e = sz T" and w: "unat w \<le> 32"
  shows "\<exists>v s\<^sub>1 s'. register_free_space c s (gptr (base_address s) (extent us)) (sz (last_size 0 us)) (sz n) = Some (v, s\<^sub>1) \<and>
    record_prev ops c s\<^sub>1 (gptr (base_address s) z) w (sz n) = Some s' \<and>
    heap_inv T s' (us @ (n, False) # vs) \<and> same_env s s' \<and>
    framed (base_address s) (insert (extent us) (gap_starts us z vs)) (mem s) (mem s')"
proof -
  obtain s1 where s1: "register_free_space c s (gptr (base_address s) (extent us)) (sz (last_size 0 us)) (sz n) =
      Some (sz (last_size 0 (us @ left_over n)), s1)" "moved T us z vs (us @ left_over n) z vs s s1"
    using gap_put [OF g, of n c] n by auto
  have g1: "gap_inv T s1 (us @ [(n, False)]) z vs" and e1: "same_env s s1"
    and f1: "framed (base_address s) (gap_starts us z vs \<union> gap_starts (us @ [(n, False)]) z vs) (mem s) (mem s1)"
    using s1(2) n(1) by (simp_all add: moved_def)
  have z: "extent (us @ [(n, False)]) = z" using n(2) by simp
  have k': "coalesced ((us @ [(n, False)]) @ vs)" using k by simp
  obtain s2 where s2: "record_prev ops c s1 (gptr (base_address s1) z) w (sz n) = Some s2"
    "heap_inv T s2 ((us @ [(n, False)]) @ vs)" "same_env s1 s2"
    "framed (base_address s1) (gap_starts (us @ [(n, False)]) z vs) (mem s1) (mem s2)"
    using gap_close [of T s1 "us @ [(n, False)]" vs ops w c, OF _ k' t w] g1 unfolding z by auto
  have "framed (base_address s) (insert (extent us) (gap_starts us z vs)) (mem s) (mem s2)"
    using framed_trans [OF f1 s2(4) [unfolded same_envD [OF e1]]]
    by (rule framed_mono) (auto simp: gap_starts_def starts_append)
  then show ?thesis
    using s1(1) s2 same_env_trans [OF e1 s2(3)] same_envD [OF e1] by simp
qed

theorem free_chunk_ok:
  assumes h: "heap_inv T s (us @ (n, True) # vs)" and t: "\<And>e. total_space ops e = sz T"
  shows "\<exists>s'. free ops c s (data_ptr (base_address s) (extent us)) = Some s' \<and> heap_inv T s' (freed us n vs) \<and>
    same_env s s' \<and> framed (base_address s) (starts 0 (us @ (n, True) # vs)) (mem s) (mem s')"
proof -
  let ?b = "base_address s" and ?z = "extent us + n" and ?us = "drop_trail_free us" and ?vs = "drop_lead_free vs"
  let ?n = "n + trail_free us + lead_free vs"
  note i = heap_invD [OF h] and k = heap_inv_at [OF h]
  have x: "extent us \<le> T" using k(3) by simp
  have "gap_inv T s (us @ [(n, True)]) ?z vs" using gap_open [of T s "us @ [(n, True)]" vs] h by simp
  then have g0: "gap_inv T s us ?z vs" by (rule gap_forget)
  obtain s1 where s1: "free_merge_prev c s (gptr ?b (extent us)) (sz (last_size 0 us)) (sz n) =
      Some (gptr ?b (extent ?us), sz (last_size 0 ?us), sz (n + trail_free us), s1)"
    "moved T us ?z vs ?us ?z vs s s1"
    using free_merge_prev_ok [OF g0 k(4)] by blast
  then have g1: "gap_inv T s1 ?us ?z vs" and e1: "same_env s s1"
    and f1: "framed ?b (gap_starts us ?z vs \<union> gap_starts ?us ?z vs) (mem s) (mem s1)" by (simp_all add: moved_def)
  note b1 = same_envD [OF e1]
  have m: "extent ?us + (n + trail_free us) = ?z" using extent_trail [of us] by simp
  then have n1: "n + trail_free us < 2 ^ 27" using k(3) i(8) by simp
  obtain s2 where s2: "absorb_next ops c s1 (gptr ?b ?z) (sz (n + trail_free us)) = Some (sz ?n, s2)"
    "moved T ?us ?z vs ?us (?z + lead_free vs) ?vs s1 s2"
    using absorb_next_ok [OF g1 t n1, of c] unfolding b1 by blast
  then have g2: "gap_inv T s2 ?us (?z + lead_free vs) ?vs" and e2: "same_env s1 s2"
    and f2: "framed ?b (gap_starts ?us ?z vs \<union> gap_starts ?us (?z + lead_free vs) ?vs) (mem s1) (mem s2)"
    by (simp_all add: moved_def b1)
  note b2 = same_envD [OF e2]
  have n0: "0 < ?n" using k(1) by simp
  have n2: "extent ?us + ?n = ?z + lead_free vs" using m by simp
  have A: "extent ?us < units (allocated_space s2)" using k(2) extent_trail [of us] b1 b2 by simp
  have co: "coalesced (?us @ (?n, False) # ?vs)"
    using i(6) coalesced_trail [of us] coalesced_lead [of vs]
    by (auto simp: coalesced_append coalesced_Cons)
  obtain v s4 s3 where s4: "register_free_space c s2 (gptr ?b (extent ?us)) (sz (last_size 0 ?us)) (sz ?n) = Some (v, s4)"
      "record_prev ops c s4 (gptr ?b (?z + lead_free vs)) SIZEOF_FreeChunkHeader (sz ?n) = Some s3"
    and s3: "heap_inv T s3 (?us @ (?n, False) # ?vs)" "same_env s2 s3"
    "framed ?b (insert (extent ?us) (gap_starts ?us (?z + lead_free vs) ?vs)) (mem s2) (mem s3)"
    using gap_fill [OF g2 n0 n2 A co t sizeof_le(2), of c] unfolding b2 b1 by blast
  note b3 = same_envD [OF s3(2)]
  have add: "Pointer_unchecked_add (gptr ?b (extent ?us)) (sz (n + trail_free us)) = gptr ?b ?z"
    "Pointer_unchecked_add (gptr ?b (extent ?us)) (sz ?n) = gptr ?b (?z + lead_free vs)"
    using n1 i(4,8) k(3) extent_lead [of vs] extent_trail [of us] by (simp_all add: gptr_add gptr_sub m n2)
  have chk: "paranoid_check_chunk ops c s (gptr ?b (extent us)) = Some ()"
    using paranoid_check_chunk_ok [OF h t] .
  have chk3: "paranoid_check_chunk ops c s3 (gptr ?b (extent ?us)) = Some ()"
    using paranoid_check_chunk_ok [OF s3(1) t] b1 b2 b3 by simp
  have run: "free ops c s (data_ptr ?b (extent us)) = Some s3"
    using chk chk3 k(4,6,7) region_okD(4) [OF i(1)] s1(1) s2(1) s4 b1
    by (simp add: free_def add gets_gptr [OF i(1) x])
  have "framed ?b (starts 0 (us @ (n, True) # vs)) (mem s) (mem s3)"
  proof (rule framed_mono [OF framed_trans [OF framed_trans [OF f1 f2] s3(3)]])
    have "extent ?us \<in> starts 0 (us @ (n, True) # vs)"
      by (cases us rule: rev_cases) (auto simp: drop_trail_free_def starts_append)
    then show "gap_starts us ?z vs \<union> gap_starts ?us ?z vs \<union>
        (gap_starts ?us ?z vs \<union> gap_starts ?us (?z + lead_free vs) ?vs) \<union>
        insert (extent ?us) (gap_starts ?us (?z + lead_free vs) ?vs) \<subseteq> starts 0 (us @ (n, True) # vs)"
      using starts_trail [of us] starts_lead [of ?z vs] by (auto simp: gap_starts_def starts_append)
  qed
  then show ?thesis
    using run s3(1) same_env_trans [OF same_env_trans [OF e1 e2] s3(2)] unfolding freed_def by blast
qed

section \<open>Shrinking\<close>

definition shrunk :: "layout \<Rightarrow> nat \<Rightarrow> nat \<Rightarrow> layout \<Rightarrow> layout" where
  "shrunk us n k vs =
     us @ (Suc k, True) # (n - Suc k + lead_free vs, False) # drop_lead_free vs"

lemma shrink_inplace_keeps:
  assumes h: "heap_inv T s (us @ (n, True) # vs)" and t: "\<And>e. total_space ops e = sz T"
    and k: "0 < k" "n \<le> Suc k" "Suc k < 2 ^ 32"
  shows "shrink_inplace ops c s (data_ptr (base_address s) (extent us)) (sz k) = Some s"
proof -
  note i = heap_invD [OF h] and x = heap_inv_at [OF h]
  have xT: "extent us \<le> T" using x(3) by simp
  have "Size_unchecked_add c (sz k) (sz (Suc 0)) = Some (sz (Suc k))" using k(3) Size_unchecked_add_sz [of k 1] by simp
  moreover have "sz n \<le> sz (Suc k)" using k x(4) by (simp add: Size_le_iff)
  ultimately show ?thesis
    using x(4,7) k(1,3) paranoid_check_chunk_ok [OF h t]
    by (simp add: shrink_inplace_def gets_gptr [OF i(1) xT])
qed

lemma shrink_inplace_empty:
  "shrink_inplace ops c s p (sz 0) = free ops c s p"
  by (simp add: shrink_inplace_def)

theorem shrink_inplace_ok:
  assumes h: "heap_inv T s (us @ (n, True) # vs)" and t: "\<And>e. total_space ops e = sz T"
    and k: "0 < k" "Suc k < n"
  shows "\<exists>s'. shrink_inplace ops c s (data_ptr (base_address s) (extent us)) (sz k) = Some s' \<and>
    heap_inv T s' (shrunk us n k vs) \<and> same_env s s' \<and>
    framed (base_address s) (starts 0 (us @ (n, True) # vs) \<union> starts 0 (shrunk us n k vs)) (mem s) (mem s')"
proof -
  let ?b = "base_address s" and ?x = "extent us" and ?z = "extent us + n" and ?vs = "drop_lead_free vs"
  let ?us = "us @ [(Suc k, True)]" and ?n = "n - Suc k + lead_free vs"
  note i = heap_invD [OF h] and x = heap_inv_at [OF h]
  have xT: "?x \<le> T" using x(3) by simp
  have g0: "gap_inv T s (us @ [(n, True)]) ?z vs" using gap_open [of T s "us @ [(n, True)]" vs] h by simp
  obtain m1 where m1: "set_size c (mem s) (gptr ?b ?x) (packed (Suc k) True) = Some m1"
    "moved T (us @ [(n, True)]) ?z vs ?us ?z vs s (s\<lparr>mem := m1\<rparr>)"
    using gap_resize_left [OF g0, of "Suc k" c] k x(5) by auto
  let ?s1 = "s\<lparr>mem := m1\<rparr>"
  have g1: "gap_inv T ?s1 ?us ?z vs" and e1: "same_env s ?s1"
    and f1: "framed ?b (gap_starts (us @ [(n, True)]) ?z vs \<union> gap_starts ?us ?z vs) (mem s) m1"
    using m1(2) by (simp_all add: moved_def)
  have n1: "n - Suc k < 2 ^ 27" using x(4) by simp
  obtain s2 where s2: "absorb_next ops c ?s1 (gptr ?b ?z) (sz (n - Suc k)) = Some (sz ?n, s2)"
    "moved T ?us ?z vs ?us (?z + lead_free vs) ?vs ?s1 s2"
    using absorb_next_ok [OF g1 t n1, of c] by auto
  then have g2: "gap_inv T s2 ?us (?z + lead_free vs) ?vs" and e2: "same_env ?s1 s2"
    and f2: "framed ?b (gap_starts ?us ?z vs \<union> gap_starts ?us (?z + lead_free vs) ?vs) m1 (mem s2)"
    by (simp_all add: moved_def)
  have b2: "base_address s2 = ?b" "allocated_space s2 = allocated_space s" using same_envD [OF e2] by simp_all
  have n0: "0 < ?n" and n2: "extent ?us + ?n = ?z + lead_free vs" using k by simp_all
  have A: "extent ?us < units (allocated_space s2)" using x(5) k b2 by simp
  have co: "coalesced (?us @ (?n, False) # ?vs)"
    using i(6) coalesced_lead [of vs] by (auto simp: coalesced_append coalesced_Cons)
  obtain v s4 s3 where s4: "register_free_space c s2 (gptr ?b (extent ?us)) (sz (last_size 0 ?us)) (sz ?n) = Some (v, s4)"
      "record_prev ops c s4 (gptr ?b (?z + lead_free vs)) SIZEOF_ChunkHeader (sz ?n) = Some s3"
    and s3: "heap_inv T s3 (?us @ (?n, False) # ?vs)" "same_env s2 s3"
    "framed ?b (insert (extent ?us) (gap_starts ?us (?z + lead_free vs) ?vs)) (mem s2) (mem s3)"
    using gap_fill [OF g2 n0 n2 A co t sizeof_le(1), of c] unfolding b2 by blast
  have b3: "base_address s3 = ?b" using same_envD [OF s3(2)] b2 by simp
  have sT: "Suc k < 2 ^ 27" "?n < 2 ^ 27" "n < 2 ^ 27" using x(3,4) i(4,8) k extent_lead [of vs] by simp_all
  have add: "Pointer_unchecked_add (gptr ?b ?x) (sz n) = gptr ?b ?z"
    "Pointer_unchecked_add (gptr ?b ?x) (sz (Suc k)) = gptr ?b (Suc (?x + k))"
    "Pointer_unchecked_add (gptr ?b (Suc (?x + k))) (sz ?n) = gptr ?b (?z + lead_free vs)"
    using sT k by (simp_all add: gptr_add add.assoc)
  have ar: "Size_unchecked_add c (sz k) HEADER_SIZE = Some (sz (Suc k))"
    "Size_unchecked_sub c (sz n) (sz (Suc k)) = Some (sz (n - Suc k))" "\<not> sz n \<le> sz (Suc k)"
    using sT k Size_unchecked_add_sz [of k 1 c] Size_unchecked_sub_sz [of "Suc k" n c] by (simp_all add: Size_le_iff)
  have en: "end_of_address_space ops ?s1 = end_of_address_space ops s" by (simp add: end_of_address_space_def)
  have chk: "paranoid_check_chunk ops c s (gptr ?b ?x) = Some ()"
    using paranoid_check_chunk_ok [OF h t] .
  have h3: "heap_inv T s3 (us @ (Suc k, True) # (?n, False) # ?vs)" using s3(1) by simp
  have chk3: "paranoid_check_chunk ops c s3 (gptr ?b ?x) = Some ()"
    "paranoid_check_chunk ops c s3 (gptr ?b (?x + Suc k)) = Some ()"
    "paranoid_check_chunk ops c s3 (gptr ?b (?z + lead_free vs)) = Some ()"
    using paranoid_check_chunk_ok [OF h3 t, of c] paranoid_check_chunk_ok [OF s3(1) t, of c] n2 b3
      paranoid_check_chunk_ok [of T s3 "?us @ [(?n, False)]" ?vs ops c, OF _ t] s3(1)
    by (simp_all add: add.assoc)
  have run: "shrink_inplace ops c s (data_ptr ?b ?x) (sz k) = Some s3"
    using chk chk3 k(1) x(7) sT m1(1) s2(1) s4
    by (simp add: shrink_inplace_def gets_gptr [OF i(1) xT] add ar new_allocated_sz Let_def del: HEADER_SIZE_eq)
  have "framed ?b (starts 0 (us @ (n, True) # vs) \<union> starts 0 (shrunk us n k vs)) (mem s) (mem s3)"
    using framed_trans [OF framed_trans [OF f1 f2] s3(3)]
    by (rule framed_mono) (use starts_lead [of ?z vs] in \<open>auto simp: gap_starts_def starts_append shrunk_def\<close>)
  moreover have "same_env s s3" using same_env_trans [OF same_env_trans [OF e1 e2] s3(2)] .
  ultimately show ?thesis using run h3 unfolding shrunk_def by blast
qed

end
