(* ===== verification/Growth.thy ===== *)
theory Growth
  imports Deallocation
begin

text \<open>
  Growing the mapped part of the address space keeps the invariant and everything stored, and a
  write inside an allocation leaves every header alone; with these, \<^verbatim>\<open>grow_inplace\<close> is a move of
  gaps like the operations before.
\<close>

section \<open>More memory\<close>

lemma load_bytes_mono: "load_bytes m a n = Some bs \<Longrightarrow> m \<subseteq>\<^sub>m m' \<Longrightarrow> load_bytes m' a n = Some bs"
proof (induction m a n arbitrary: bs rule: load_bytes.induct)
  case (2 m a n)
  then obtain b bs' where b: "m a = Some b" "load_bytes m (a + 1) n = Some bs'" "bs = b # bs'"
    by (auto simp: bind_eq_Some_conv)
  moreover have "m' a = Some b" using b(1) 2(3) by (metis domI map_le_def)
  ultimately show ?case using 2(1) [of b] 2(3) by simp
qed simp

lemma header_views_mono:
  assumes "m \<subseteq>\<^sub>m m'"
  shows "hprev m b x = Some v \<Longrightarrow> hprev m' b x = Some v" "hsize m b x = Some k \<Longrightarrow> hsize m' b x = Some k"
    "hnext m b x = Some p \<Longrightarrow> hnext m' b x = Some p" "hback m b x = Some p \<Longrightarrow> hback m' b x = Some p"
  using load_bytes_mono [OF _ assms] by (auto simp: header_views load_u32_def load_u64_def)

lemma dseg_mono: "dseg m b q p xs q' r \<Longrightarrow> m \<subseteq>\<^sub>m m' \<Longrightarrow> dseg m' b q p xs q' r"
  by (induction xs arbitrary: q p) (auto dest: header_views_mono)

lemma heads_mono: "heads m b A x p ks \<Longrightarrow> m \<subseteq>\<^sub>m m' \<Longrightarrow> A \<le> A' \<Longrightarrow> heads m' b A' x p ks"
  by (induction m b A x p ks rule: heads.induct) (auto dest: header_views_mono)

lemma lists_ok_grow:
  assumes "lists_ok T F s" and m: "mem s \<subseteq>\<^sub>m m'" and A: "units (allocated_space s) \<le> A'" "A' \<le> T"
    and k: "mapped_until m' (base_address s) A'"
  shows "lists_ok T F (s\<lparr>env := e', mem := m', allocated_space := sz A'\<rparr>)"
proof -
  obtain L where l: "lists_by T F L s" using assms(1) unfolding lists_ok_def by blast
  have u: "units (sz A') = A'" using A(2) region_okD(3) [OF lists_byD(1) [OF l]] by simp
  have "0 < n \<and> n < 2 ^ 27 \<and> x < A' \<and> hsize m' (base_address s) x = Some (packed n False)" if "F x = Some n" for x n
    using lists_by_chunk [OF l that] A(1) header_views_mono(2) [OF m] by auto
  moreover have "distinct (L i) \<and> set (L i) = members F i \<and>
      (\<exists>q. dseg m' (base_address s) NULL (first_in_free_list s ! i) (L i) q NULL)" if "i < 2432" for i
    using lists_by_list [OF l that] dseg_mono [OF _ m] by blast
  ultimately have "lists_by T F L (s\<lparr>env := e', mem := m', allocated_space := sz A'\<rparr>)"
    using lists_byD [OF l] A(2) k u unfolding lists_by_def Let_def by simp
  then show ?thesis unfolding lists_ok_def by blast
qed

lemma heap_inv_grow:
  assumes h: "heap_inv T s ks" and m: "mem s \<subseteq>\<^sub>m m'" and A: "units (allocated_space s) \<le> A'" "A' \<le> T"
    and k: "mapped_until m' (base_address s) A'"
  shows "heap_inv T (s\<lparr>env := e', mem := m', allocated_space := sz A'\<rparr>) ks"
proof -
  note i = heap_invD [OF h]
  have "units (sz A') = A'" using A(2) i(8) by simp
  then show ?thesis
    using lists_ok_grow [OF i(7) m A k] heads_mono [OF i(9) m A(1)] i(4,6) by (simp add: heap_inv_def)
qed

text \<open>Only the environment, the memory and the mapped size change, and memory only grows.\<close>

definition expanded :: "'e machine \<Rightarrow> 'e machine \<Rightarrow> bool" where
  "expanded s s' \<longleftrightarrow> mem s \<subseteq>\<^sub>m mem s' \<and> allocated_space s \<le> allocated_space s' \<and>
     s' = s\<lparr>env := env s', mem := mem s', allocated_space := allocated_space s'\<rparr>"

lemma expanded_refl [simp]: "expanded s s"
  by (simp add: expanded_def)

lemma expandedD:
  assumes "expanded s s'"
  shows "mem s \<subseteq>\<^sub>m mem s'" "base_address s' = base_address s" "first_in_free_list s' = first_in_free_list s"
    "units (allocated_space s) \<le> units (allocated_space s')"
proof -
  have e: "s' = s\<lparr>env := env s', mem := mem s', allocated_space := allocated_space s'\<rparr>"
    using assms unfolding expanded_def by blast
  show "base_address s' = base_address s" "first_in_free_list s' = first_in_free_list s"
    by (subst e, simp)+
  show "mem s \<subseteq>\<^sub>m mem s'" "units (allocated_space s) \<le> units (allocated_space s')"
    using assms by (simp_all add: expanded_def Size_le_iff)
qed

text \<open>Some amount of space within the address space was asked for, with this outcome.\<close>

definition ensured :: "'e env_ops \<Rightarrow> nat \<Rightarrow> 'e machine \<Rightarrow> bool \<Rightarrow> 'e machine \<Rightarrow> bool" where
  "ensured ops T s r s' \<longleftrightarrow> (\<exists>n \<le> T. ensure_space ops s (sz n) = Some (r, s'))"

lemma ensuredI: "ensure_space ops s (sz n) = Some (r, s') \<Longrightarrow> n \<le> T \<Longrightarrow> ensured ops T s r s'"
  unfolding ensured_def by blast

lemma ensured_refused: "ensured ops T s False s' \<Longrightarrow> s' = s\<lparr>env := env s', mem := mem s'\<rparr>"
  unfolding ensured_def ensure_space_def Let_def by (auto simp: bind_eq_Some_conv split: if_splits)

context env_contract
begin

lemma ensure_space_ok:
  assumes h: "heap_ok env_ok T s ks" and n: "n \<le> T"
  shows "\<exists>r s'. ensure_space ops s (sz n) = Some (r, s') \<and> heap_ok env_ok T s' ks \<and> expanded s s' \<and>
    (r \<longrightarrow> n \<le> units (allocated_space s'))"
proof -
  have inv: "heap_inv T s ks" and e: "env_ok (env s) (mem s) (base_address s)" using h by (simp_all add: heap_ok_def)
  note i = heap_invD [OF inv]
  have n32: "n < 2 ^ 32" using n i(8) by simp
  show ?thesis
  proof (cases "allocated_space s < sz n")
    case False
    then have "n \<le> units (allocated_space s)" using n32 by (simp add: Size_less_iff)
    then show ?thesis using False h by (auto simp: ensure_space_def)
  next
    case True
    obtain r e' m' where x: "expand_memory_until ops (env s) (mem s) (base_address s) (sz n) = Some (r, e', m')"
      "mem s \<subseteq>\<^sub>m m'" "env_ok e' m' (base_address s)" "r \<longrightarrow> mapped_until m' (base_address s) n"
      using expand_ok [OF e n] by blast
    show ?thesis
    proof (cases r)
      case True
      let ?s = "s\<lparr>env := e', mem := m', allocated_space := sz n\<rparr>"
      have lt: "units (allocated_space s) \<le> n" using \<open>allocated_space s < sz n\<close> n32 by (simp add: Size_less_iff)
      have "heap_ok env_ok T ?s ks"
        using heap_inv_grow [OF inv x(2) lt n] x(3,4) True by (simp add: heap_ok_def)
      moreover have "expanded s ?s" using x(2) lt n32 by (auto simp: expanded_def Size_le_iff)
      ultimately show ?thesis using x(1) True \<open>allocated_space s < sz n\<close> n32 by (auto simp: ensure_space_def)
    next
      case False
      let ?s = "s\<lparr>env := e', mem := m'\<rparr>"
      have "heap_inv T (s\<lparr>env := e', mem := m', allocated_space := sz (units (allocated_space s))\<rparr>) ks"
        by (rule heap_inv_grow [OF inv x(2) order_refl i(2) mapped_until_grow [OF i(3) x(2)]])
      moreover have "s\<lparr>env := e', mem := m', allocated_space := sz (units (allocated_space s))\<rparr> = ?s" by simp
      ultimately have "heap_ok env_ok T ?s ks" using x(3) by (simp add: heap_ok_def)
      moreover have "expanded s ?s" using x(2) by (simp add: expanded_def)
      ultimately show ?thesis using x(1) False \<open>allocated_space s < sz n\<close> by (auto simp: ensure_space_def)
    qed
  qed
qed

end

section \<open>Growing in place\<close>

definition grown :: "layout \<Rightarrow> nat \<Rightarrow> nat \<Rightarrow> layout \<Rightarrow> layout" where
  "grown us n k vs =
     (if Suc k \<le> n then us @ (n, True) # vs
      else us @ (Suc k, True) # left_over (n + lead_free vs - Suc k) @ drop_lead_free vs)"

text \<open>The move once the space is there: the free neighbour is taken out and the rest put back.\<close>

lemma grow_moves:
  assumes h: "heap_inv T s (us @ (n, True) # (r, False) # ws)" and t: "\<And>e. total_space ops e = sz T"
    and k: "n < Suc k" "Suc k \<le> n + r" "extent us + Suc k \<le> units (allocated_space s)"
      "Suc k < n + r \<Longrightarrow> extent us + Suc k < units (allocated_space s)"
  shows "\<exists>s1 m2 v s3 s4.
    unregister_free_space c s (gptr (base_address s) (extent us + n)) (bi (bin_of r)) = Some s1 \<and>
    set_size c (mem s1) (gptr (base_address s) (extent us)) (packed (Suc k) True) = Some m2 \<and>
    register_free_space c (s1\<lparr>mem := m2\<rparr>) (gptr (base_address s) (extent us + Suc k)) (sz (Suc k)) (sz (n + r - Suc k)) =
      Some (v, s3) \<and>
    record_prev ops c s3 (gptr (base_address s) (extent us + (n + r))) SIZEOF_ChunkHeader v = Some s4 \<and>
    heap_inv T s4 (us @ (Suc k, True) # left_over (n + r - Suc k) @ ws) \<and> same_env s s4 \<and>
    framed (base_address s) (starts 0 (us @ (n, True) # (r, False) # ws) \<union>
      starts 0 (us @ (Suc k, True) # left_over (n + r - Suc k) @ ws)) (mem s) (mem s4)"
proof -
  let ?b = "base_address s" and ?x = "extent us" and ?z = "extent us + n + r" and ?q = "n + r - Suc k"
  let ?us = "us @ [(Suc k, True)]"
  note i = heap_invD [OF h]
  have g0: "gap_inv T s (us @ [(n, True)]) (?x + n) ((r, False) # ws)"
    using gap_open [of T s "us @ [(n, True)]" "(r, False) # ws"] h by simp
  obtain s1 where s1: "unregister_free_space c s (gptr ?b (?x + n)) (bi (bin_of r)) = Some s1"
    "moved T (us @ [(n, True)]) (?x + n) ((r, False) # ws) (us @ [(n, True)]) ?z ws s s1"
    using gap_take_right [OF g0] by blast
  then have g1: "gap_inv T s1 (us @ [(n, True)]) ?z ws" and e1: "same_env s s1"
    and f1: "framed ?b (gap_starts (us @ [(n, True)]) (?x + n) ((r, False) # ws) \<union>
      gap_starts (us @ [(n, True)]) ?z ws) (mem s) (mem s1)" by (simp_all add: moved_def)
  note b1 = same_envD [OF e1]
  obtain m2 where m2: "set_size c (mem s1) (gptr ?b ?x) (packed (Suc k) True) = Some m2"
    "moved T (us @ [(n, True)]) ?z ws ?us ?z ws s1 (s1\<lparr>mem := m2\<rparr>)"
    using gap_resize_left [OF g1, of "Suc k" c] k(2,3) b1 by auto
  let ?s2 = "s1\<lparr>mem := m2\<rparr>"
  have g2: "gap_inv T ?s2 ?us ?z ws" and e2: "same_env s1 ?s2"
    and f2: "framed ?b (gap_starts (us @ [(n, True)]) ?z ws \<union> gap_starts ?us ?z ws) (mem s1) m2"
    using m2(2) b1 by (simp_all add: moved_def)
  have q: "extent ?us + ?q \<le> ?z" "0 < ?q \<Longrightarrow> extent ?us < units (allocated_space ?s2)" using k b1 by simp_all
  obtain s3 where s3: "register_free_space c ?s2 (gptr ?b (extent ?us)) (sz (Suc k)) (sz ?q) =
      Some (sz (last_size 0 (?us @ left_over ?q)), s3)" "moved T ?us ?z ws (?us @ left_over ?q) ?z ws ?s2 s3"
    using gap_put [OF g2 q, of c] b1 by auto
  then have g3: "gap_inv T s3 (?us @ left_over ?q) ?z ws" and e3: "same_env ?s2 s3"
    and f3: "framed ?b (gap_starts ?us ?z ws \<union> gap_starts (?us @ left_over ?q) ?z ws) m2 (mem s3)"
    using b1 by (simp_all add: moved_def)
  have b3: "base_address s3 = ?b" using same_envD [OF e3] b1 by simp
  have z: "extent (?us @ left_over ?q) = ?z" using k(2) by simp
  have co: "coalesced ((?us @ left_over ?q) @ ws)"
    using i(6) by (auto simp: coalesced_append coalesced_Cons left_over_def)
  obtain s4 where s4: "record_prev ops c s3 (gptr ?b ?z) SIZEOF_ChunkHeader (sz (last_size 0 (?us @ left_over ?q))) = Some s4"
    "heap_inv T s4 ((?us @ left_over ?q) @ ws)" "same_env s3 s4"
    "framed ?b (gap_starts (?us @ left_over ?q) ?z ws) (mem s3) (mem s4)"
    using gap_close [of T s3 "?us @ left_over ?q" ws ops SIZEOF_ChunkHeader c, OF _ co t sizeof_le(1)] g3
    unfolding z b3 by blast
  have "framed ?b (starts 0 (us @ (n, True) # (r, False) # ws) \<union>
      starts 0 (us @ (Suc k, True) # left_over ?q @ ws)) (mem s) (mem s4)"
    using framed_trans [OF framed_trans [OF framed_trans [OF f1 f2] f3] s4(4)]
    by (rule framed_mono) (use k(2) in \<open>auto simp: gap_starts_def starts_append add.assoc\<close>)
  moreover have "same_env s s4"
    using same_env_trans [OF same_env_trans [OF same_env_trans [OF e1 e2] e3] s4(3)] .
  moreover have "gptr ?b (extent ?us) = gptr ?b (?x + Suc k)" "gptr ?b ?z = gptr ?b (?x + (n + r))" by (simp_all add: add.assoc)
  ultimately show ?thesis using s1(1) m2(1) s3(1) s4(1,2) by (metis append.assoc append_Cons append_Nil)
qed

text \<open>\<^verbatim>\<open>grow_inplace\<close> reads the two chunks and decides; these are its decisions on a layout.\<close>

lemma grow_inplace_enough:
  assumes h: "heap_inv T s (us @ (n, True) # vs)" and t: "\<And>e. total_space ops e = sz T" and k: "Suc k \<le> n"
  shows "grow_inplace ops c s (data_ptr (base_address s) (extent us)) (sz k) = Some (Some (sz (n - 1)), s)"
proof -
  note i = heap_invD [OF h] and x = heap_inv_at [OF h]
  have xT: "extent us \<le> T" using x(3) by simp
  have "Size_checked_add (sz k) HEADER_SIZE = Some (sz (Suc k))" using k x(4) by (simp add: Size_checked_add_eq)
  moreover have "sz (Suc k) \<le> sz n" using k x(4) by (simp add: Size_le_iff)
  moreover have "Size_unchecked_sub c (sz n) HEADER_SIZE = Some (sz (n - 1))"
    using Size_unchecked_sub_sz [of 1 n c] x(1,4) by simp
  ultimately show ?thesis
    using x(4,7) paranoid_check_chunk_ok [OF h t]
    by (simp add: grow_inplace_def gets_gptr [OF i(1) xT] del: HEADER_SIZE_eq)
qed

lemma grow_inplace_stuck:
  assumes h: "heap_inv T s (us @ (n, True) # vs)" and t: "\<And>e. total_space ops e = sz T"
    and k: "n < Suc k" "n + lead_free vs < Suc k" "k < 2 ^ 32"
  shows "grow_inplace ops c s (data_ptr (base_address s) (extent us)) (sz k) = Some (None, s)"
proof (cases "Suc k < 2 ^ 32")
  case False
  then show ?thesis using k(3) by (simp add: grow_inplace_def Size_checked_add_eq)
next
  case True
  note i = heap_invD [OF h] and x = heap_inv_at [OF h]
  have xT: "extent us \<le> T" using x(3) by simp
  note e = end_of_address_space_eq [where ops = ops and s = s, OF t i(8)]
  have a: "Size_checked_add (sz k) HEADER_SIZE = Some (sz (Suc k))" "\<not> sz (Suc k) \<le> sz n"
    "Pointer_unchecked_add (gptr (base_address s) (extent us)) (sz n) = gptr (base_address s) (extent us + n)"
    using True k(1) x(4) by (simp_all add: Size_checked_add_eq Size_le_iff gptr_add)
  note b = paranoid_check_chunk_ok [OF h t, of c] x(4,7)
  show ?thesis
  proof (cases vs)
    case Nil
    then have "extent us + n = T" using x(8) by simp
    then show ?thesis using a b by (simp add: grow_inplace_def gets_gptr [OF i(1) xT] e del: HEADER_SIZE_eq)
  next
    case (Cons v ws)
    obtain r d where v: "v = (r, d)" by (cases v)
    have h': "heap_inv T s ((us @ [(n, True)]) @ (r, d) # ws)" using h Cons v by simp
    note y = heap_inv_at [OF h']
    have "extent us + n < T" using x(3,8) Cons by auto
    then have lt: "\<not> gptr (base_address s) T \<le> gptr (base_address s) (extent us + n)"
      using gptr_le_iff [OF i(1) order_refl x(3)] by simp
    have chk: "paranoid_check_chunk ops c s (gptr (base_address s) (extent us + n)) = Some ()"
      using paranoid_check_chunk_ok [OF h' t, of c] by simp
    have hs: "hsize (mem s) (base_address s) (extent us + n) = Some (packed r d)" using y(7) by simp
    show ?thesis
    proof (cases d)
      case True
      then show ?thesis using a b chk lt hs
        by (simp add: grow_inplace_def gets_gptr [OF i(1) xT] gets_gptr [OF i(1) x(3)] e del: HEADER_SIZE_eq)
    next
      case False
      have "n + r < 2 ^ 32" using x(4) y(4) by simp
      then have "Size_unchecked_add c (sz n) (sz r) = Some (sz (n + r))" "sz (n + r) < sz (Suc k)"
        using k(2) Cons v False True \<open>Suc k < 2 ^ 32\<close> by (simp_all add: Size_unchecked_add_sz Size_less_iff)
      then show ?thesis using a b chk lt hs y(4) False
        by (simp add: grow_inplace_def gets_gptr [OF i(1) xT] gets_gptr [OF i(1) x(3)] e del: HEADER_SIZE_eq)
    qed
  qed
qed

context env_contract
begin

lemma grow_inplace_grows:
  assumes h: "heap_ok env_ok T s (us @ (n, True) # (r, False) # ws)" and k: "n < Suc k" "Suc k \<le> n + r"
  shows "\<exists>g s1 s'. grow_inplace ops c s (data_ptr (base_address s) (extent us)) (sz k) = Some (g, s') \<and>
    expanded s s1 \<and> heap_ok env_ok T s1 (us @ (n, True) # (r, False) # ws) \<and>
    (g = None \<and> s' = s1 \<and> ensured ops T s False s1 \<or>
     g = Some (sz k) \<and> ensured ops T s True s1 \<and> heap_ok env_ok T s' (us @ (Suc k, True) # left_over (n + r - Suc k) @ ws) \<and> same_env s1 s' \<and>
     framed (base_address s) (starts 0 (us @ (n, True) # (r, False) # ws) \<union>
       starts 0 (us @ (Suc k, True) # left_over (n + r - Suc k) @ ws)) (mem s1) (mem s'))"
proof -
  let ?b = "base_address s" and ?x = "extent us" and ?q = "n + r - Suc k" and ?ks = "us @ (n, True) # (r, False) # ws"
  let ?e = "if ?q = 0 then ?x + Suc k else Suc (?x + Suc k)"
  have inv: "heap_inv T s ?ks" using h by (simp add: heap_ok_def)
  note i = heap_invD [OF inv] and x = heap_inv_at [OF inv]
  have h': "heap_inv T s ((us @ [(n, True)]) @ (r, False) # ws)" using inv by simp
  note y = heap_inv_at [OF h']
  have xT: "?x \<le> T" "?x + n \<le> T" using x(3) by simp_all
  have end_T: "?x + n + r \<le> T" using y(3) by simp
  then have nT: "?x + Suc k \<le> T" "n + r \<le> T" and eT: "?e \<le> T" using k by auto
  have small: "Suc k < 2 ^ 27" "n + r < 2 ^ 27" "?q < 2 ^ 27" "?x + Suc k < 2 ^ 27" using nT k i(8) by simp_all
  have t: "\<And>e. total_space ops e = sz T" by (rule total_space_ok)
  note e = end_of_address_space_eq [where ops = ops and s = s, OF t i(8)]
  have lt: "\<not> gptr ?b T \<le> gptr ?b (?x + n)"
    using gptr_le_iff [OF i(1) order_refl xT(2)] end_T y(1) by simp
  have hs: "hsize (mem s) ?b (?x + n) = Some (packed r False)" using y(7) by simp
  have chk: "paranoid_check_chunk ops c s (gptr ?b ?x) = Some ()"
    "paranoid_check_chunk ops c s (gptr ?b (?x + n)) = Some ()"
    using paranoid_check_chunk_ok [OF inv t, of c] paranoid_check_chunk_ok [OF h' t, of c] by simp_all
  have ar: "Size_checked_add (sz k) HEADER_SIZE = Some (sz (Suc k))" "\<not> sz (Suc k) \<le> sz n"
    "Size_unchecked_add c (sz n) (sz r) = Some (sz (n + r))" "\<not> sz (n + r) < sz (Suc k)"
    "Size_unchecked_sub c (sz (n + r)) (sz (Suc k)) = Some (sz ?q)"
    "from_pointer_and_base_unchecked c (gptr ?b (Suc (?x + k))) (Pointer ?b) = Some (sz (Suc (?x + k)))"
    "(if \<not> Size_is_empty (sz ?q) then Size_unchecked_add c (sz (Suc (?x + k))) FREE_CHUNK_HEADER_SIZE
      else Some (sz (Suc (?x + k)))) = Some (sz ?e)"
    "Size_unchecked_sub c (sz (Suc k)) HEADER_SIZE = Some (sz k)"
    using small k x(4) y(4) nT Size_unchecked_add_sz [of "?x + Suc k" 1 c] Size_unchecked_sub_sz [of 1 "Suc k" c]
      from_pointer_and_base_gptr [OF i(1), of "Suc (?x + k)" c]
    by (simp_all add: Size_checked_add_eq Size_le_iff Size_less_iff Size_unchecked_add_sz Size_unchecked_sub_sz)
  have add: "Pointer_unchecked_add (gptr ?b ?x) (sz n) = gptr ?b (?x + n)"
    "Pointer_unchecked_add (gptr ?b ?x) (sz (Suc k)) = gptr ?b (Suc (?x + k))"
    "Pointer_unchecked_add (gptr ?b (Suc (?x + k))) (sz ?q) = gptr ?b (?x + (n + r))"
    using small k x(4) by (simp_all add: gptr_add)
  obtain ok s1 where s1: "ensure_space ops s (sz ?e) = Some (ok, s1)" "heap_ok env_ok T s1 ?ks" "expanded s s1"
    "ok \<longrightarrow> ?e \<le> units (allocated_space s1)"
    using ensure_space_ok [OF h eT] by blast
  note b1 = expandedD(2) [OF s1(3)]
  have run: "grow_inplace ops c s (data_ptr ?b ?x) (sz k) =
     (if \<not> ok then Some (None, s1) else do {
        s2 \<leftarrow> unregister_free_space c s1 (gptr ?b (?x + n)) (bi (bin_of r));
        m \<leftarrow> set_size c (mem s2) (gptr ?b ?x) (packed (Suc k) True);
        (v, s3) \<leftarrow> register_free_space c (s2\<lparr>mem := m\<rparr>) (gptr ?b (Suc (?x + k))) (sz (Suc k)) (sz ?q);
        s4 \<leftarrow> record_prev ops c s3 (gptr ?b (?x + (n + r))) SIZEOF_ChunkHeader v;
        paranoid_check_chunk ops c s4 (gptr ?b ?x);
        paranoid_check_chunk ops c s4 (gptr ?b (Suc (?x + k)));
        paranoid_check_chunk ops c s4 (gptr ?b (?x + (n + r)));
        Some (Some (sz k), s4) })"
    using x(4,7) y(4) hs lt chk s1(1) small(2)
    unfolding grow_inplace_def ar(1) option.case
    by (simp add: ar add gets_gptr [OF i(1) xT(1)] gets_gptr [OF i(1) xT(2)] e new_allocated_sz
        size_to_bin_round_down_eq Let_def del: HEADER_SIZE_eq FREE_CHUNK_HEADER_SIZE_eq Size_is_empty_iff)
  show ?thesis
  proof (cases ok)
    case False
    moreover have "ensured ops T s False s1" using ensuredI [OF s1(1) eT] False by simp
    ultimately show ?thesis using run s1(2,3) by auto
  next
    case True
    then have A: "?x + Suc k \<le> units (allocated_space s1)" "Suc k < n + r \<Longrightarrow> ?x + Suc k < units (allocated_space s1)"
      using s1(4) by (auto split: if_splits)
    have inv1: "heap_inv T s1 ?ks" using s1(2) by (simp add: heap_ok_def)
    obtain s2 m2 v s3 s4 where m: "unregister_free_space c s1 (gptr ?b (?x + n)) (bi (bin_of r)) = Some s2"
      "set_size c (mem s2) (gptr ?b ?x) (packed (Suc k) True) = Some m2"
      "register_free_space c (s2\<lparr>mem := m2\<rparr>) (gptr ?b (?x + Suc k)) (sz (Suc k)) (sz ?q) = Some (v, s3)"
      "record_prev ops c s3 (gptr ?b (?x + (n + r))) SIZEOF_ChunkHeader v = Some s4"
      "heap_inv T s4 (us @ (Suc k, True) # left_over ?q @ ws)" "same_env s1 s4"
      "framed ?b (starts 0 ?ks \<union> starts 0 (us @ (Suc k, True) # left_over ?q @ ws)) (mem s1) (mem s4)"
      using grow_moves [OF inv1 t k A, of c] unfolding b1 by blast
    have b4: "base_address s4 = ?b" using same_envD [OF m(6)] b1 by simp
    have "env_ok (env s4) (mem s4) (base_address s4)"
      using env_ok_dom [of "env s1" "mem s1" "base_address s1" "mem s4"] s1(2) same_envD [OF m(6)] m(7)
      by (simp add: heap_ok_def framed_def)
    then have ok4: "heap_ok env_ok T s4 (us @ (Suc k, True) # left_over ?q @ ws)" using m(5) by (simp add: heap_ok_def)
    have "paranoid_check_chunk ops c s4 (gptr ?b ?x) = Some ()"
      "paranoid_check_chunk ops c s4 (gptr ?b (Suc (?x + k))) = Some ()"
      "paranoid_check_chunk ops c s4 (gptr ?b (?x + (n + r))) = Some ()"
      using paranoid_check_chunk_ok [OF m(5) t, of c] b4 k m(5)
        paranoid_check_chunk_ok [of T s4 "us @ [(Suc k, True)]" "left_over ?q @ ws" ops c, OF _ t]
        paranoid_check_chunk_ok [of T s4 "us @ (Suc k, True) # left_over ?q" ws ops c, OF _ t] by simp_all
    then have "grow_inplace ops c s (data_ptr ?b ?x) (sz k) = Some (Some (sz k), s4)"
      using run True m(1-4) by simp
    moreover have "ensured ops T s True s1" using ensuredI [OF s1(1) eT] True by simp
    ultimately show ?thesis using s1(2,3) ok4 m(6,7) by blast
  qed
qed

end

end
