(* ===== verification/Contents.thy ===== *)
theory Contents
  imports Growth
begin

text \<open>
  The contents of allocations. A write that is framed by units without a chunk header leaves the
  invariant alone, and conversely an operation that only writes to headers leaves the bytes of
  every allocation that it keeps alone.
\<close>

section \<open>Frames and bytes\<close>

lemma framed_byte:
  assumes b: "region_ok b T" and f: "framed b G m m'" and G: "G \<subseteq> {..<T}" and y: "y < T" "y \<notin> G" "j < 32"
  shows "byte_at m' b (32 * y + j) = byte_at m b (32 * y + j)"
proof -
  have "32 \<le> unat (b + of_nat (32 * y + j) - gaddr b g)" if g: "g \<in> G" for g
  proof -
    have "g < T" "g \<noteq> y" using that G y(2) by auto
    then have "32 * g + 32 \<le> 32 * T" "32 * y + j < 32 * T" "\<not> (32 * g \<le> 32 * y + j \<and> 32 * y + j < 32 * g + 32)"
      using y(1,3) by linarith+
    then show ?thesis
      using offset_in_store_iff(1) [of "32 * g" 32 "32 * T" "32 * y + j" b] region_okD(1) [OF b]
      unfolding gaddr_def by linarith
  qed
  then show ?thesis using f unfolding framed_def byte_at_def by blast
qed

lemma framed_views:
  assumes b: "region_ok b T" and f: "framed b G m m'" and G: "G \<subseteq> {..<T}" and y: "y < T" "y \<notin> G"
  shows "hprev m' b y = hprev m b y" "hsize m' b y = hsize m b y" "hnext m' b y = hnext m b y" "hback m' b y = hback m b y"
proof -
  have "load_bytes m' (gaddr b y + of_nat f) l = load_bytes m (gaddr b y + of_nat f) l" if "f + l \<le> 32" for f l
    unfolding gaddr_plus
  proof (rule load_bytes_cong)
    fix i assume "i < l"
    then show "byte_at m' b (32 * y + f + i) = byte_at m b (32 * y + f + i)"
      using framed_byte [OF b f G y, of "f + i"] that by (simp add: add.assoc)
  qed
  from this [of 0 4] this [of 4 4] this [of 8 8] this [of 16 8]
  show "hprev m' b y = hprev m b y" "hsize m' b y = hsize m b y" "hnext m' b y = hnext m b y" "hback m' b y = hback m b y"
    by (simp_all add: header_views load_u32_def load_u64_def)
qed

lemma heads_framed:
  assumes "heads m b A x p ks" "region_ok b T" "framed b G m m'" "G \<subseteq> {..<T}" "G \<inter> starts x ks = {}" "A \<le> T"
  shows "heads m' b A x p ks"
  using assms
proof (induction m b A x p ks rule: heads.induct)
  case (2 m b A x p n a ks)
  then have "x < T" "x \<notin> G" by auto
  then show ?case using 2 framed_views [OF 2(3,4,5)] by auto
qed simp

text \<open>Writing to units without headers keeps the invariant.\<close>

lemma heap_inv_data:
  assumes h: "heap_inv T s ks" and f: "framed (base_address s) G (mem s) m'" and G: "G \<subseteq> {..<T}" "G \<inter> starts 0 ks = {}"
  shows "heap_inv T (s\<lparr>mem := m'\<rparr>) ks"
proof -
  note i = heap_invD [OF h]
  have "x < T \<and> x \<notin> G" if "x \<in> dom (frees 0 ks)" for x
    using that dom_frees [of 0 ks] starts_range [OF i(5), of x 0] i(4) G(2) by auto
  then have "lists_ok T (frees 0 ks) (s\<lparr>mem := m'\<rparr>)"
    using framed_views [OF i(1) f G(1)] f by (intro lists_ok_change [OF i(7)]) (auto simp: framed_def)
  then show ?thesis
    using heads_framed [OF i(9,1) f G i(2)] i(4,6) by (simp add: heap_inv_def)
qed

text \<open>Writing a range of whole units.\<close>

lemma unit_mapped_bytes:
  assumes "\<And>y. x \<le> y \<Longrightarrow> y < x + n \<Longrightarrow> unit_mapped m b y" "i < 32 * n"
  shows "byte_at m b (32 * x + i) \<noteq> None"
proof -
  have "unit_mapped m b (x + i div 32)" using assms(1) [of "x + i div 32"] assms(2) by simp
  then have "i mod 32 < 32 \<longrightarrow> byte_at m b (32 * (x + i div 32) + i mod 32) \<noteq> None"
    unfolding unit_mapped_def by blast
  moreover have "32 * (x + i div 32) + i mod 32 = 32 * x + i" by simp
  ultimately show ?thesis by (simp only: mod_less_divisor zero_less_numeral simp_thms)
qed

lemma store_units_ok:
  assumes b: "region_ok b T" and n: "x + n \<le> T" and m: "\<And>y. x \<le> y \<Longrightarrow> y < x + n \<Longrightarrow> unit_mapped m b y"
    and l: "length bs = 32 * n"
  shows "\<exists>m'. store_bytes m (gaddr b x) bs = Some m' \<and> framed b {x..<x + n} m m' \<and>
    (\<forall>i < 32 * n. byte_at m' b (32 * x + i) = Some (bs ! i))"
proof -
  have mapped: "byte_at m b (32 * x + i) \<noteq> None" if "i < 32 * n" for i
    by (rule unit_mapped_bytes [of x n]) (use m that in auto)
  obtain m' where m': "store_bytes m (b + of_nat (32 * x)) bs = Some m'"
    "\<And>k. k < 32 * T \<Longrightarrow> byte_at m' b k = (if 32 * x \<le> k \<and> k < 32 * x + length bs then Some (bs ! (k - 32 * x)) else byte_at m b k)"
    "\<And>a. length bs \<le> unat (a - (b + of_nat (32 * x))) \<Longrightarrow> m' a = m a" "dom m' = dom m"
    using store_bytes_at [of bs m b "32 * x" "32 * T"] mapped l n region_okD(1) [OF b] by auto
  have "m' a = m a" if a: "\<forall>g \<in> {x..<x + n}. 32 \<le> unat (a - gaddr b g)" for a
  proof (rule m'(3))
    show "length bs \<le> unat (a - (b + of_nat (32 * x)))"
    proof (rule ccontr)
      assume "\<not> ?thesis"
      then have d: "unat (a - gaddr b x) < 32 * n" using l by (simp add: gaddr_def)
      let ?g = "x + unat (a - gaddr b x) div 32"
      have "?g < x + n" using d by (simp add: less_mult_imp_div_less)
      moreover have "a - gaddr b ?g = (a - gaddr b x) - of_nat (32 * (unat (a - gaddr b x) div 32))"
        by (simp add: gaddr_def algebra_simps)
      moreover have "unat ((a - gaddr b x) - of_nat (32 * (unat (a - gaddr b x) div 32))) = unat (a - gaddr b x) mod 32"
      proof -
        let ?d = "unat (a - gaddr b x)"
        have q: "unat (of_nat (32 * (?d div 32)) :: u64) = 32 * (?d div 32)"
          using unsigned_less [where ?'a = nat, of "a - gaddr b x"]
          by (intro unat_of_nat_small) (simp add: le_less_trans [OF times_div_less_eq_dividend])
        then have "of_nat (32 * (?d div 32)) \<le> a - gaddr b x" unfolding word_le_nat_alt by simp
        then show ?thesis by (simp only: unat_sub q minus_mult_div_eq_mod)
      qed
      ultimately show False using a by (metis atLeastLessThan_iff le_add1 mod_less_divisor not_less zero_less_numeral)
    qed
  qed
  then have "framed b {x..<x + n} m m'" using m'(4) by (simp add: framed_def)
  moreover have "byte_at m' b (32 * x + i) = Some (bs ! i)" if "i < 32 * n" for i
    using m'(2) [of "32 * x + i"] that n l by simp
  ultimately show ?thesis using m'(1) by (auto simp: gaddr_def)
qed

lemma write_zeroes_ok:
  assumes b: "region_ok b T" and n: "x + n \<le> T" and m: "\<And>y. x \<le> y \<Longrightarrow> y < x + n \<Longrightarrow> unit_mapped m b y"
  shows "\<exists>m'. write_bytes m (gaddr b x) 0 (32 * n) = Some m' \<and> framed b {x..<x + n} m m' \<and>
    (\<forall>k. 32 * x \<le> k \<and> k < 32 * (x + n) \<longrightarrow> byte_at m' b k = Some 0)"
proof -
  have l: "length (replicate (32 * n) (0 :: u8)) = 32 * n" by simp
  obtain m' where m': "store_bytes m (gaddr b x) (replicate (32 * n) 0) = Some m'" "framed b {x..<x + n} m m'"
    "\<forall>i < 32 * n. byte_at m' b (32 * x + i) = Some (replicate (32 * n) 0 ! i)"
    using store_units_ok [OF b n m l] by blast
  have "byte_at m' b k = Some 0" if "32 * x \<le> k" "k < 32 * (x + n)" for k
    using m'(3) [rule_format, of "k - 32 * x"] that by simp
  then show ?thesis using m' by (auto simp: write_bytes_def)
qed

text \<open>Copying a range of whole units to another one.\<close>

lemma copy_units_ok:
  assumes b: "region_ok b T" and x: "x + n \<le> T" and y: "y + n \<le> T" and d: "x + n \<le> y \<or> y + n \<le> x"
    and m: "\<And>z. x \<le> z \<Longrightarrow> z < x + n \<Longrightarrow> unit_mapped m b z" "\<And>z. y \<le> z \<Longrightarrow> z < y + n \<Longrightarrow> unit_mapped m b z"
  shows "\<exists>m'. copy_nonoverlapping m (gaddr b x) (gaddr b y) (32 * n) = Some m' \<and> framed b {y..<y + n} m m' \<and>
    (\<forall>i < 32 * n. byte_at m' b (32 * y + i) = byte_at m b (32 * x + i))"
proof (cases "n = 0")
  case True
  then show ?thesis by (simp add: copy_nonoverlapping_def)
next
  case False
  let ?bs = "map (\<lambda>i. the (byte_at m b (32 * x + i))) [0..<32 * n]"
  have mapped: "byte_at m b (32 * x + i) \<noteq> None" if "i < 32 * n" for i
    by (rule unit_mapped_bytes [of x n]) (use m(1) that in auto)
  have load: "load_bytes m (gaddr b x) (32 * n) = Some ?bs"
    unfolding gaddr_def load_bytes_at using mapped by simp
  have "length ?bs = 32 * n" by simp
  then obtain m' where m': "store_bytes m (gaddr b y) ?bs = Some m'" "framed b {y..<y + n} m m'"
    "\<forall>i < 32 * n. byte_at m' b (32 * y + i) = Some (?bs ! i)"
    using store_units_ok [OF b y m(2)] by blast
  have "\<not> unat (gaddr b y - gaddr b x) < 32 * n \<and> \<not> unat (gaddr b x - gaddr b y) < 32 * n"
    using offset_in_store_iff(1) [of "32 * x" "32 * n" "32 * T" "32 * y" b]
      offset_in_store_iff(1) [of "32 * y" "32 * n" "32 * T" "32 * x" b] region_okD(1) [OF b] x y d False
    unfolding gaddr_def by linarith
  then have "copy_nonoverlapping m (gaddr b x) (gaddr b y) (32 * n) = Some m'"
    using load m'(1) by (simp add: copy_nonoverlapping_def)
  moreover have "byte_at m' b (32 * y + i) = byte_at m b (32 * x + i)" if "i < 32 * n" for i
    using m'(3) mapped [OF that] that by auto
  ultimately show ?thesis using m'(2) by blast
qed

end
