(* ===== verification/Allocation.thy ===== *)
theory Allocation
  imports Contents
begin

text \<open>
  \<^verbatim>\<open>alloc_impl\<close> and the initialisation. The search finds a chunk that is large enough whenever a
  chunk is free in the rounded-up bin or above; the allocation is carved out of it at the first
  aligned offset, what is left on either side stays free, and nothing but headers is written,
  apart from the zeroing that was asked for.
\<close>

section \<open>The first chunk of a bin\<close>

lemma first_in_bin:
  assumes "lists_ok T F s" "j \<in> mask_bits (free_lists_with_unallocated_memory s)"
  shows "\<exists>x n. F x = Some n \<and> bin_of n = j \<and> first_in_free_list s ! j = gptr (base_address s) x \<and> j < 2432 \<and>
    length (first_in_free_list s) = 2432"
proof -
  obtain L where l: "lists_by T F L s" using assms(1) unfolding lists_ok_def by blast
  have j: "j < 2432" "L j \<noteq> []" using assms(2) lists_byD(6) [OF l] by auto
  then obtain x ys where L: "L j = x # ys" by (meson neq_Nil_conv)
  then have "x \<in> members F j" using lists_by_list(2) [OF l j(1)] by auto
  then show ?thesis
    using first_of_list(1) [OF l j(1) L] j(1) lists_byD(4) [OF l] by (auto simp: members_def)
qed

lemma bin_in_mask:
  assumes "lists_ok T F s" "F x = Some n"
  shows "bin_of n \<in> mask_bits (free_lists_with_unallocated_memory s)"
proof -
  obtain L where l: "lists_by T F L s" using assms(1) unfolding lists_ok_def by blast
  have "x \<in> set (L (bin_of n))" using lists_by_list(2) [OF l bin_of_range] assms(2) by (simp add: members_def)
  then show ?thesis using lists_byD(6) [OF l] bin_of_range by auto
qed

lemma lists_ok_mask: "lists_ok T F s \<Longrightarrow> mask_inv (free_lists_with_unallocated_memory s)"
  using lists_byD(5) unfolding lists_ok_def by blast

lemma gap_take_first:
  assumes g: "gap_inv T s us z ((n, False) # vs)" and f: "first_in_free_list s ! bin_of n = gptr (base_address s) z"
  shows "\<exists>s'. unregister_free_space_first_chunk c s (gptr (base_address s) z) (bi (bin_of n)) = Some s' \<and>
    moved T us z ((n, False) # vs) us (z + n) vs s s'"
proof -
  note d = gap_invD [OF g] and k = gap_right [OF g]
  obtain L where l: "lists_by T (frees_around us z ((n, False) # vs)) L s"
    using d(3) unfolding lists_ok_def by blast
  have "paranoid_check_access c s (gptr (base_address s) z) SIZEOF_FreeChunkHeader = Some ()"
    by (rule paranoid_check_access_ok [OF d(8,9) k(2) sizeof_le(2)])
  moreover have "bin_of n < length (first_in_free_list s)" using lists_byD(4) [OF l] bin_of_range by simp
  ultimately have "unregister_free_space c s (gptr (base_address s) z) (bi (bin_of n)) =
      unregister_free_space_first_chunk c s (gptr (base_address s) z) (bi (bin_of n))"
    using f by (simp add: unregister_free_space_def bin_of_range)
  then show ?thesis using gap_take_right [OF g, of c] by simp
qed

section \<open>Searching\<close>

lemma size_to_bin_round_up_eq: "units n \<le> 2 ^ 25 \<Longrightarrow> size_to_bin_round_up n = bi (bin_up 7 (units n))"
proof -
  assume n: "units n \<le> 2 ^ 25"
  then have "(if raw_units n > raw_units MAX_ALLOCATION_SIZE then MAX_ALLOCATION_SIZE else n) = n"
    unfolding raw_units_gt_iff by simp
  then show ?thesis using n by (simp add: size_to_bin_round_up_def Let_def BitMask_index_bi unat_to_bin_index)
qed

lemma bin_up_le_bin_of_imp_le: "0 < n \<Longrightarrow> k \<le> 2 ^ 25 \<Longrightarrow> bin_up 7 k \<le> bin_of n \<Longrightarrow> k \<le> n"
  using bin_up_le_bin_down_imp_le [of 7 k "min n (2 ^ 25)"] by (simp add: bin_of_def)

lemma bin_of_mono: "k \<le> n \<Longrightarrow> bin_of k \<le> bin_of n"
  unfolding bin_of_def by (rule bin_down_mono) simp

lemma bin_of_le_bin_up: "n \<le> 2 ^ 25 \<Longrightarrow> bin_of n \<le> bin_up 7 n"
  using bin_down_le_bin_up by (simp add: bin_of_def)

text \<open>
  The search gives a non-empty bin or nothing. It gives a bin from the rounded-up one on if there
  is such a bin.
\<close>

lemma alloc_find_bin_ok:
  assumes l: "lists_ok T F s" and n: "n \<le> 2 ^ 25"
  shows "\<exists>r. alloc_find_bin s (sz n) = Some (map_option bi r) \<and>
    (case r of None \<Rightarrow> \<forall>x k. F x = Some k \<longrightarrow> bin_of k < bin_of n
     | Some j \<Rightarrow> j \<in> mask_bits (free_lists_with_unallocated_memory s) \<and> bin_of n \<le> j \<and>
         ((\<exists>x k. F x = Some k \<and> bin_up 7 n \<le> bin_of k) \<longrightarrow> bin_up 7 n \<le> j))"
proof -
  let ?m = "free_lists_with_unallocated_memory s"
  have u: "units (sz n) = n" using n by simp
  have up: "size_to_bin_round_up (sz n) = bi (bin_up 7 n)" using size_to_bin_round_up_eq [of "sz n"] n u by simp
  have dn: "size_to_bin_round_down (sz n) = bi (bin_of n)" by (simp add: size_to_bin_round_down_eq u)
  have le: "bin_of n \<le> bin_up 7 n" using n bin_down_le_bin_up by (simp add: bin_of_def)
  have b: "bin_up 7 n < 2432" using bin_up_range_7 n by simp
  note m = lists_ok_mask [OF l]
  have f: "BitMask_find_first ?m (bi k) = Some (map_option bi r) \<and> find_first_nat ?m k = Some r"
    if "find_first_nat ?m k = Some r" "k < 2432" for k r
    using BitMask_find_first_ok [OF m that(2)] that(1)
    by (auto simp: find_first_nat_def least_at_or_after_def mask_bits_def)
  obtain r where r: "(do { b \<leftarrow> find_first_nat ?m (bin_up 7 n);
      if b = None then find_first_nat ?m (bin_of n) else Some b }) = Some r"
    "case r of None \<Rightarrow> \<forall>j \<in> mask_bits ?m. j < bin_of n
     | Some j \<Rightarrow> j \<in> mask_bits ?m \<and> bin_of n \<le> j \<and> ((\<exists>i \<in> mask_bits ?m. bin_up 7 n \<le> i) \<longrightarrow> bin_up 7 n \<le> j)"
    using bins.two_step_search [OF m b bin_of_range le] by blast
  have "alloc_find_bin s (sz n) = Some (map_option bi r)"
    using r(1) f [OF _ b] f [OF _ bin_of_range [of n]]
    by (cases r) (auto simp: alloc_find_bin_def up dn bind_eq_Some_conv split: if_splits)
  moreover have "bin_of k < bin_of n" if "r = None" "F x = Some k" for x k
    using r(2) that bin_in_mask [OF l that(2)] by auto
  ultimately show ?thesis using r(2) bin_in_mask [OF l] by (auto split: option.splits)
qed

section \<open>Carving\<close>

definition carved :: "layout \<Rightarrow> nat \<Rightarrow> nat \<Rightarrow> nat \<Rightarrow> layout \<Rightarrow> layout" where
  "carved us l q r vs = us @ left_over l @ (Suc q, True) # left_over r @ vs"

text \<open>
  The moves of an allocation: the chunk is taken out, the rest on the left, the allocation and the
  rest on the right are put in its place, and the gap is closed.
\<close>

lemma alloc_moves:
  assumes h: "heap_inv T s (us @ (n, False) # vs)" and t: "\<And>e. total_space ops e = sz T"
    and f: "first_in_free_list s ! bin_of n = gptr (base_address s) (extent us)"
    and n: "n = l + Suc q + r" and A: "extent us + l + Suc q \<le> units (allocated_space s)"
      "0 < r \<Longrightarrow> extent us + l + Suc q < units (allocated_space s)"
  shows "\<exists>s1 v2 s2 s3 v4 s4 s5.
    unregister_free_space_first_chunk c s (gptr (base_address s) (extent us)) (bi (bin_of n)) = Some s1 \<and>
    register_free_space c s1 (gptr (base_address s) (extent us)) (sz (last_size 0 us)) (sz l) = Some (v2, s2) \<and>
    register_allocation c s2 (gptr (base_address s) (extent us + l)) v2 (sz (Suc q)) = Some s3 \<and>
    register_free_space c s3 (gptr (base_address s) (extent us + l + Suc q)) (sz (Suc q)) (sz r) = Some (v4, s4) \<and>
    record_prev ops c s4 (gptr (base_address s) (extent us + n)) SIZEOF_FreeChunkHeader v4 = Some s5 \<and>
    heap_inv T s5 (carved us l q r vs) \<and> same_env s s5 \<and>
    framed (base_address s) (starts 0 (us @ (n, False) # vs) \<union> starts 0 (carved us l q r vs)) (mem s) (mem s5)"
proof -
  let ?b = "base_address s" and ?x = "extent us" and ?z = "extent us + n"
  let ?us2 = "us @ left_over l" and ?us3 = "(us @ left_over l) @ [(Suc q, True)]"
  let ?us4 = "((us @ left_over l) @ [(Suc q, True)]) @ left_over r"
  note i = heap_invD [OF h] and x = heap_inv_at [OF h]
  have g0: "gap_inv T s us ?x ((n, False) # vs)" using gap_open [OF h] .
  obtain s1 where s1: "unregister_free_space_first_chunk c s (gptr ?b ?x) (bi (bin_of n)) = Some s1"
    "moved T us ?x ((n, False) # vs) us ?z vs s s1" using gap_take_first [OF g0 f] by blast
  then have g1: "gap_inv T s1 us ?z vs" and e1: "same_env s s1"
    and f1: "framed ?b (gap_starts us ?x ((n, False) # vs) \<union> gap_starts us ?z vs) (mem s) (mem s1)"
    by (simp_all add: moved_def)
  note b1 = same_envD [OF e1]
  have l1: "?x + l \<le> ?z" "0 < l \<Longrightarrow> ?x < units (allocated_space s1)" using n A(1) b1 by simp_all
  obtain s2 where s2: "register_free_space c s1 (gptr ?b ?x) (sz (last_size 0 us)) (sz l) =
      Some (sz (last_size 0 ?us2), s2)" "moved T us ?z vs ?us2 ?z vs s1 s2"
    using gap_put [OF g1 l1, of c] unfolding b1 by blast
  then have g2: "gap_inv T s2 ?us2 ?z vs" and e2: "same_env s1 s2"
    and f2: "framed ?b (gap_starts us ?z vs \<union> gap_starts ?us2 ?z vs) (mem s1) (mem s2)"
    by (simp_all add: moved_def b1)
  have b2: "base_address s2 = ?b" "allocated_space s2 = allocated_space s" using same_envD [OF e2] b1 by simp_all
  have x2: "extent ?us2 = ?x + l" by simp
  have l2: "extent ?us2 + Suc q \<le> ?z" "extent ?us2 + Suc q \<le> units (allocated_space s2)" using n A(1) b2 by simp_all
  obtain s3 where s3: "register_allocation c s2 (gptr ?b (?x + l)) (sz (last_size 0 ?us2)) (sz (Suc q)) = Some s3"
    "moved T ?us2 ?z vs ?us3 ?z vs s2 s3"
    using gap_put_allocated [OF g2 zero_less_Suc l2, of c] unfolding b2 x2 by blast
  then have g3: "gap_inv T s3 ?us3 ?z vs" and e3: "same_env s2 s3"
    and f3: "framed ?b (gap_starts ?us2 ?z vs \<union> gap_starts ?us3 ?z vs) (mem s2) (mem s3)"
    by (simp_all add: moved_def b2)
  have b3: "base_address s3 = ?b" "allocated_space s3 = allocated_space s" using same_envD [OF e3] b2 by simp_all
  have x3: "extent ?us3 = ?x + l + Suc q" by simp
  have l3: "extent ?us3 + r \<le> ?z" "0 < r \<Longrightarrow> extent ?us3 < units (allocated_space s3)" using n A(2) b3 by simp_all
  have p3: "last_size 0 ?us3 = Suc q" by simp
  obtain s4 where s4: "register_free_space c s3 (gptr ?b (?x + l + Suc q)) (sz (Suc q)) (sz r) =
      Some (sz (last_size 0 ?us4), s4)" "moved T ?us3 ?z vs ?us4 ?z vs s3 s4"
    using gap_put [OF g3 l3, of c] unfolding b3 x3 p3 by blast
  then have g4: "gap_inv T s4 ?us4 ?z vs" and e4: "same_env s3 s4"
    and f4: "framed ?b (gap_starts ?us3 ?z vs \<union> gap_starts ?us4 ?z vs) (mem s3) (mem s4)"
    by (simp_all add: moved_def b3)
  have b4: "base_address s4 = ?b" using same_envD [OF e4] b3 by simp
  have z: "extent ?us4 = ?z" using n by simp
  have co: "coalesced (?us4 @ vs)"
    using i(6) by (auto simp: coalesced_append coalesced_Cons left_over_def)
  obtain s5 where s5: "record_prev ops c s4 (gptr ?b ?z) SIZEOF_FreeChunkHeader (sz (last_size 0 ?us4)) = Some s5"
    "heap_inv T s5 (?us4 @ vs)" "same_env s4 s5" "framed ?b (gap_starts ?us4 ?z vs) (mem s4) (mem s5)"
    using gap_close [of T s4 ?us4 vs ops SIZEOF_FreeChunkHeader c, OF _ co t sizeof_le(2)] g4 unfolding z b4 by blast
  have c: "?us4 @ vs = carved us l q r vs" by (simp add: carved_def)
  have "framed ?b (starts 0 (us @ (n, False) # vs) \<union> starts 0 (carved us l q r vs)) (mem s) (mem s5)"
    using framed_trans [OF framed_trans [OF framed_trans [OF framed_trans [OF f1 f2] f3] f4] s5(4)]
    by (rule framed_mono) (use n in \<open>auto simp: gap_starts_def starts_append carved_def add.assoc\<close>)
  moreover have "same_env s s5"
    using same_env_trans [OF same_env_trans [OF same_env_trans [OF same_env_trans [OF e1 e2] e3] e4] s5(3)] .
  ultimately show ?thesis using s1(1) s2(1) s3(1) s4(1) s5(1) s5(2) [unfolded c] by blast
qed

text \<open>The numbers of an allocation: where the data goes, and what is left on both sides.\<close>

definition data_offset :: "u64 \<Rightarrow> nat \<Rightarrow> nat \<Rightarrow> nat" where
  "data_offset b x a = align_up (Suc x) a (unat b div 32)"

lemma data_offset_bounds:
  assumes "0 < a"
  shows "Suc x \<le> data_offset b x a" "data_offset b x a < Suc x + a" "a dvd unat b div 32 + data_offset b x a"
  using align_up_bounds [OF assms] unfolding data_offset_def by blast+

lemma data_aligned:
  assumes b: "region_ok b T" and d: "data_offset b x a \<le> T" and a: "0 < a" "a < 2 ^ 27"
  shows "32 * a dvd unat (gaddr b (data_offset b x a))" "gaddr b (data_offset b x a) mod ucast (bytes (sz a)) = 0"
proof -
  have "unat b mod 32 = 0" using b by (simp add: region_ok_def)
  then have "unat b = 32 * (unat b div 32)" by (metis add.right_neutral mult_div_mod_eq)
  then have e: "unat (gaddr b (data_offset b x a)) = 32 * (unat b div 32 + data_offset b x a)"
    using unat_gaddr [OF b d] by (metis distrib_left)
  show 1: "32 * a dvd unat (gaddr b (data_offset b x a))"
    unfolding e by (rule mult_dvd_mono [OF dvd_refl data_offset_bounds(3) [OF a(1)]])
  have "unat (ucast (bytes (sz a)) :: u64) = 32 * a" using a(2) by (simp add: unat_ucast_up unat_bytes_small)
  then have "unat (gaddr b (data_offset b x a) mod ucast (bytes (sz a))) = 0"
    using 1 by (simp add: unat_mod)
  then show "gaddr b (data_offset b x a) mod ucast (bytes (sz a)) = 0" by (simp add: unat_eq_0)
qed

text \<open>The arithmetic of \<open>alloc_in_chunk\<close>, none of which overflows.\<close>

lemma alloc_arith:
  assumes b: "region_ok b T" and x: "x + n \<le> T" and a: "a = 2 ^ j" "j < 27" and q: "q + a \<le> n"
    and d: "d = data_offset b x a" "l = d - Suc x" "r = n - q - l - 1"
  shows "x + l + 1 = d" "n = l + Suc q + r" "l < a"
    "from_pointer_and_base_unchecked c (gptr b x) (Pointer b) = Some (sz x)"
    "add_chk c (of_nat x) (of_nat (Suc 0) :: u32) = Some (of_nat (Suc x))"
    "align_offset c (of_nat (Suc x)) (of_nat a) b = Some (of_nat d)"
    "Size_unchecked_sub c (sz d) HEADER_SIZE = Some (sz (x + l))"
    "Size_unchecked_sub c (sz (x + l)) (sz x) = Some (sz l)"
    "Size_unchecked_sub c (sz n) (sz q) = Some (sz (n - q))"
    "Size_unchecked_sub c (sz (n - q)) (sz l) = Some (sz (n - q - l))"
    "Size_unchecked_sub c (sz (n - (q + l))) HEADER_SIZE = Some (sz r)"
    "Size_unchecked_add c (sz d) (sz q) = Some (sz (d + q))"
    "(if \<not> Size_is_empty (sz r) then Size_unchecked_add c (sz (d + q)) FREE_CHUNK_HEADER_SIZE
      else Some (sz (d + q))) = Some (sz (if r = 0 then d + q else Suc (d + q)))"
    "Size_unchecked_add c (sz q) HEADER_SIZE = Some (sz (Suc q))"
    "(if r = 0 then d + q else Suc (d + q)) \<le> T" "d \<le> T" "q < 2 ^ 27" "l < 2 ^ 27" "r < 2 ^ 27"
proof -
  have T: "T < 2 ^ 27" using b by (simp add: region_ok_def)
  have "(2 :: nat) ^ j < 2 ^ 27" using a(2) by (intro power_strict_increasing) simp_all
  then have a0: "0 < a" "a < 2 ^ 27" using a by simp_all
  note db = data_offset_bounds [OF a0(1), where x = x and b = b, folded d(1)]
  show l: "x + l + 1 = d" "n = l + Suc q + r" "l < a" using db(1,2) d(2,3) q by simp_all
  show "from_pointer_and_base_unchecked c (gptr b x) (Pointer b) = Some (sz x)"
    using from_pointer_and_base_gptr [OF b] x by simp
  have s: "x < 2 ^ 27" "d < 2 ^ 27" "n < 2 ^ 27" "d + q < 2 ^ 27" "Suc (d + q) < 2 ^ 32" using T x l by simp_all
  then show "q < 2 ^ 27" "l < 2 ^ 27" "r < 2 ^ 27" "d \<le> T" using l x by simp_all
  show "(if r = 0 then d + q else Suc (d + q)) \<le> T" using l x by simp
  show "add_chk c (of_nat x) (of_nat (Suc 0) :: u32) = Some (of_nat (Suc x))"
    using s by (subst add_chk_ok) (simp_all add: unat_of_nat)
  have "unat (of_nat a :: u32) = 2 ^ j" "unat (of_nat (Suc x) :: u32) = Suc x"
    using a a0 s by (simp_all add: unat_of_nat del: of_nat_Suc of_nat_power)
  then show "align_offset c (of_nat (Suc x)) (of_nat a) b = Some (of_nat d)"
    using align_offset_eq [of "of_nat a" j "of_nat (Suc x)" c b] a a0 s
    unfolding d(1) data_offset_def by (simp del: of_nat_Suc)
  show "Size_unchecked_sub c (sz d) HEADER_SIZE = Some (sz (x + l))"
  proof -
    have e: "d - 1 = x + l" and "1 \<le> d" "d < 2 ^ 32" using l(1) s(2) by simp_all
    then have "Size_unchecked_sub c (sz d) (sz 1) = Some (sz (d - 1))" by (intro Size_unchecked_sub_sz)
    then show ?thesis by (simp only: HEADER_SIZE_eq e)
  qed
  show "Size_unchecked_sub c (sz (x + l)) (sz x) = Some (sz l)"
    using Size_unchecked_sub_sz [of x "x + l" c] l s by simp
  show "Size_unchecked_sub c (sz n) (sz q) = Some (sz (n - q))"
    "Size_unchecked_sub c (sz (n - q)) (sz l) = Some (sz (n - q - l))"
    using l s by (simp_all add: Size_unchecked_sub_sz)
  show "Size_unchecked_sub c (sz (n - (q + l))) HEADER_SIZE = Some (sz r)"
  proof -
    have e: "n - (q + l) - 1 = r" and "1 \<le> n - (q + l)" "n - (q + l) < 2 ^ 32" using l(2) s(3) by simp_all
    then have "Size_unchecked_sub c (sz (n - (q + l))) (sz 1) = Some (sz (n - (q + l) - 1))" by (intro Size_unchecked_sub_sz)
    then show ?thesis by (simp only: HEADER_SIZE_eq e)
  qed
  show "Size_unchecked_add c (sz d) (sz q) = Some (sz (d + q))" using s by (simp add: Size_unchecked_add_sz)
  show "(if \<not> Size_is_empty (sz r) then Size_unchecked_add c (sz (d + q)) FREE_CHUNK_HEADER_SIZE
      else Some (sz (d + q))) = Some (sz (if r = 0 then d + q else Suc (d + q)))"
    using Size_unchecked_add_sz [of "d + q" 1 c] s l by simp
  show "Size_unchecked_add c (sz q) HEADER_SIZE = Some (sz (Suc q))"
    using Size_unchecked_add_sz [of q 1 c] s l by simp
qed

lemma starts_carved:
  assumes "sizes_pos us" "sizes_pos vs" "y \<in> starts 0 (carved us l q r vs)" "extent us + l < y"
  shows "extent us + l + Suc q \<le> y"
  using assms starts_range [of us y 0] starts_range [of vs y "extent us + l + Suc q + r"]
  by (auto simp: carved_def starts_append left_over_def add.assoc split: if_splits)

lemma starts_carved_below:
  assumes "sizes_pos (carved us l q r vs)" "y \<in> starts 0 (carved us l q r vs)"
  shows "y < extent (carved us l q r vs)"
  using starts_range [OF assms] by simp

text \<open>Zeroing the new allocation.\<close>

lemma zero_allocation:
  assumes h: "heap_inv T s (carved us l q r vs)"
  shows "\<exists>m'. write_bytes (mem s) (gaddr (base_address s) (Suc (extent us + l))) 0 (unat (bytes (sz q))) = Some m' \<and>
    heap_inv T (s\<lparr>mem := m'\<rparr>) (carved us l q r vs) \<and>
    framed (base_address s) {Suc (extent us + l)..<Suc (extent us + l) + q} (mem s) m' \<and>
    (\<forall>k. 32 * Suc (extent us + l) \<le> k \<and> k < 32 * (Suc (extent us + l) + q) \<longrightarrow>
      byte_at m' (base_address s) k = Some 0)"
proof -
  let ?d = "Suc (extent us + l)"
  have h': "heap_inv T s ((us @ left_over l) @ (Suc q, True) # left_over r @ vs)" using h by (simp add: carved_def)
  note i = heap_invD [OF h] and x = heap_inv_at [OF h']
  have pos: "sizes_pos us" "sizes_pos vs" using i(5) by (simp_all add: carved_def)
  have dT: "?d + q \<le> T" using x(3) by simp
  have mapped: "unit_mapped (mem s) (base_address s) y" if "y < ?d + q" for y
    using mapped_until_unit [OF i(3)] that x(5) by simp
  have "q < 2 ^ 27" using dT i(8) by simp
  then have count: "unat (bytes (sz q)) = 32 * q" by (simp add: unat_bytes_small)
  obtain m' where m': "write_bytes (mem s) (gaddr (base_address s) ?d) 0 (32 * q) = Some m'"
    "framed (base_address s) {?d..<?d + q} (mem s) m'"
    "\<forall>k. 32 * ?d \<le> k \<and> k < 32 * (?d + q) \<longrightarrow> byte_at m' (base_address s) k = Some 0"
    using write_zeroes_ok [OF i(1) dT mapped] by blast
  have "heap_inv T (s\<lparr>mem := m'\<rparr>) (carved us l q r vs)"
    by (rule heap_inv_data [OF h m'(2)]) (use dT starts_carved [OF pos] in fastforce)+
  then show ?thesis using m' unfolding count by blast
qed

definition alloc_frame :: "layout \<Rightarrow> layout \<Rightarrow> nat \<Rightarrow> nat \<Rightarrow> nat set" where
  "alloc_frame ks ks' d q = starts 0 ks \<union> starts 0 ks' \<union> {d..<d + q}"

text \<open>
  A request served from the free chunk of size \<open>n\<close> after \<open>us\<close>: the data is aligned, the invariant
  holds for the carved layout, only headers (and zeroed data) are written, and data that had to be
  zeroed reads as zero unless it lies beyond what was mapped before and was left alone.
\<close>

definition served ::
    "('e \<Rightarrow> memory \<Rightarrow> u64 \<Rightarrow> bool) \<Rightarrow> nat \<Rightarrow> nat \<Rightarrow> layout \<Rightarrow> nat \<Rightarrow> layout \<Rightarrow> nat \<Rightarrow> nat \<Rightarrow> bool \<Rightarrow> nat \<Rightarrow> nat \<Rightarrow>
     'e machine \<Rightarrow> 'e machine \<Rightarrow> bool" where
  "served env_ok T A us n vs a q z l r s s' \<longleftrightarrow>
     n = l + Suc q + r \<and> l < a \<and> 32 * a dvd unat (address (data_ptr (base_address s) (extent us + l))) \<and>
     heap_ok env_ok T s' (carved us l q r vs) \<and> same_env s s' \<and>
     framed (base_address s) (alloc_frame (us @ (n, False) # vs) (carved us l q r vs) (Suc (extent us + l)) (if z then q else 0))
       (mem s) (mem s') \<and>
     (z \<longrightarrow> (\<forall>k. 32 * Suc (extent us + l) \<le> k \<and> k < 32 * (Suc (extent us + l) + q) \<longrightarrow>
       byte_at (mem s') (base_address s) k = Some 0 \<or>
       32 * A \<le> k \<and> byte_at (mem s') (base_address s) k = byte_at (mem s) (base_address s) k))"

context env_contract
begin

lemma alloc_in_chunk_ok:
  assumes h: "heap_ok env_ok T s (us @ (n, False) # vs)"
    and f: "first_in_free_list s ! bin_of n = gptr (base_address s) (extent us)"
    and a: "a = 2 ^ j" "j < 27" and q: "q + a \<le> n"
  shows "\<exists>res s1 s'. alloc_in_chunk ops c s (gptr (base_address s) (extent us)) (sz n) (bi (bin_of n)) (sz a) (sz q) z =
      Some (res, s') \<and> expanded s s1 \<and> heap_ok env_ok T s1 (us @ (n, False) # vs) \<and>
    (res = None \<and> s' = s1 \<and> ensured ops T s False s1 \<or>
     ensured ops T s True s1 \<and>
     (\<exists>l r. res = Some (data_ptr (base_address s) (extent us + l)) \<and>
       served env_ok T (units (allocated_space s)) us n vs a q z l r s1 s'))"
proof -
  let ?b = "base_address s" and ?x = "extent us" and ?ks = "us @ (n, False) # vs"
  define d where "d = data_offset ?b ?x a"
  define l where "l = d - Suc ?x"
  define r where "r = n - q - l - 1"
  let ?e = "if r = 0 then d + q else Suc (d + q)" and ?ks' = "carved us l q r vs"
  have inv: "heap_inv T s ?ks" using h by (simp add: heap_ok_def)
  note i = heap_invD [OF inv] and x = heap_inv_at [OF inv]
  note ar = alloc_arith [OF i(1) x(3) a q d_def l_def r_def]
  have xT: "?x \<le> T" using x(3) by simp
  have t: "\<And>e. total_space ops e = sz T" by (rule total_space_ok)
  have d: "d = Suc (?x + l)" using ar(1) by simp
  obtain ok s1 where s1: "ensure_space ops s (sz ?e) = Some (ok, s1)" "heap_ok env_ok T s1 ?ks" "expanded s s1"
    "ok \<longrightarrow> ?e \<le> units (allocated_space s1)"
    using ensure_space_ok [OF h ar(15)] by blast
  have b1: "base_address s1 = ?b" "first_in_free_list s1 = first_in_free_list s"
    using expandedD [OF s1(3)] by simp_all
  have inv1: "heap_inv T s1 ?ks" using s1(2) by (simp add: heap_ok_def)
  note x1 = heap_inv_at [OF inv1]
  have add: "Pointer_unchecked_add (Pointer ?b) (sz (?x + l)) = gptr ?b (?x + l)"
    "Pointer_unchecked_add (gptr ?b (?x + l)) HEADER_SIZE = gptr ?b d"
    "Pointer_unchecked_add (gptr ?b d) (sz q) = gptr ?b (Suc (?x + l + q))"
    "Pointer_unchecked_add (gptr ?b (Suc (?x + l + q))) (sz r) = gptr ?b (?x + n)"
    "Pointer_unchecked_sub (gptr ?b (?x + l)) (sz l) = gptr ?b ?x"
    "Pointer_unchecked_sub (gptr ?b d) HEADER_SIZE = gptr ?b (?x + l)"
    using ar(2,16,17,18,19) i(8) d by (simp_all add: base_gptr gptr_add gptr_sub add.assoc)
  have ge: "sz ?x \<le> sz (?x + l)" using ar(16) i(8) d by (simp add: Size_le_iff)
  let ?z = "allocated_space s > sz d \<and> z"
  let ?tail = "do {
        s2 \<leftarrow> unregister_free_space_first_chunk c s1 (gptr ?b ?x) (bi (bin_of n));
        (v3, s3) \<leftarrow> register_free_space c s2 (gptr ?b ?x) (sz (last_size 0 us)) (sz l);
        s4 \<leftarrow> register_allocation c s3 (gptr ?b (?x + l)) v3 (sz (Suc q));
        (v5, s5) \<leftarrow> register_free_space c s4 (gptr ?b (?x + l + Suc q)) (sz (Suc q)) (sz r);
        s6 \<leftarrow> record_prev ops c s5 (gptr ?b (?x + n)) SIZEOF_FreeChunkHeader v5;
        paranoid_check_chunk ops c s6 (gptr ?b (?x + l));
        paranoid_check_chunk ops c s6 (gptr ?b ?x);
        paranoid_check_chunk ops c s6 (gptr ?b (?x + l + Suc q));
        paranoid_assert c (do { k \<leftarrow> get_size c (mem s6) (gptr ?b (?x + l)); Some (ChunkSize_size k = sz (Suc q)) });
        paranoid_assert c (Some (gaddr ?b d mod ucast (bytes (sz a)) = 0));
        paranoid_check_chunk ops c s6 (gptr ?b (?x + l));
        m \<leftarrow> (if ?z then write_bytes (mem s6) (gaddr ?b d) 0 (unat (bytes (sz q))) else Some (mem s6));
        Some (Some (gptr ?b d), s6\<lparr>mem := m\<rparr>) }"
  have run: "alloc_in_chunk ops c s (gptr ?b ?x) (sz n) (bi (bin_of n)) (sz a) (sz q) z =
      (if \<not> ok then Some (None, s1) else ?tail)"
    using x1(6) s1(1) ge ar(5)
    by (simp add: alloc_in_chunk_def ar(4,6-14) add gets_gptr [OF i(1) xT] b1 Let_def HEADER_SIZE_eq [THEN arg_cong [of _ _ raw_units]]
        sz_def [symmetric] del: HEADER_SIZE_eq FREE_CHUNK_HEADER_SIZE_eq Size_is_empty_iff of_nat_Suc
        cong: if_cong)
  show ?thesis
  proof (cases ok)
    case False
    moreover have "ensured ops T s False s1" using ensuredI [OF s1(1) ar(15)] False by simp
    ultimately show ?thesis using run s1(2,3) by auto
  next
    case True
    have A: "?x + l + Suc q \<le> units (allocated_space s1)" "0 < r \<Longrightarrow> ?x + l + Suc q < units (allocated_space s1)"
      using s1(4) True d by (auto split: if_splits)
    obtain s2 v3 s3 s4 v5 s5 s6 where m:
      "unregister_free_space_first_chunk c s1 (gptr ?b ?x) (bi (bin_of n)) = Some s2"
      "register_free_space c s2 (gptr ?b ?x) (sz (last_size 0 us)) (sz l) = Some (v3, s3)"
      "register_allocation c s3 (gptr ?b (?x + l)) v3 (sz (Suc q)) = Some s4"
      "register_free_space c s4 (gptr ?b (?x + l + Suc q)) (sz (Suc q)) (sz r) = Some (v5, s5)"
      "record_prev ops c s5 (gptr ?b (?x + n)) SIZEOF_FreeChunkHeader v5 = Some s6"
      and inv6: "heap_inv T s6 ?ks'" and e6: "same_env s1 s6"
      and fr6: "framed ?b (starts 0 ?ks \<union> starts 0 ?ks') (mem s1) (mem s6)"
      using alloc_moves [OF inv1 t _ ar(2) A, of c] f unfolding b1 by blast
    have b6: "base_address s6 = ?b" using same_envD [OF e6] b1 by simp
    note i6 = heap_invD [OF inv6]
    have inv6': "heap_inv T s6 ((us @ left_over l) @ (Suc q, True) # left_over r @ vs)"
      "heap_inv T s6 (us @ left_over l @ (Suc q, True) # left_over r @ vs)"
      "heap_inv T s6 (((us @ left_over l) @ [(Suc q, True)]) @ left_over r @ vs)"
      using inv6 by (simp_all add: carved_def)
    note x6 = heap_inv_at [OF inv6'(1)]
    have chk: "paranoid_check_chunk ops c s6 (gptr ?b (?x + l)) = Some ()" "paranoid_check_chunk ops c s6 (gptr ?b ?x) = Some ()"
      "paranoid_check_chunk ops c s6 (gptr ?b (?x + l + Suc q)) = Some ()"
      using paranoid_check_chunk_ok [OF inv6'(1) t, of c] paranoid_check_chunk_ok [OF inv6'(2) t, of c]
        paranoid_check_chunk_ok [OF inv6'(3) t, of c] b6
      by (simp_all add: add.assoc)
    have a27: "a < 2 ^ 27" using a by (simp add: power_strict_increasing [of j 27 "2 :: nat", simplified])
    have al: "32 * a dvd unat (gaddr ?b d)" "gaddr ?b d mod ucast (bytes (sz a)) = 0"
      using data_aligned [OF i(1), of ?x a] ar(16) a(1) a27 unfolding d_def by simp_all
    have "get_size c (mem s6) (gptr ?b (?x + l)) = Some (packed (Suc q) True)"
      using x6(3,7) gets_gptr(2) [OF i(1), of "?x + l"] b6 by simp
    then have tail: "?tail = do {
        m \<leftarrow> (if ?z then write_bytes (mem s6) (gaddr ?b d) 0 (unat (bytes (sz q))) else Some (mem s6));
        Some (Some (gptr ?b d), s6\<lparr>mem := m\<rparr>) }"
      using m chk al(2) ar(17) by simp
    have dp: "gptr ?b d = data_ptr ?b (?x + l)" by (simp add: data_ptr_def d)
    obtain m' where m': "(if ?z then write_bytes (mem s6) (gaddr ?b d) 0 (unat (bytes (sz q))) else Some (mem s6)) = Some m'"
      "heap_inv T (s6\<lparr>mem := m'\<rparr>) ?ks'" "framed ?b {d..<d + (if ?z then q else 0)} (mem s6) m'"
      "?z \<Longrightarrow> \<forall>k. 32 * d \<le> k \<and> k < 32 * (d + q) \<longrightarrow> byte_at m' ?b k = Some 0" "\<not> ?z \<Longrightarrow> m' = mem s6"
    proof (cases ?z)
      case True
      then show ?thesis using that zero_allocation [OF inv6] unfolding b6 d by auto
    next
      case False
      have self: "s6\<lparr>mem := mem s6\<rparr> = s6" by simp
      show ?thesis
        by (rule that [of "mem s6"]) (use False inv6 in \<open>simp_all only: self if_False framed_refl refl simp_thms\<close>)
    qed
    let ?s = "s6\<lparr>mem := m'\<rparr>"
    have fr: "framed ?b (alloc_frame ?ks ?ks' (Suc (?x + l)) (if z then q else 0)) (mem s1) m'"
      using framed_trans [OF fr6 m'(3)] by (rule framed_mono) (auto simp: alloc_frame_def d)
    have "env_ok (env ?s) (mem ?s) (base_address ?s)"
      using env_ok_dom [of "env s1" "mem s1" "base_address s1" m'] s1(2) same_envD [OF e6] fr
      by (simp add: heap_ok_def framed_def)
    then have ok': "heap_ok env_ok T ?s ?ks'" using m'(2) by (simp add: heap_ok_def)
    have zero: "byte_at m' ?b k = Some 0 \<or> 32 * units (allocated_space s) \<le> k \<and> byte_at m' ?b k = byte_at (mem s1) ?b k"
      if z and k: "32 * Suc (?x + l) \<le> k \<and> k < 32 * (Suc (?x + l) + q)" for k
    proof (cases ?z)
      case True
      then show ?thesis using m'(4) k d by simp
    next
      case False
      then have "units (allocated_space s) \<le> d" using that(1) ar(16) i(8) by (simp add: Size_less_iff)
      then have "32 * units (allocated_space s) \<le> k" using k d by simp
      moreover have "byte_at (mem s6) ?b (32 * (k div 32) + k mod 32) = byte_at (mem s1) ?b (32 * (k div 32) + k mod 32)"
      proof (rule framed_byte [OF i(1) fr6])
        show "starts 0 ?ks \<union> starts 0 ?ks' \<subseteq> {..<T}"
          using starts_range [OF i(5), of _ 0] starts_range [OF i6(5), of _ 0] i(4) i6(4) by auto
        have y: "Suc (?x + l) \<le> k div 32" "k div 32 < Suc (?x + l) + q" using div_between [OF conjunct1 [OF k] conjunct2 [OF k]] by blast+
        have e: "Suc (?x + l) + q \<le> T" using x6(3) by simp
        show "k div 32 < T" by (rule less_le_trans [OF y(2) e])
        have "k div 32 \<notin> starts 0 ?ks'"
          using starts_carved [of us vs "k div 32" l q r] i(5) y by fastforce
        moreover have "k div 32 \<notin> starts 0 ?ks"
          using starts_range [of us "k div 32" 0] starts_range [of vs "k div 32" "?x + n"] i(5) y ar(2)
          by (auto simp: starts_append)
        ultimately show "k div 32 \<notin> starts 0 ?ks \<union> starts 0 ?ks'" by simp
      qed simp
      ultimately show ?thesis using m'(5) [OF False] by simp
    qed
    have "alloc_in_chunk ops c s (gptr ?b ?x) (sz n) (bi (bin_of n)) (sz a) (sz q) z = Some (Some (data_ptr ?b (?x + l)), ?s)"
      using run True tail m'(1) dp by simp
    moreover have "same_env s1 ?s" using e6 by (simp add: same_env_def)
    moreover have "32 * a dvd unat (address (data_ptr ?b (?x + l)))" using al(1) dp [symmetric] by simp
    moreover have "ensured ops T s True s1" using ensuredI [OF s1(1) ar(15)] True by simp
    moreover have "served env_ok T (units (allocated_space s)) us n vs a q z l r s1 ?s"
      using calculation(2,3) ar(2,3) ok' fr zero unfolding served_def b1 by simp
    ultimately show ?thesis using s1(2,3) by blast
  qed
qed

end

section \<open>Initialisation\<close>

text \<open>An allocator that has not taken its address space yet.\<close>

definition fresh_ok :: "('e \<Rightarrow> memory \<Rightarrow> bool) \<Rightarrow> 'e machine \<Rightarrow> bool" where
  "fresh_ok env_init s \<longleftrightarrow> base_address s = 0 \<and> env_init (env s) (mem s) \<and>
     mask_inv (free_lists_with_unallocated_memory s) \<and> mask_bits (free_lists_with_unallocated_memory s) = {} \<and>
     first_in_free_list s = replicate 2432 NULL"

lemma Allocator_new_fresh: "env_init e m \<Longrightarrow> fresh_ok env_init (Allocator_new e m)"
  by (simp add: fresh_ok_def Allocator_new_def mask_inv_new mask_bits_new)

text \<open>Before the first chunk is registered, every list is empty.\<close>

lemma empty_gap:
  assumes f: "fresh_ok env_init s" and b: "region_ok b T" and m: "mapped_until m b 1"
  shows "gap_inv T (s\<lparr>env := e, mem := m, base_address := b, allocated_space := sz 1\<rparr>) [] T []"
proof -
  have "(1 :: nat) \<le> T" using region_okD(2) [OF b] by simp
  then have "lists_by T Map.empty (\<lambda>_. []) (s\<lparr>env := e, mem := m, base_address := b, allocated_space := sz 1\<rparr>)"
    using f b m by (simp add: lists_by_def fresh_ok_def members_def)
  then have "lists_ok T Map.empty (s\<lparr>env := e, mem := m, base_address := b, allocated_space := sz 1\<rparr>)"
    unfolding lists_ok_def by blast
  then show ?thesis by (simp add: gap_inv_def frees_around_def)
qed

lemma initial_register:
  assumes f: "fresh_ok env_init s" and b: "region_ok b T" and m: "mapped_until m b 1"
    and s1_def: "s1 = s\<lparr>env := e, mem := m, base_address := b, allocated_space := sz 1\<rparr>"
  shows "\<exists>mask m' firsts. BitMask_set (free_lists_with_unallocated_memory s) (bi (bin_of T)) = Some mask \<and>
    write_free_chunk_header c m (gptr b 0) \<lparr>prev_chunk_size = sz 0, chunk_size = packed T False, next_in_list = NULL,
      prev_in_list = NULL\<rparr> = Some m' \<and>
    set_unchecked (first_in_free_list s) (bin_of T) (gptr b 0) = Some firsts \<and>
    heap_inv T (s1\<lparr>free_lists_with_unallocated_memory := mask, mem := m', first_in_free_list := firsts\<rparr>) [(T, False)] \<and>
    framed b {0} m m'"
proof -
  have g: "gap_inv T s1 [] T []" unfolding s1_def by (rule empty_gap [OF f b m])
  have T: "0 < T" "T < 2 ^ 27" using b by (simp_all add: region_ok_def)
  have b1: "base_address s1 = b" "allocated_space s1 = sz 1" "mem s1 = m"
    "free_lists_with_unallocated_memory s1 = free_lists_with_unallocated_memory s"
    "first_in_free_list s1 = first_in_free_list s" by (simp_all add: s1_def)
  obtain s2 where s2: "register_free_space c s1 (gptr b 0) (sz 0) (sz T) = Some (sz T, s2)"
    "moved T [] T [] [(T, False)] T [] s1 s2"
    using gap_put [OF g, of T c] T(1) b1 by auto
  have acc: "paranoid_check_access c s1 (gptr b 0) SIZEOF_FreeChunkHeader = Some ()"
    using paranoid_check_access_ok [of s1 T 0 SIZEOF_FreeChunkHeader c] b1 b T sizeof_le by simp
  have firsts: "first_in_free_list s = replicate 2432 NULL" using f by (simp add: fresh_ok_def)
  have u: "units (sz T) = T" using T by simp
  have "\<exists>mask m'. BitMask_set (free_lists_with_unallocated_memory s) (bi (bin_of T)) = Some mask \<and>
    write_free_chunk_header c m (gptr b 0) \<lparr>prev_chunk_size = sz 0, chunk_size = packed T False, next_in_list = NULL,
      prev_in_list = NULL\<rparr> = Some m' \<and>
    s2 = s1\<lparr>first_in_free_list := (first_in_free_list s)[bin_of T := gptr b 0], mem := m',
      free_lists_with_unallocated_memory := mask\<rparr>"
    using s2(1) T acc bin_of_range [of T]
    by (auto simp: register_free_space_def size_to_bin_round_down_eq u b1 firsts new_unallocated_sz
        bind_eq_Some_conv)
  then obtain mask m' where r: "BitMask_set (free_lists_with_unallocated_memory s) (bi (bin_of T)) = Some mask"
    "write_free_chunk_header c m (gptr b 0) \<lparr>prev_chunk_size = sz 0, chunk_size = packed T False, next_in_list = NULL,
      prev_in_list = NULL\<rparr> = Some m'"
    and s2eq: "s2 = s1\<lparr>first_in_free_list := (first_in_free_list s)[bin_of T := gptr b 0], mem := m',
      free_lists_with_unallocated_memory := mask\<rparr>" by blast
  have g2: "gap_inv T s2 [(T, False)] T []" and f2: "framed b (gap_starts [] T [] \<union> gap_starts [(T, False)] T []) m (mem s2)"
    using s2(2) b1 by (simp_all add: moved_def)
  have "heap_inv T s2 [(T, False)]"
    using gap_invD [OF g2] frees_around_closed [of "[(T, False)]" "[]"] by (simp add: heap_inv_def)
  moreover have "s2 = s1\<lparr>free_lists_with_unallocated_memory := mask, mem := m',
      first_in_free_list := (first_in_free_list s)[bin_of T := gptr b 0]\<rparr>" using s2eq by simp
  moreover have "framed b {0} m m'" using f2 s2eq by (simp add: gap_starts_def)
  moreover have "set_unchecked (first_in_free_list s) (bin_of T) (gptr b 0) =
      Some ((first_in_free_list s)[bin_of T := gptr b 0])" using bin_of_range by (simp add: firsts)
  ultimately show ?thesis using r by blast
qed

context env_contract
begin

lemma initialize_impl_ok:
  assumes f: "fresh_ok env_init s"
  shows "\<exists>ok s'. initialize_impl ops c s = Some (ok, s') \<and>
    (if ok then heap_ok env_ok T s' [(T, False)] \<and>
       (\<exists>b e m e' m'. b \<noteq> 0 \<and> allocate_address_space ops (env s) (mem s) = Some (b, e, m) \<and> env_ok e m b \<and>
         expand_memory_until ops e m b (sz 1) = Some (True, e', m') \<and> base_address s' = b \<and>
         allocated_space s' = sz 1 \<and> mem s \<subseteq>\<^sub>m m' \<and> framed b {0} m' (mem s'))
     else fresh_ok env_init s')"
proof -
  have init: "env_init (env s) (mem s)" using f by (simp add: fresh_ok_def)
  obtain b e m where a: "allocate_address_space ops (env s) (mem s) = Some (b, e, m)" "mem s \<subseteq>\<^sub>m m"
    "if b = 0 then env_init e m else env_ok e m b" using allocate_ok [OF init] by blast
  show ?thesis
  proof (cases "b = 0")
    case True
    then have "fresh_ok env_init (s\<lparr>env := e, mem := m\<rparr>)" using f a(3) by (simp add: fresh_ok_def)
    then show ?thesis using a(1) True by (auto simp: initialize_impl_def)
  next
    case False
    then have ok: "env_ok e m b" using a(3) by simp
    note b = env_ok_region [OF ok]
    have T: "1 \<le> T" "T < 2 ^ 27" using b by (simp_all add: region_ok_def)
    have b32: "unat b mod 32 = 0" using b by (simp add: region_ok_def)
    then have "unat b mod 8 = 0" by presburger
    then have al: "b mod 32 = 0" "b mod 8 = 0" using b32 by (simp_all add: unat_eq_0 [symmetric] unat_mod)
    obtain g e' m' where x: "expand_memory_until ops e m b (sz 1) = Some (g, e', m')" "m \<subseteq>\<^sub>m m'" "env_ok e' m' b"
      "g \<longrightarrow> mapped_until m' b 1" using expand_ok [OF ok T(1)] by blast
    have mono: "mem s \<subseteq>\<^sub>m m'" using a(2) x(2) by (rule map_le_trans)
    show ?thesis
    proof (cases g)
      case False
      obtain e'' m'' where y: "free_address_space ops e' m' b = Some (e'', m'')" using free_ok [OF x(3)] by blast
      have "env_init e'' m''" using undo_ok [OF init a(1) \<open>b \<noteq> 0\<close> _ y] x(1) False by simp
      then have "fresh_ok env_init (s\<lparr>env := e'', mem := m''\<rparr>)" using f by (simp add: fresh_ok_def)
      then show ?thesis using a(1) \<open>b \<noteq> 0\<close> x(1) y False al by (auto simp: initialize_impl_def)
    next
      case True
      then have m1: "mapped_until m' b 1" using x(4) by simp
      obtain mask m3 firsts where r: "BitMask_set (free_lists_with_unallocated_memory s) (bi (bin_of T)) = Some mask"
        "write_free_chunk_header c m' (gptr b 0) \<lparr>prev_chunk_size = sz 0, chunk_size = packed T False,
          next_in_list = NULL, prev_in_list = NULL\<rparr> = Some m3"
        "set_unchecked (first_in_free_list s) (bin_of T) (gptr b 0) = Some firsts"
        and inv: "heap_inv T (s\<lparr>env := e', mem := m', base_address := b, allocated_space := sz 1,
          free_lists_with_unallocated_memory := mask, mem := m3, first_in_free_list := firsts\<rparr>) [(T, False)]"
        and fr: "framed b {0} m' m3"
        using initial_register [OF f b m1 refl, where c = c and e = e'] by auto
      let ?s = "s\<lparr>env := e', base_address := b, allocated_space := sz 1,
          free_lists_with_unallocated_memory := mask, mem := m3, first_in_free_list := firsts\<rparr>"
      have "s\<lparr>env := e', mem := m', base_address := b, allocated_space := sz 1,
          free_lists_with_unallocated_memory := mask, mem := m3, first_in_free_list := firsts\<rparr> = ?s" by simp
      with inv have inv: "heap_inv T ?s [(T, False)]" by (rule back_subst [of "\<lambda>s. heap_inv T s [(T, False)]"])
      have acc: "paranoid_check_access c (s\<lparr>env := e', mem := m', base_address := b, allocated_space := sz 1\<rparr>)
          (gptr b 0) SIZEOF_FreeChunkHeader = Some ()"
        using paranoid_check_access_ok [of "s\<lparr>env := e', mem := m', base_address := b, allocated_space := sz 1\<rparr>" T 0
            SIZEOF_FreeChunkHeader c] b T sizeof_le by simp
      have chk: "paranoid_check_chunk ops c ?s (gptr b 0) = Some ()"
        using paranoid_check_chunk_ok [of T ?s "[]" "[(T, False)]" ops c, OF _ total_space_ok] inv by simp
      have "env_ok e' m3 b" using env_ok_dom [OF x(3)] fr by (simp add: framed_def)
      then have "heap_ok env_ok T ?s [(T, False)]" using inv by (simp add: heap_ok_def)
      moreover have "initialize_impl ops c s = Some (True, ?s)"
      proof -
        have u: "units (sz T) = T" using T by simp
        have z: "Size 0 = sz 0" by (simp add: sz_def)
        show ?thesis
          using a(1) \<open>b \<noteq> 0\<close> x(1) True al acc chk r
          by (simp add: initialize_impl_def Let_def total_space_ok size_to_bin_round_down_eq u z new_unallocated_sz
              bin_of_range base_gptr)
      qed
      moreover have "\<exists>b e m e' m'. b \<noteq> 0 \<and> allocate_address_space ops (env s) (mem s) = Some (b, e, m) \<and> env_ok e m b \<and>
         expand_memory_until ops e m b (sz 1) = Some (True, e', m') \<and> base_address ?s = b \<and>
         allocated_space ?s = sz 1 \<and> mem s \<subseteq>\<^sub>m m' \<and> framed b {0} m' (mem ?s)"
        using a(1) \<open>b \<noteq> 0\<close> ok x(1) True mono fr by simp
      ultimately show ?thesis by (intro exI [of _ True] exI [of _ ?s]) simp
    qed
  qed
qed

end

section \<open>Allocating\<close>

lemma alloc_min_size_ok:
  assumes "0 < a" "a < 2 ^ 32" "q < 2 ^ 32"
  shows "alloc_min_size c (sz a) (sz q) = Some (if q + a < 2 ^ 32 then Some (sz (q + a)) else None)"
proof -
  have "Size_unchecked_sub c (sz a) (Size 1) = Some (sz (a - 1))"
    using Size_unchecked_sub_sz [of 1 a c] assms by (simp add: sz_def)
  then show ?thesis using assms by (simp add: alloc_min_size_def Size_checked_add_eq)
qed

text \<open>
  Why an allocation may fail on a layout: the request is beyond the limit, or no free chunk lies in
  its rounded-up bin or above, and either no free chunk is large enough or the search stops at a
  chunk of the request's own rounded-down bin that is too small.
\<close>

definition no_room :: "layout \<Rightarrow> nat \<Rightarrow> bool" where
  "no_room ks n \<longleftrightarrow> 2 ^ 25 < n \<or>
     (\<forall>x k. frees 0 ks x = Some k \<longrightarrow> bin_of k < bin_up 7 n) \<and>
     ((\<forall>x k. frees 0 ks x = Some k \<longrightarrow> k < n) \<or> (\<exists>x k. frees 0 ks x = Some k \<and> k < n \<and> bin_of k = bin_of n))"

lemma power_two_size: "j < 32 \<Longrightarrow> is_power_of_two (raw_units (sz (2 ^ j))) \<and> raw_units (sz (2 ^ j)) \<noteq> 0"
proof -
  assume j: "j < 32"
  have "(2 :: nat) ^ j < 2 ^ 32" using j by (intro power_strict_increasing) simp_all
  then have u: "unat (raw_units (sz (2 ^ j))) = 2 ^ j"
    by (simp only: raw_units_sz unat_of_nat) simp
  have "raw_units (sz (2 ^ j)) \<noteq> 0"
    using u by (metis power_not_zero unsigned_0 zero_neq_numeral)
  moreover have "is_power_of_two (raw_units (sz (2 ^ j)))"
    unfolding is_power_of_two_iff u using j by auto
  ultimately show ?thesis by blast
qed

context env_contract
begin

lemma alloc_impl_heap_ok:
  assumes h: "heap_ok env_ok T s ks" and j: "j < 32" and q: "q < 2 ^ 32"
  shows "\<exists>res s1 s'. alloc_impl ops c s (sz (2 ^ j)) (sz q) z = Some (res, s') \<and> expanded s s1 \<and> heap_ok env_ok T s1 ks \<and>
    (res = None \<and> s' = s1 \<and> (s1 = s \<and> no_room ks (q + 2 ^ j) \<or> ensured ops T s False s1) \<or>
     ensured ops T s True s1 \<and>
     (\<exists>us n vs l r. ks = us @ (n, False) # vs \<and> res = Some (data_ptr (base_address s) (extent us + l)) \<and>
       served env_ok T (units (allocated_space s)) us n vs (2 ^ j) q z l r s1 s'))"
proof -
  let ?a = "2 ^ j :: nat" and ?b = "base_address s"
  have inv: "heap_inv T s ks" using h by (simp add: heap_ok_def)
  note i = heap_invD [OF inv]
  have a: "0 < ?a" "?a < 2 ^ 32" using j by (simp, intro power_strict_increasing, simp_all)
  note p2 = power_two_size [OF j]
  have init: "initialize ops c s = Some (True, s)" using region_okD(4) [OF i(1)] by (simp add: initialize_def)
  note min = alloc_min_size_ok [OF a q, of c]
  have none: ?thesis if "alloc_impl ops c s (sz ?a) (sz q) z = Some (None, s)" "no_room ks (q + ?a)"
    using that h by (intro exI [of _ None] exI [of _ s]) simp
  show ?thesis
  proof (cases "q + ?a \<le> 2 ^ 25")
    case False
    have "alloc_impl ops c s (sz ?a) (sz q) z = Some (None, s)"
    proof (cases "q + ?a < 2 ^ 32")
      case True
      then have "raw_units MAX_ALLOCATION_SIZE < raw_units (sz (q + ?a))"
        using False unfolding raw_units_gt_iff by simp
      then show ?thesis using True init min p2 by (simp add: alloc_impl_def del: raw_units_sz)
    next
      case False
      then show ?thesis using init min p2 by (simp add: alloc_impl_def del: raw_units_sz)
    qed
    then show ?thesis using none False by (simp add: no_room_def)
  next
    case True
    let ?n = "q + ?a"
    have n32: "?n < 2 ^ 32" using True by simp
    have max: "\<not> raw_units MAX_ALLOCATION_SIZE < raw_units (sz ?n)"
      using True n32 unfolding raw_units_gt_iff by simp
    obtain r where r: "alloc_find_bin s (sz ?n) = Some (map_option bi r)"
      "case r of None \<Rightarrow> \<forall>x k. frees 0 ks x = Some k \<longrightarrow> bin_of k < bin_of ?n
       | Some i \<Rightarrow> i \<in> mask_bits (free_lists_with_unallocated_memory s) \<and> bin_of ?n \<le> i \<and>
         ((\<exists>x k. frees 0 ks x = Some k \<and> bin_up 7 ?n \<le> bin_of k) \<longrightarrow> bin_up 7 ?n \<le> i)"
      using alloc_find_bin_ok [OF i(7) True] by blast
    show ?thesis
    proof (cases r)
      case None
      then have "alloc_impl ops c s (sz ?a) (sz q) z = Some (None, s)"
        using init min p2 max n32 r(1) by (simp add: alloc_impl_def del: raw_units_sz)
      moreover have "k < ?n \<and> bin_of k < bin_up 7 ?n" if "frees 0 ks x = Some k" for x k
      proof -
        have "bin_of k < bin_of ?n" using r(2) None that by auto
        then show ?thesis using bin_of_mono [of ?n k] bin_of_le_bin_up [OF True] by (meson le_less_trans less_le_trans not_le)
      qed
      ultimately show ?thesis using none by (auto simp: no_room_def)
    next
      case (Some i0)
      then have "i0 \<in> mask_bits (free_lists_with_unallocated_memory s)" using r(2) by simp
      then obtain x n where x: "frees 0 ks x = Some n" "bin_of n = i0" "first_in_free_list s ! i0 = gptr ?b x" "i0 < 2432"
        "length (first_in_free_list s) = 2432" using first_in_bin [OF i(7)] by blast
      obtain us vs where ks: "ks = us @ (n, False) # vs" "x = extent us"
        using frees_split [OF x(1) i(5)] by auto
      have inv': "heap_inv T s (us @ (n, False) # vs)" using inv ks by simp
      note at = heap_inv_at [OF inv']
      have xT: "x \<le> T" using at(3) ks(2) by simp
      have chk: "paranoid_check_chunk ops c s (gptr ?b x) = Some ()"
        using paranoid_check_chunk_ok [OF inv' total_space_ok, of c] ks(2) by simp
      have bin: "size_to_bin_round_down (sz n) = bi i0" using at(4) x(2) by (simp add: size_to_bin_round_down_eq)
      have run: "alloc_impl ops c s (sz ?a) (sz q) z = (if sz n < sz ?n then Some (None, s)
          else alloc_in_chunk ops c s (gptr ?b x) (sz n) (bi i0) (sz ?a) (sz q) z)"
        using init min p2 max n32 r(1) Some chk x(3,4,5) at(4,7) ks(2)
        by (simp add: alloc_impl_def gets_gptr [OF i(1) xT [unfolded ks(2)]] bin del: raw_units_sz)
      show ?thesis
      proof (cases "n < ?n")
        case True
        then have "sz n < sz ?n" using n32 by (simp add: Size_less_iff)
        moreover have "\<not> bin_up 7 ?n \<le> i0"
          using bin_up_le_bin_of_imp_le [OF at(1) \<open>?n \<le> 2 ^ 25\<close>] x(2) True by auto
        moreover have "bin_of n = bin_of ?n"
          using r(2) Some x(2) bin_of_mono [of n ?n] True by simp
        moreover have "bin_of k < bin_up 7 ?n" if "frees 0 ks y = Some k" for y k
          using r(2) Some calculation(2) that by (auto simp: not_le)
        ultimately have "no_room ks ?n" using x(1) True unfolding no_room_def by blast
        then show ?thesis using none run \<open>sz n < sz ?n\<close> by simp
      next
        case False
        then have "\<not> sz n < sz ?n" using at(4) n32 by (simp add: Size_less_iff)
        then have run: "alloc_impl ops c s (sz ?a) (sz q) z =
            alloc_in_chunk ops c s (gptr ?b (extent us)) (sz n) (bi (bin_of n)) (sz ?a) (sz q) z"
          using run x(2) ks(2) by simp
        have j27: "j < 27"
        proof (rule ccontr)
          assume "\<not> j < 27"
          then have "(2 :: nat) ^ 27 \<le> ?a" by (intro power_increasing) simp_all
          then show False using \<open>?n \<le> 2 ^ 25\<close> by simp
        qed
        have h': "heap_ok env_ok T s (us @ (n, False) # vs)" using h ks(1) by simp
        have f: "first_in_free_list s ! bin_of n = gptr ?b (extent us)" using x(2,3) ks(2) by simp
        have le: "q + ?a \<le> n" using False by simp
        show ?thesis
          using alloc_in_chunk_ok [OF h' f refl j27 le, of c z] unfolding run ks(1) by blast
      qed
    qed
  qed
qed

lemma alloc_impl_bad_align:
  "units align = 0 \<or> \<not> is_power_of_two (raw_units align) \<Longrightarrow> alloc_impl ops c s align q z = Some (None, s)"
  by (auto simp: alloc_impl_def units_def unat_eq_0)

text \<open>On a fresh allocator the same happens after the initialisation.\<close>

lemma alloc_impl_fresh:
  assumes f: "fresh_ok env_init s" and j: "j < 32"
  obtains (no_space) s' where "alloc_impl ops c s (sz (2 ^ j)) q z = Some (None, s')" "fresh_ok env_init s'"
  | (started) s' where "initialize_impl ops c s = Some (True, s')" "heap_ok env_ok T s' [(T, False)]"
    "alloc_impl ops c s (sz (2 ^ j)) q z = alloc_impl ops c s' (sz (2 ^ j)) q z"
proof -
  have b: "base_address s = 0" using f by (simp add: fresh_ok_def)
  note p2 = power_two_size [OF j]
  obtain ok s' where i: "initialize_impl ops c s = Some (ok, s')"
    "if ok then heap_ok env_ok T s' [(T, False)] else fresh_ok env_init s'"
    using initialize_impl_ok [OF f, of c] by (metis (no_types, lifting))
  show thesis
  proof (cases ok)
    case True
    then have h: "heap_ok env_ok T s' [(T, False)]" using i(2) by simp
    then have "base_address s' \<noteq> 0" using region_okD(4) heap_invD(1) unfolding heap_ok_def by blast
    then have "alloc_impl ops c s (sz (2 ^ j)) q z = alloc_impl ops c s' (sz (2 ^ j)) q z"
      using b i(1) True p2 by (simp add: alloc_impl_def initialize_def del: raw_units_sz)
    then show thesis using started i(1) h True by simp
  next
    case False
    then have "alloc_impl ops c s (sz (2 ^ j)) q z = Some (None, s')"
      using b i(1) False p2 by (simp add: alloc_impl_def initialize_def del: raw_units_sz)
    then show thesis using no_space i(2) False by simp
  qed
qed

end

end
