(* ===== verification/Live_Chunks.thy ===== *)
theory Live_Chunks
  imports Allocation
begin

text \<open>
  What a client sees of the heap: \<open>lives\<close> maps the offset of every allocated chunk to its size.
  On this map allocating is an insertion, freeing a deletion and resizing an update, live chunks
  never overlap, and every operation keeps the bytes of the live chunks it leaves in place.
\<close>

section \<open>The live chunks of a layout\<close>

fun lives :: "nat \<Rightarrow> layout \<Rightarrow> nat \<rightharpoonup> nat" where
  "lives x [] = Map.empty"
| "lives x ((n, a) # ks) = (if a then (lives (x + n) ks)(x \<mapsto> n) else lives (x + n) ks)"

lemma lives_append: "lives x (us @ vs) = lives (x + extent us) vs ++ lives x us"
proof (induction us arbitrary: x)
  case (Cons k us)
  then show ?case
    by (cases k) (auto simp: add.assoc [symmetric] map_add_def fun_eq_iff split: option.splits)
qed simp

lemma lives_split:
  "lives x ks y = Some n \<Longrightarrow> sizes_pos ks \<Longrightarrow> \<exists>us vs. ks = us @ (n, True) # vs \<and> y = x + extent us"
proof (induction x ks rule: lives.induct)
  case (2 x k a ks)
  show ?case
  proof (cases "a \<and> y = x")
    case True
    with 2 have "n = k" by simp
    then show ?thesis using True by (intro exI [of _ "[]"] exI [of _ ks]) simp
  next
    case False
    then obtain us vs where "ks = us @ (n, True) # vs" "y = x + k + extent us"
      using 2 by (auto split: if_splits)
    then show ?thesis by (intro exI [of _ "(k, a) # us"] exI [of _ vs]) simp
  qed
qed simp

lemma lives_starts: "lives x ks y = Some n \<Longrightarrow> y \<in> starts x ks"
  by (induction x ks rule: lives.induct) (auto split: if_splits)

lemma lives_outside: "sizes_pos ks \<Longrightarrow> y < x \<or> x + extent ks \<le> y \<Longrightarrow> lives x ks y = None"
  using lives_starts [of x ks y] starts_range [of ks y x] by (cases "lives x ks y") auto

lemma lives_at:
  assumes "sizes_pos us" "sizes_pos vs" "0 < n"
  shows "lives 0 (us @ (n, a) # vs) = (if a then (lives (extent us + n) vs ++ lives 0 us)(extent us \<mapsto> n)
    else lives (extent us + n) vs ++ lives 0 us)"
  using lives_outside [OF assms(1), of "extent us" 0] assms
  by (auto simp: lives_append map_add_def fun_eq_iff split: option.splits)

lemma lives_around_None:
  "sizes_pos us \<Longrightarrow> sizes_pos vs \<Longrightarrow> extent us \<le> y \<Longrightarrow> y < z \<Longrightarrow> (lives z vs ++ lives 0 us) y = None"
  by (simp add: map_add_def lives_outside)

lemma lives_left_over [simp]: "lives x (left_over n) = Map.empty"
  by (simp add: left_over_def)

lemma lives_drop_lead: "lives (z + lead_free vs) (drop_lead_free vs) = lives z vs"
  by (auto simp: lead_free_def drop_lead_free_def split: list.splits bool.splits prod.splits)

lemma lives_drop_trail: "lives 0 (drop_trail_free us) = lives 0 us"
  by (cases us rule: rev_cases) (auto simp: drop_trail_free_def lives_append)

lemma sizes_pos_drop: "sizes_pos vs \<Longrightarrow> sizes_pos (drop_lead_free vs)" "sizes_pos us \<Longrightarrow> sizes_pos (drop_trail_free us)"
proof -
  show "sizes_pos vs \<Longrightarrow> sizes_pos (drop_lead_free vs)"
    by (cases vs) (auto simp: drop_lead_free_def split: bool.splits)
  show "sizes_pos us \<Longrightarrow> sizes_pos (drop_trail_free us)"
    by (cases us rule: rev_cases) (auto simp: drop_trail_free_def)
qed

section \<open>Operations on the live chunks\<close>

lemma lives_freed:
  assumes "sizes_pos us" "sizes_pos vs" "0 < n"
  shows "lives 0 (freed us n vs) = (lives 0 (us @ (n, True) # vs))(extent us := None)"
proof -
  have "extent (drop_trail_free us) + (n + trail_free us + lead_free vs) = extent us + n + lead_free vs"
    using extent_trail [of us] by simp
  then have "lives (extent (drop_trail_free us) + (n + trail_free us + lead_free vs)) (drop_lead_free vs) =
      lives (extent us + n) vs" by (simp only: lives_drop_lead)
  moreover have "lives 0 (freed us n vs) =
      lives (extent (drop_trail_free us) + (n + trail_free us + lead_free vs)) (drop_lead_free vs) ++ lives 0 us"
    unfolding freed_def using assms sizes_pos_drop by (subst lives_at) (simp_all add: lives_drop_trail)
  ultimately have "lives 0 (freed us n vs) = lives (extent us + n) vs ++ lives 0 us" by (simp only:)
  then show ?thesis
    using assms lives_around_None [OF assms(1,2), of "extent us" "extent us + n"]
    by (simp add: lives_at fun_upd_idem)
qed

lemma lives_shrunk:
  assumes "sizes_pos us" "sizes_pos vs" "Suc k < n"
  shows "lives 0 (shrunk us n k vs) = (lives 0 (us @ (n, True) # vs))(extent us \<mapsto> Suc k)"
proof -
  have "lives 0 (shrunk us n k vs) =
      (lives (extent us + Suc k + (n - Suc k + lead_free vs)) (drop_lead_free vs) ++ lives 0 us)(extent us \<mapsto> Suc k)"
    unfolding shrunk_def using assms sizes_pos_drop by (subst lives_at) simp_all
  moreover have "extent us + Suc k + (n - Suc k + lead_free vs) = extent us + n + lead_free vs" using assms(3) by simp
  ultimately have "lives 0 (shrunk us n k vs) = (lives (extent us + n) vs ++ lives 0 us)(extent us \<mapsto> Suc k)"
    by (simp only: lives_drop_lead)
  then show ?thesis using assms lives_at [OF assms(1,2), of n True] by simp
qed

lemma lives_grown:
  assumes "sizes_pos us" "sizes_pos vs" "0 < n" "Suc k \<le> n + lead_free vs"
  shows "lives 0 (grown us n k vs) = (lives 0 (us @ (n, True) # vs))(extent us \<mapsto> max n (Suc k))"
proof (cases "Suc k \<le> n")
  case True
  then show ?thesis using assms by (simp add: grown_def lives_at max_absorb1)
next
  case False
  have "lives 0 (grown us n k vs) =
      (lives (extent us + Suc k + (n + lead_free vs - Suc k)) (drop_lead_free vs) ++ lives 0 us)(extent us \<mapsto> Suc k)"
    unfolding grown_def using False assms sizes_pos_drop by (simp, subst lives_at) (simp_all add: lives_append)
  moreover have "extent us + Suc k + (n + lead_free vs - Suc k) = extent us + n + lead_free vs" using assms(4) by simp
  ultimately have "lives 0 (grown us n k vs) = (lives (extent us + n) vs ++ lives 0 us)(extent us \<mapsto> Suc k)"
    by (simp only: lives_drop_lead)
  then show ?thesis
    using assms False lives_at [OF assms(1,2,3), of True] by (simp add: max_absorb2)
qed

lemma lives_carved:
  assumes "sizes_pos us" "sizes_pos vs" "n = l + Suc q + r"
  shows "lives 0 (carved us l q r vs) = (lives 0 (us @ (n, False) # vs))(extent us + l \<mapsto> Suc q)"
    "lives 0 (us @ (n, False) # vs) (extent us + l) = None"
proof -
  have 1: "lives 0 (us @ (n, False) # vs) = lives (extent us + n) vs ++ lives 0 us"
    using assms by (simp add: lives_at)
  have "lives 0 (carved us l q r vs) = lives 0 ((us @ left_over l) @ (Suc q, True) # (left_over r @ vs))"
    by (simp add: carved_def)
  also have "\<dots> = (lives (extent us + l + Suc q) (left_over r @ vs) ++ lives 0 (us @ left_over l))(extent us + l \<mapsto> Suc q)"
    using assms by (subst lives_at) simp_all
  also have "\<dots> = (lives (extent us + n) vs ++ lives 0 us)(extent us + l \<mapsto> Suc q)"
    using assms(3) by (simp add: lives_append add.assoc)
  finally show "lives 0 (carved us l q r vs) = (lives 0 (us @ (n, False) # vs))(extent us + l \<mapsto> Suc q)" using 1 by simp
  show "lives 0 (us @ (n, False) # vs) (extent us + l) = None"
    unfolding 1 by (rule lives_around_None) (use assms in simp_all)
qed

text \<open>Live chunks do not overlap.\<close>

lemma starts_avoid:
  assumes "sizes_pos ks" "lives 0 ks x = Some n"
  shows "starts 0 ks \<inter> {Suc x..<x + n} = {}"
proof -
  obtain us vs where ks: "ks = us @ (n, True) # vs" "x = extent us" using lives_split [OF assms(2,1)] by auto
  then have "sizes_pos us" "sizes_pos vs" using assms(1) by simp_all
  then show ?thesis
    using ks starts_range [of us _ 0] starts_range [of vs _ "x + n"] by (fastforce simp: starts_append)
qed

lemma lives_disjoint:
  assumes "sizes_pos ks" "lives 0 ks x = Some n" "lives 0 ks y = Some k" "x \<noteq> y"
  shows "x + n \<le> y \<or> y + k \<le> x"
proof -
  have "y \<notin> {Suc x..<x + n}" "x \<notin> {Suc y..<y + k}"
    using starts_avoid [OF assms(1,2)] starts_avoid [OF assms(1,3)] lives_starts [OF assms(2)] lives_starts [OF assms(3)]
    by blast+
  then show ?thesis using assms(4) by simp linarith
qed

lemma lives_pos: "sizes_pos ks \<Longrightarrow> lives 0 ks x = Some n \<Longrightarrow> 0 < n \<and> x + n \<le> extent ks"
  using lives_split [of 0 ks x n] by auto

section \<open>Contents\<close>

text \<open>The first \<open>n - 1\<close> data units of the chunk at \<open>x\<close>, that is, its data when its size is \<open>n\<close>.\<close>

definition data_kept :: "u64 \<Rightarrow> nat \<Rightarrow> nat \<Rightarrow> memory \<Rightarrow> memory \<Rightarrow> bool" where
  "data_kept b x n m m' \<longleftrightarrow>
     (\<forall>k. 32 * Suc x \<le> k \<and> k < 32 * (x + n) \<longrightarrow> byte_at m b k \<noteq> None \<longrightarrow> byte_at m' b k = byte_at m b k)"

lemma data_kept_refl [simp]: "data_kept b x n m m"
  by (simp add: data_kept_def)

lemma data_kept_trans: "data_kept b x n m m' \<Longrightarrow> data_kept b x n m' m'' \<Longrightarrow> data_kept b x n m m''"
  unfolding data_kept_def by metis

lemma data_kept_le: "data_kept b x n m m' \<Longrightarrow> k \<le> n \<Longrightarrow> data_kept b x k m m'"
  unfolding data_kept_def by (meson add_left_mono less_le_trans mult_le_mono2)

lemma data_kept_grow: "m \<subseteq>\<^sub>m m' \<Longrightarrow> data_kept b x n m m'"
  unfolding data_kept_def byte_at_def map_le_def by (metis domIff)

lemma data_kept_framed:
  assumes b: "region_ok b T" and f: "framed b G m m'" and G: "G \<subseteq> {..<T}" "G \<inter> {Suc x..<x + n} = {}" and x: "x + n \<le> T"
  shows "data_kept b x n m m'"
  unfolding data_kept_def
proof (intro allI impI)
  fix k assume k: "32 * Suc x \<le> k \<and> k < 32 * (x + n)"
  then have "Suc x \<le> k div 32" "k div 32 < x + n" using div_between by blast+
  then have "k div 32 \<in> {Suc x..<x + n}" by (rule atLeastLessThan_iff [THEN iffD2, OF conjI])
  then have "k div 32 \<notin> G" using G(2) by blast
  moreover have "k div 32 < T" by (rule less_le_trans [OF \<open>k div 32 < x + n\<close> x])
  ultimately have "byte_at m' b (32 * (k div 32) + k mod 32) = byte_at m b (32 * (k div 32) + k mod 32)"
    by (intro framed_byte [OF b f G(1)]) simp_all
  then show "byte_at m' b k = byte_at m b k" by simp
qed

text \<open>An operation that only writes headers keeps what a chunk holds before and after it.\<close>

lemma data_kept_headers:
  assumes b: "region_ok b T" and ks: "sizes_pos ks" "extent ks = T" "sizes_pos ks'" "extent ks' = T"
    and f: "framed b (starts 0 ks \<union> starts 0 ks') m m'" and x: "lives 0 ks x = Some n" "lives 0 ks' x = Some n'"
  shows "data_kept b x (min n n') m m'"
proof (rule data_kept_framed [OF b f])
  show "starts 0 ks \<union> starts 0 ks' \<subseteq> {..<T}"
    using starts_range [OF ks(1), of _ 0] starts_range [OF ks(3), of _ 0] ks(2,4) by auto
  show "(starts 0 ks \<union> starts 0 ks') \<inter> {Suc x..<x + min n n'} = {}"
    using starts_avoid [OF ks(1) x(1)] starts_avoid [OF ks(3) x(2)] by fastforce
  show "x + min n n' \<le> T" using lives_pos [OF ks(1) x(1)] ks(2) by (auto simp: min_def)
qed

end
