(* ===== verification/Clients.thy ===== *)
theory Clients
  imports Live_Chunks
begin

text \<open>
  The contract of the allocator as its clients see it, on the map of live chunks: each operation,
  called on a valid pointer, returns without a panic, changes the map by one update, keeps the
  contents of the other allocations, and restores the invariant. \<^verbatim>\<open>realloc\<close>, which is built from the
  other operations, is verified on this level.
\<close>

section \<open>Keeping the contents\<close>

definition keeps :: "u64 \<Rightarrow> (nat \<rightharpoonup> nat) \<Rightarrow> (nat \<rightharpoonup> nat) \<Rightarrow> memory \<Rightarrow> memory \<Rightarrow> bool" where
  "keeps b M M' m m' \<longleftrightarrow> (\<forall>x n n'. M x = Some n \<longrightarrow> M' x = Some n' \<longrightarrow> data_kept b x (min n n') m m')"

lemma keeps_refl [simp]: "keeps b M M' m m"
  by (simp add: keeps_def)

lemma keeps_grow: "m \<subseteq>\<^sub>m m' \<Longrightarrow> keeps b M M' m m'"
  by (simp add: keeps_def data_kept_grow)

lemma keeps_trans_left: "keeps b M M m m' \<Longrightarrow> keeps b M M' m' m'' \<Longrightarrow> keeps b M M' m m''"
  unfolding keeps_def using data_kept_trans data_kept_le by (metis min.cobounded1 min.idem)

lemma keeps_headers:
  assumes "heap_inv T s ks" "heap_inv T s' ks'"
    and "framed (base_address s) (starts 0 ks \<union> starts 0 ks') (mem s) (mem s')"
  shows "keeps (base_address s) (lives 0 ks) (lives 0 ks') (mem s) (mem s')"
  unfolding keeps_def
  using data_kept_headers [OF heap_invD(1) [OF assms(1)] heap_invD(5,4) [OF assms(1)] heap_invD(5,4) [OF assms(2)] assms(3)]
  by blast

text \<open>There is not enough free space right behind the chunk at \<open>x\<close> of size \<open>n\<close> to hold \<open>k\<close> units of data.\<close>

definition no_room_after :: "layout \<Rightarrow> nat \<Rightarrow> nat \<Rightarrow> nat \<Rightarrow> bool" where
  "no_room_after ks x n k \<longleftrightarrow> (\<forall>r. frees 0 ks (x + n) = Some r \<longrightarrow> n + r < Suc k)"

lemma frees_after:
  assumes "sizes_pos us" "sizes_pos vs" "0 < n" "frees 0 (us @ (n, True) # vs) (extent us + n) = Some r"
  shows "r = lead_free vs"
proof -
  have "frees 0 us (extent us + n) = None" using frees_outside [OF assms(1)] by simp
  then have v: "frees (extent us + n) vs (extent us + n) = Some r"
    using assms(4) by (simp add: frees_append map_add_def split: option.splits)
  then show ?thesis
  proof (cases vs)
    case (Cons v ws)
    obtain m a where "v = (m, a)" by (cases v)
    then show ?thesis using v assms(2) Cons frees_outside [of ws "extent us + n" "extent us + n + m"]
      by (auto split: if_splits)
  qed simp
qed

text \<open>A pointer to live data is valid: not null, aligned to a unit, and in the mapped part.\<close>

lemma live_split:
  assumes "heap_inv T s ks" "lives 0 ks x = Some n"
  obtains us vs where "ks = us @ (n, True) # vs" "x = extent us" "sizes_pos us" "sizes_pos vs" "0 < n" "n < 2 ^ 27"
proof -
  obtain us vs where ks: "ks = us @ (n, True) # vs" "x = extent us"
    using lives_split [OF assms(2) heap_invD(5) [OF assms(1)]] by auto
  then show thesis
    using that heap_invD(5) [OF assms(1)] heap_inv_at(4) [of T s us n True vs] assms(1) by simp
qed

lemma heap_ok_inv: "heap_ok env_ok T s ks \<Longrightarrow> heap_inv T s ks"
  by (simp add: heap_ok_def)

text \<open>
  An operation that stays inside the mapped part: the environment and the mapped size are the same,
  and nothing beyond the mapped size is written.
\<close>

definition inside :: "'e machine \<Rightarrow> 'e machine \<Rightarrow> bool" where
  "inside s s' \<longleftrightarrow> same_env s s' \<and>
     (\<exists>G \<subseteq> {..<units (allocated_space s)}. framed (base_address s) G (mem s) (mem s'))"

lemma insideI:
  "same_env s s' \<Longrightarrow> framed (base_address s) G (mem s) (mem s') \<Longrightarrow> G \<subseteq> {..<units (allocated_space s)} \<Longrightarrow> inside s s'"
  unfolding inside_def by blast

lemma inside_refl [simp]: "inside s s"
  unfolding inside_def by (auto intro: exI [of _ "{}"])

lemma inside_trans: "inside s s' \<Longrightarrow> inside s' s'' \<Longrightarrow> inside s s''"
proof -
  assume a: "inside s s'" "inside s' s''"
  obtain G where G: "same_env s s'" "G \<subseteq> {..<units (allocated_space s)}" "framed (base_address s) G (mem s) (mem s')"
    using a(1) unfolding inside_def by blast
  obtain H where H: "same_env s' s''" "H \<subseteq> {..<units (allocated_space s)}" "framed (base_address s) H (mem s') (mem s'')"
    using a(2) same_envD [OF G(1)] unfolding inside_def by auto
  show ?thesis
    by (rule insideI [OF same_env_trans [OF G(1) H(1)] framed_trans [OF G(3) H(3)]]) (use G(2) H(2) in blast)
qed

lemma insideD:
  assumes "inside s s'"
  shows "same_env s s'" "base_address s' = base_address s" "allocated_space s' = allocated_space s"
  using assms same_envD unfolding inside_def by blast+

lemma inside_starts:
  assumes "heap_inv T s ks" "heap_inv T s' ks'" "same_env s s'"
    and "framed (base_address s) (starts 0 ks \<union> starts 0 ks') (mem s) (mem s')"
  shows "inside s s'"
proof (rule insideI [OF assms(3,4)])
  show "starts 0 ks \<union> starts 0 ks' \<subseteq> {..<units (allocated_space s)}"
    using heads_start [OF heap_invD(9) [OF assms(1)]] heads_start [OF heap_invD(9) [OF assms(2)]] same_envD [OF assms(3)]
    by auto
qed

text \<open>
  Every operation is a sequence of such writes and of requests for more space, made in states that
  satisfy the invariant.
\<close>

inductive evolves :: "'e env_ops \<Rightarrow> ('e \<Rightarrow> memory \<Rightarrow> u64 \<Rightarrow> bool) \<Rightarrow> nat \<Rightarrow> 'e machine \<Rightarrow> 'e machine \<Rightarrow> bool"
  for ops env_ok T where
  evolves_refl: "evolves ops env_ok T s s"
| evolves_expand: "evolves ops env_ok T s s' \<Longrightarrow> heap_ok env_ok T s' ks \<Longrightarrow> ensured ops T s' r s'' \<Longrightarrow> evolves ops env_ok T s s''"
| evolves_write: "evolves ops env_ok T s s' \<Longrightarrow> inside s' s'' \<Longrightarrow> evolves ops env_ok T s s''"

lemma evolves_trans:
  assumes "evolves ops env_ok T s' s''" "evolves ops env_ok T s s'"
  shows "evolves ops env_ok T s s''"
  using assms by (induction rule: evolves.induct) (blast intro: evolves.intros)+

lemma evolves_inside: "inside s s' \<Longrightarrow> evolves ops env_ok T s s'"
  by (blast intro: evolves.intros)

lemma evolves_ensured: "heap_ok env_ok T s ks \<Longrightarrow> ensured ops T s r s1 \<Longrightarrow> inside s1 s' \<Longrightarrow> evolves ops env_ok T s s'"
  by (blast intro: evolves.intros)

context env_contract
begin

lemma heap_ok_moved:
  assumes "heap_ok env_ok T s ks" "heap_inv T s' ks'" "same_env s s'" "framed (base_address s) G (mem s) (mem s')"
  shows "heap_ok env_ok T s' ks'"
  using assms env_ok_dom [of "env s" "mem s" "base_address s" "mem s'"]
  by (simp add: heap_ok_def same_env_def framed_def)

lemma free_client:
  assumes h: "heap_ok env_ok T s ks" and x: "lives 0 ks x = Some n"
  shows "\<exists>s' ks'. free ops c s (data_ptr (base_address s) x) = Some s' \<and> heap_ok env_ok T s' ks' \<and>
    lives 0 ks' = (lives 0 ks)(x := None) \<and> inside s s' \<and>
    keeps (base_address s) (lives 0 ks) (lives 0 ks') (mem s) (mem s')"
proof -
  note inv = heap_ok_inv [OF h]
  obtain us vs where ks: "ks = us @ (n, True) # vs" "x = extent us" "sizes_pos us" "sizes_pos vs" "0 < n"
    using live_split [OF inv x] by metis
  obtain s' where s': "free ops c s (data_ptr (base_address s) x) = Some s'" "heap_inv T s' (freed us n vs)"
    "same_env s s'" "framed (base_address s) (starts 0 ks) (mem s) (mem s')"
    using free_chunk_ok [OF inv [unfolded ks(1)] total_space_ok, of c] unfolding ks(2) ks(1) by blast
  have f: "framed (base_address s) (starts 0 ks \<union> starts 0 (freed us n vs)) (mem s) (mem s')"
    by (rule framed_mono [OF s'(4)]) simp
  show ?thesis
    using s'(1) inside_starts [OF inv s'(2,3) f] keeps_headers [OF inv s'(2) f] heap_ok_moved [OF h s'(2,3,4)]
      lives_freed [OF ks(3,4,5)] ks(1,2) by metis
qed

lemma shrink_inplace_client:
  assumes h: "heap_ok env_ok T s ks" and x: "lives 0 ks x = Some n" and k: "0 < k" "Suc k < 2 ^ 32"
  shows "\<exists>s' ks'. shrink_inplace ops c s (data_ptr (base_address s) x) (sz k) = Some s' \<and> heap_ok env_ok T s' ks' \<and>
    lives 0 ks' = (lives 0 ks)(x \<mapsto> min n (Suc k)) \<and> inside s s' \<and>
    keeps (base_address s) (lives 0 ks) (lives 0 ks') (mem s) (mem s')"
proof -
  note inv = heap_ok_inv [OF h]
  obtain us vs where ks: "ks = us @ (n, True) # vs" "x = extent us" "sizes_pos us" "sizes_pos vs" "0 < n"
    using live_split [OF inv x] by metis
  show ?thesis
  proof (cases "n \<le> Suc k")
    case True
    then show ?thesis
      using shrink_inplace_keeps [OF inv [unfolded ks(1)] total_space_ok k(1) True k(2), of c] h x
      by (intro exI [of _ s] exI [of _ ks]) (simp add: ks(2) min_absorb1 fun_upd_idem)
  next
    case False
    then have kn: "Suc k < n" by simp
    obtain s' where s': "shrink_inplace ops c s (data_ptr (base_address s) x) (sz k) = Some s'"
      "heap_inv T s' (shrunk us n k vs)" "same_env s s'"
      "framed (base_address s) (starts 0 ks \<union> starts 0 (shrunk us n k vs)) (mem s) (mem s')"
      using shrink_inplace_ok [OF inv [unfolded ks(1)] total_space_ok k(1) kn, of c] unfolding ks(2) ks(1) by blast
    have "lives 0 (shrunk us n k vs) = (lives 0 ks)(x \<mapsto> min n (Suc k))"
      using lives_shrunk [OF ks(3,4) kn] ks(1,2) kn by (simp add: min_absorb2)
    then show ?thesis
      using s'(1) inside_starts [OF inv s'(2,3,4)] heap_ok_moved [OF h s'(2,3,4)] keeps_headers [OF inv s'(2,4)] by metis
  qed
qed

lemma grow_inplace_client:
  assumes h: "heap_ok env_ok T s ks" and x: "lives 0 ks x = Some n" and k: "k < 2 ^ 32"
  shows "\<exists>g s1 s' ks'. grow_inplace ops c s (data_ptr (base_address s) x) (sz k) = Some (g, s') \<and>
    expanded s s1 \<and> heap_ok env_ok T s1 ks \<and> heap_ok env_ok T s' ks' \<and> inside s1 s' \<and> (s1 = s \<or> ensured ops T s (g \<noteq> None) s1) \<and>
    keeps (base_address s) (lives 0 ks) (lives 0 ks') (mem s) (mem s') \<and>
    (case g of
       None \<Rightarrow> s' = s1 \<and> ks' = ks \<and> n \<le> k \<and> (ensured ops T s False s1 \<or> no_room_after ks x n k)
     | Some g \<Rightarrow> g = sz (max (n - 1) k) \<and> lives 0 ks' = (lives 0 ks)(x \<mapsto> max n (Suc k)))"
proof -
  note inv = heap_ok_inv [OF h]
  obtain us vs where ks: "ks = us @ (n, True) # vs" "x = extent us" "sizes_pos us" "sizes_pos vs" "0 < n"
    using live_split [OF inv x] by metis
  note inv' = inv [unfolded ks(1)]
  consider (enough) "Suc k \<le> n" | (stuck) "n < Suc k" "n + lead_free vs < Suc k" | (room) "n < Suc k" "Suc k \<le> n + lead_free vs"
    by linarith
  then show ?thesis
  proof cases
    case enough
    then have "max (n - 1) k = n - 1" "(lives 0 ks)(x \<mapsto> max n (Suc k)) = lives 0 ks" using x by (simp_all add: max_absorb1 fun_upd_idem)
    then show ?thesis
      using grow_inplace_enough [OF inv' total_space_ok enough, of c] h
      by (intro exI [of _ "Some (sz (n - 1))"] exI [of _ s] exI [of _ ks]) (simp add: ks(2))
  next
    case stuck
    then have "no_room_after ks x n k" using frees_after [OF ks(3-5)] unfolding no_room_after_def ks(1,2) by auto
    then show ?thesis
      using grow_inplace_stuck [OF inv' total_space_ok stuck k, of c] h stuck
      by (intro exI [of _ None] exI [of _ s] exI [of _ ks]) (simp add: ks(2))
  next
    case room
    then obtain r ws where vs: "vs = (r, False) # ws" by (cases vs) (auto simp: lead_free_def split: bool.splits)
    have h': "heap_ok env_ok T s (us @ (n, True) # (r, False) # ws)" using h ks(1) vs by simp
    have le: "Suc k \<le> n + r" using room vs by simp
    obtain g s1 s' where g: "grow_inplace ops c s (data_ptr (base_address s) x) (sz k) = Some (g, s')" "expanded s s1"
      "heap_ok env_ok T s1 ks"
      "g = None \<and> s' = s1 \<and> ensured ops T s False s1 \<or>
       g = Some (sz k) \<and> ensured ops T s True s1 \<and> heap_ok env_ok T s' (grown us n k vs) \<and> same_env s1 s' \<and>
       framed (base_address s) (starts 0 ks \<union> starts 0 (grown us n k vs)) (mem s1) (mem s')"
      using grow_inplace_grows [OF h' room(1) le, of c] room(1) unfolding ks(1,2) vs grown_def by auto
    note ex = expandedD [OF g(2)]
    show ?thesis
    proof (cases g)
      case None
      then show ?thesis using g keeps_grow [OF ex(1)] room(1)
        by (intro exI [of _ None] exI [of _ s1] exI [of _ ks]) auto
    next
      case (Some k')
      then have s': "g = Some (sz k)" "ensured ops T s True s1" "heap_ok env_ok T s' (grown us n k vs)" "same_env s1 s'"
        "framed (base_address s1) (starts 0 ks \<union> starts 0 (grown us n k vs)) (mem s1) (mem s')"
        using g(4) ex(2) by auto
      note inv1 = heap_ok_inv [OF g(3)] and inv2 = heap_ok_inv [OF s'(3)]
      have "keeps (base_address s) (lives 0 ks) (lives 0 (grown us n k vs)) (mem s) (mem s')"
        using keeps_trans_left [OF keeps_grow [OF ex(1)]] keeps_headers [OF inv1 inv2 s'(5)] ex(2) by metis
      moreover have "lives 0 (grown us n k vs) = (lives 0 ks)(x \<mapsto> max n (Suc k))"
        using lives_grown [OF ks(3-5) room(2)] ks(1,2) by simp
      moreover have "max (n - 1) k = k" using room(1) by simp
      ultimately show ?thesis using g(1-3) s'(1,2,3) inside_starts [OF inv1 inv2 s'(4,5)]
        by (intro exI [of _ g] exI [of _ s1] exI [of _ s'] exI [of _ "grown us n k vs"]) simp
    qed
  qed
qed

end

section \<open>Allocating\<close>

lemma keeps_framed:
  assumes h: "heap_inv T s ks" "heap_inv T s' ks'" and f: "framed (base_address s) G (mem s) (mem s')"
    and G: "G \<subseteq> {..<T}" "\<And>x n n'. lives 0 ks x = Some n \<Longrightarrow> lives 0 ks' x = Some n' \<Longrightarrow> G \<inter> {Suc x..<x + min n n'} = {}"
  shows "keeps (base_address s) (lives 0 ks) (lives 0 ks') (mem s) (mem s')"
  unfolding keeps_def
proof (intro allI impI)
  fix x n n' assume x: "lives 0 ks x = Some n" "lives 0 ks' x = Some n'"
  have "x + min n n' \<le> T" using lives_pos [OF heap_invD(5) [OF h(1)] x(1)] heap_invD(4) [OF h(1)] by (auto simp: min_def)
  then show "data_kept (base_address s) x (min n n') (mem s) (mem s')"
    by (rule data_kept_framed [OF heap_invD(1) [OF h(1)] f G(1) G(2) [OF x]])
qed

text \<open>What a successful allocation of \<open>q\<close> units aligned to \<open>a\<close> units gives the client.\<close>

definition alloc_post ::
    "('e \<Rightarrow> memory \<Rightarrow> u64 \<Rightarrow> bool) \<Rightarrow> nat \<Rightarrow> nat \<Rightarrow> nat \<Rightarrow> 'e machine \<Rightarrow> layout \<Rightarrow> nat \<Rightarrow> 'e machine \<Rightarrow> layout \<Rightarrow> bool" where
  "alloc_post env_ok T a q s ks x s' ks' \<longleftrightarrow>
     heap_ok env_ok T s' ks' \<and> lives 0 ks x = None \<and> lives 0 ks' = (lives 0 ks)(x \<mapsto> Suc q) \<and>
     32 * a dvd unat (address (data_ptr (base_address s) x)) \<and> base_address s' = base_address s \<and>
     keeps (base_address s) (lives 0 ks) (lives 0 ks') (mem s) (mem s')"

text \<open>
  The data of an allocation that was asked to be zeroed reads as zero, unless it lies beyond what
  was mapped before the call and was left as the environment delivered it in \<open>m\<close>.
\<close>

definition zeroed_or_fresh :: "nat \<Rightarrow> nat \<Rightarrow> 'e machine \<Rightarrow> memory \<Rightarrow> memory \<Rightarrow> bool" where
  "zeroed_or_fresh x q s m m' \<longleftrightarrow>
     (\<forall>k. 32 * Suc x \<le> k \<and> k < 32 * (Suc x + q) \<longrightarrow>
       byte_at m' (base_address s) k = Some 0 \<or>
       32 * units (allocated_space s) \<le> k \<and> byte_at m' (base_address s) k = byte_at m (base_address s) k)"

context env_contract
begin

lemma served_client:
  assumes h1: "heap_ok env_ok T s1 (us @ (n, False) # vs)" and e: "expanded s s1"
    and v: "served env_ok T (units (allocated_space s)) us n vs a q z l r s1 s'"
  shows "alloc_post env_ok T a q s (us @ (n, False) # vs) (extent us + l) s' (carved us l q r vs)"
    "z \<Longrightarrow> zeroed_or_fresh (extent us + l) q s (mem s1) (mem s')"
    "inside s1 s'"
proof -
  let ?ks = "us @ (n, False) # vs" and ?ks' = "carved us l q r vs" and ?x = "extent us + l"
  let ?G = "alloc_frame ?ks ?ks' (Suc ?x) (if z then q else 0)"
  note inv1 = heap_ok_inv [OF h1] and ex = expandedD [OF e]
  have n: "n = l + Suc q + r" and d: "32 * a dvd unat (address (data_ptr (base_address s) ?x))"
    and h': "heap_ok env_ok T s' ?ks'" and se: "same_env s1 s'"
    and f: "framed (base_address s) ?G (mem s1) (mem s')"
    and zz: "z \<longrightarrow> zeroed_or_fresh ?x q s (mem s1) (mem s')"
    using v unfolding served_def zeroed_or_fresh_def ex(2) by blast+
  note inv' = heap_ok_inv [OF h']
  note i1 = heap_invD [OF inv1] and i' = heap_invD [OF inv']
  have pos: "sizes_pos us" "sizes_pos vs" using i1(5) by simp_all
  note lv = lives_carved [OF pos n]
  have lx: "lives 0 ?ks' ?x = Some (Suc q)" using lv(1) by simp
  have inv'': "heap_inv T s' ((us @ left_over l) @ (Suc q, True) # left_over r @ vs)"
    using inv' by (simp add: carved_def)
  have A: "?x + Suc q \<le> units (allocated_space s')" using heap_inv_at(5) [OF inv''] by simp
  have G: "?G \<subseteq> {..<units (allocated_space s')}"
  proof -
    have "y < units (allocated_space s')" if "y \<in> starts 0 ?ks" for y
      using heads_start [OF i1(9) that] same_envD [OF se] by simp
    moreover have "y < units (allocated_space s')" if "y \<in> starts 0 ?ks'" for y
      using heads_start [OF i'(9) that] .
    ultimately show ?thesis using A by (auto simp: alloc_frame_def)
  qed
  have "keeps (base_address s1) (lives 0 ?ks) (lives 0 ?ks') (mem s1) (mem s')"
  proof (rule keeps_framed [OF inv1 inv'])
    show "framed (base_address s1) ?G (mem s1) (mem s')" using f ex(2) by simp
    show "?G \<subseteq> {..<T}" using G i'(2) by auto
    fix y k k' assume y: "lives 0 ?ks y = Some k" "lives 0 ?ks' y = Some k'"
    have "y \<noteq> ?x" using lv(2) y(1) by auto
    then have "?x + Suc q \<le> y \<or> y + k' \<le> ?x" using lives_disjoint [OF i'(5) lx y(2)] by blast
    then have "{Suc ?x..<Suc ?x + (if z then q else 0)} \<inter> {Suc y..<y + k'} = {}" by auto
    moreover have "{Suc y..<y + min k k'} \<subseteq> {Suc y..<y + k}" "{Suc y..<y + min k k'} \<subseteq> {Suc y..<y + k'}" by auto
    ultimately show "?G \<inter> {Suc y..<y + min k k'} = {}"
      using starts_avoid [OF i1(5) y(1)] starts_avoid [OF i'(5) y(2)] unfolding alloc_frame_def by blast
  qed
  then have "keeps (base_address s) (lives 0 ?ks) (lives 0 ?ks') (mem s) (mem s')"
    using keeps_trans_left [OF keeps_grow [OF ex(1)]] ex(2) by simp
  then show "alloc_post env_ok T a q s ?ks ?x s' ?ks'"
    using h' lv d same_envD(1) [OF se] ex(2) unfolding alloc_post_def by simp
  show "z \<Longrightarrow> zeroed_or_fresh ?x q s (mem s1) (mem s')" using zz by simp
  show "inside s1 s'" by (rule insideI [OF se]) (use f G ex(2) same_envD [OF se] in simp_all)
qed

lemma alloc_impl_client:
  assumes h: "heap_ok env_ok T s ks" and j: "j < 32" and q: "q < 2 ^ 32"
  shows "\<exists>res s1 s'. alloc_impl ops c s (sz (2 ^ j)) (sz q) z = Some (res, s') \<and> expanded s s1 \<and> heap_ok env_ok T s1 ks \<and>
    (res = None \<and> s' = s1 \<and> (s1 = s \<and> no_room ks (q + 2 ^ j) \<or> ensured ops T s False s1) \<or>
     ensured ops T s True s1 \<and>
     (\<exists>x ks'. res = Some (data_ptr (base_address s) x) \<and> alloc_post env_ok T (2 ^ j) q s ks x s' ks' \<and>
       (z \<longrightarrow> zeroed_or_fresh x q s (mem s1) (mem s')) \<and> inside s1 s'))"
proof -
  obtain res s1 s' where r: "alloc_impl ops c s (sz (2 ^ j)) (sz q) z = Some (res, s')" "expanded s s1" "heap_ok env_ok T s1 ks"
    "res = None \<and> s' = s1 \<and> (s1 = s \<and> no_room ks (q + 2 ^ j) \<or> ensured ops T s False s1) \<or>
     ensured ops T s True s1 \<and>
     (\<exists>us n vs l r. ks = us @ (n, False) # vs \<and> res = Some (data_ptr (base_address s) (extent us + l)) \<and>
       served env_ok T (units (allocated_space s)) us n vs (2 ^ j) q z l r s1 s')"
    using alloc_impl_heap_ok [OF h j q, of c z] by blast
  from r(4) show ?thesis
  proof (elim disjE)
    assume "res = None \<and> s' = s1 \<and> (s1 = s \<and> no_room ks (q + 2 ^ j) \<or> ensured ops T s False s1)"
    then show ?thesis using r(1,2,3) by blast
  next
    assume "ensured ops T s True s1 \<and> (\<exists>us n vs l r. ks = us @ (n, False) # vs \<and>
      res = Some (data_ptr (base_address s) (extent us + l)) \<and>
      served env_ok T (units (allocated_space s)) us n vs (2 ^ j) q z l r s1 s')"
    then obtain us n vs l r' where x: "ensured ops T s True s1" "ks = us @ (n, False) # vs"
      "res = Some (data_ptr (base_address s) (extent us + l))"
      "served env_ok T (units (allocated_space s)) us n vs (2 ^ j) q z l r' s1 s'" by blast
    have h1: "heap_ok env_ok T s1 (us @ (n, False) # vs)" using r(3) x(2) by simp
    show ?thesis
      using r(1,2,3) x(1,3) served_client [OF h1 r(2) x(4)] unfolding x(2) by blast
  qed
qed

end

end
