(* ===== verification/Reallocation.thy ===== *)
theory Reallocation
  imports Clients
begin

text \<open>
  The operations that read the size of an allocation from its header: \<^verbatim>\<open>usable_size\<close> and
  \<^verbatim>\<open>realloc\<close>, which resizes in place, or allocates, copies and frees.
\<close>

section \<open>The size of an allocation\<close>

lemma usable_size_impl_ok:
  assumes h: "heap_inv T s ks" and x: "lives 0 ks x = Some n"
  shows "usable_size_impl c (mem s) (data_ptr (base_address s) x) = Some (sz (n - 1))"
proof -
  obtain us vs where ks: "ks = us @ (n, True) # vs" "x = extent us" using live_split [OF h x] by metis
  note at = heap_inv_at [OF h [unfolded ks(1)]]
  have "hsize (mem s) (base_address s) x = Some (packed n True)" using at(7) ks(2) by simp
  moreover have "header_for_pointer (data_ptr (base_address s) x) = gptr (base_address s) x"
    using header_of_data_ptr [of "base_address s" x] by (simp only: header_for_pointer_def Pointer_unchecked_sub_def)
  ultimately have "load_u32 (mem s) (address (header_for_pointer (data_ptr (base_address s) x)) + 4) =
      Some (raw_chunk (packed n True))"
    unfolding hsize_def address_gptr by (metis (no_types, lifting) ChunkSize.sel map_option_eq_Some address_gptr)
  moreover have "Size_unchecked_sub c (sz n) HEADER_SIZE = Some (sz (n - 1))"
    using Size_unchecked_sub_sz [of 1 n c] at(1,4) by simp
  moreover have "ChunkSize_size (packed n True) = sz n" using at(4) by simp
  ultimately show ?thesis by (simp add: usable_size_impl_def del: ChunkSize_size_chunk HEADER_SIZE_eq)
qed

lemma unat_bytes_sz: "n < 2 ^ 27 \<Longrightarrow> unat (bytes (sz n)) = 32 * n"
  by (simp add: unat_bytes_small)

lemma usable_size_ok:
  assumes h: "heap_inv T s ks" and x: "lives 0 ks x = Some n"
  shows "usable_size c (mem s) (data_ptr (base_address s) x) = Some (of_nat (32 * (n - 1)))"
proof -
  have "n < 2 ^ 27" using live_split [OF h x] by metis
  then have "unat (bytes (sz (n - 1))) = 32 * (n - 1)" using unat_bytes_sz [of "n - 1"] by simp
  then have "ucast (bytes (sz (n - 1))) = (of_nat (32 * (n - 1)) :: usize)" by (metis of_nat_unat)
  then show ?thesis by (simp add: usable_size_def usable_size_impl_ok [OF h x])
qed

section \<open>Data in place\<close>

lemma live_mapped:
  assumes h: "heap_inv T s ks" and x: "lives 0 ks x = Some n" and y: "x \<le> y" "y < x + n"
  shows "unit_mapped (mem s) (base_address s) y"
proof -
  obtain us vs where ks: "ks = us @ (n, True) # vs" "x = extent us" using live_split [OF h x] by metis
  have "x + n \<le> units (allocated_space s)" using heap_inv_at(5) [OF h [unfolded ks(1)]] ks(2) by simp
  then show ?thesis using mapped_until_unit [OF heap_invD(3) [OF h]] y(2) by simp
qed

lemma live_byte:
  assumes h: "heap_inv T s ks" and x: "lives 0 ks x = Some n" and i: "i < 32 * (n - 1)"
  shows "byte_at (mem s) (base_address s) (32 * Suc x + i) \<noteq> None"
proof (rule unit_mapped_bytes [of "Suc x" "n - 1"])
  show "unit_mapped (mem s) (base_address s) y" if "Suc x \<le> y" "y < Suc x + (n - 1)" for y
    by (rule live_mapped [OF h x]) (use that in simp_all)
qed (rule i)

lemma keepsD:
  assumes k: "keeps b M M' m m'" and x: "M x = Some n" "M' x = Some n'" and i: "i < 32 * (min n n' - 1)"
    and m: "byte_at m b (32 * Suc x + i) \<noteq> None"
  shows "byte_at m' b (32 * Suc x + i) = byte_at m b (32 * Suc x + i)"
proof -
  have "data_kept b x (min n n') m m'" using k x unfolding keeps_def by blast
  moreover have "32 * Suc x + i < 32 * (x + min n n')" using i by (cases "min n n'") simp_all
  ultimately show ?thesis using m unfolding data_kept_def by simp
qed

lemma keeps_data: "keeps b M M' m m' \<Longrightarrow> M z = Some l \<Longrightarrow> M' z = Some l' \<Longrightarrow> data_kept b z (min l l') m m'"
  unfolding keeps_def by blast

lemma keeps_restrict: "keeps b M M' m m' \<Longrightarrow> keeps b (M(x := None)) M' m m'"
  unfolding keeps_def by simp

section \<open>Reallocating\<close>

text \<open>
  What \<^verbatim>\<open>realloc\<close> of the allocation at \<open>x\<close> (a chunk of \<open>n\<close> units) to \<open>k\<close> units of data leaves behind:
  when it succeeds, an allocation of \<open>k\<close> units, in place or elsewhere with the asked alignment, which
  starts with the old contents; when it fails, everything as it was; and with \<open>k = 0\<close>, no allocation.
  The other allocations keep their contents.
\<close>

definition realloc_post ::
    "('e \<Rightarrow> memory \<Rightarrow> u64 \<Rightarrow> bool) \<Rightarrow> nat \<Rightarrow> nat \<Rightarrow> nat \<Rightarrow> 'e machine \<Rightarrow> layout \<Rightarrow> nat \<Rightarrow> nat \<Rightarrow>
     Pointer option \<Rightarrow> 'e machine \<Rightarrow> layout \<Rightarrow> bool" where
  "realloc_post env_ok T a k s ks x n res s' ks' \<longleftrightarrow>
     heap_ok env_ok T s' ks' \<and> base_address s' = base_address s \<and>
     keeps (base_address s) ((lives 0 ks)(x := None)) (lives 0 ks') (mem s) (mem s') \<and>
     (case res of
        None \<Rightarrow>
          if k = 0 then lives 0 ks' = (lives 0 ks)(x := None)
          else lives 0 ks' = lives 0 ks \<and> keeps (base_address s) (lives 0 ks) (lives 0 ks') (mem s) (mem s')
      | Some p \<Rightarrow> \<exists>y. p = data_ptr (base_address s) y \<and>
          (y = x \<or> lives 0 ks y = None \<and> 32 * a dvd unat (address p)) \<and>
          lives 0 ks' = (lives 0 ks)(x := None, y \<mapsto> Suc k) \<and>
          (\<forall>i < 32 * min (n - 1) k.
             byte_at (mem s') (base_address s) (32 * Suc y + i) = byte_at (mem s) (base_address s) (32 * Suc x + i)))"

lemma realloc_post_in_place:
  assumes h: "heap_ok env_ok T s ks" "heap_ok env_ok T s' ks'" "base_address s' = base_address s"
    and x: "lives 0 ks x = Some n" "lives 0 ks' = (lives 0 ks)(x \<mapsto> Suc k)"
    and k: "keeps (base_address s) (lives 0 ks) (lives 0 ks') (mem s) (mem s')"
  shows "realloc_post env_ok T a k s ks x n (Some (data_ptr (base_address s) x)) s' ks'"
proof -
  have "byte_at (mem s') (base_address s) (32 * Suc x + i) = byte_at (mem s) (base_address s) (32 * Suc x + i)"
    if i: "i < 32 * min (n - 1) k" for i
  proof (rule keepsD [OF k x(1)])
    show "lives 0 ks' x = Some (Suc k)" using x(2) by simp
    show "i < 32 * (min n (Suc k) - 1)" using i by (cases n) simp_all
    show "byte_at (mem s) (base_address s) (32 * Suc x + i) \<noteq> None"
      by (rule live_byte [OF heap_ok_inv [OF h(1)] x(1)]) (use i in simp)
  qed
  then show ?thesis using h x k keeps_restrict unfolding realloc_post_def
    by (intro conjI) (simp_all, intro exI [of _ x], simp)
qed

text \<open>Requests for space made before the call only let memory grow.\<close>

lemma data_kept_shrink: "m \<subseteq>\<^sub>m m1 \<Longrightarrow> data_kept b x n m1 m' \<Longrightarrow> data_kept b x n m m'"
  using data_kept_trans data_kept_grow by blast

lemma keeps_shrink: "m \<subseteq>\<^sub>m m1 \<Longrightarrow> keeps b M M' m1 m' \<Longrightarrow> keeps b M M' m m'"
  unfolding keeps_def using data_kept_shrink by blast

lemma realloc_post_grow:
  assumes r: "realloc_post env_ok T a k s1 ks x n res s' ks'" and m: "mem s \<subseteq>\<^sub>m mem s1" and b: "base_address s1 = base_address s"
    and h: "heap_inv T s ks" "lives 0 ks x = Some n"
  shows "realloc_post env_ok T a k s ks x n res s' ks'"
proof -
  have same: "byte_at (mem s1) (base_address s) (32 * Suc x + i) = byte_at (mem s) (base_address s) (32 * Suc x + i)"
    if i: "i < 32 * min (n - 1) k" for i
  proof -
    have "i < 32 * (n - 1)" using i by simp
    then have "byte_at (mem s) (base_address s) (32 * Suc x + i) \<noteq> None" by (rule live_byte [OF h])
    then show ?thesis using m unfolding byte_at_def map_le_def by (metis domIff)
  qed
  show ?thesis
    using r keeps_shrink [OF m] same unfolding realloc_post_def b by (auto split: option.splits if_splits)
qed

text \<open>The last part of \<^verbatim>\<open>realloc\<close>: the new allocation is made, the contents copied, the old one freed.\<close>

definition realloc_move ::
    "'e env_ops \<Rightarrow> build \<Rightarrow> 'e machine \<Rightarrow> Pointer \<Rightarrow> Size \<Rightarrow> Size \<Rightarrow> Size \<Rightarrow> (Pointer option \<times> 'e machine) option" where
  "realloc_move ops c s pointer align new_size current_size = do {
     (r, s) \<leftarrow> alloc ops c s align new_size;
     case r of
       None \<Rightarrow> Some (None, s)
     | Some new_pointer \<Rightarrow> do {
         m \<leftarrow> copy_nonoverlapping (mem s) (address pointer) (address new_pointer) (unat (bytes current_size));
         s \<leftarrow> free ops c (s\<lparr>mem := m\<rparr>) pointer;
         Some (Some new_pointer, s)
       }
   }"

lemma realloc_eq:
  "realloc ops c s pointer align new_size = do {
     current_size \<leftarrow> usable_size_impl c (mem s) pointer;
     if new_size = current_size then Some (Some pointer, s)
     else if Size_is_empty new_size then do { s \<leftarrow> free ops c s pointer; Some (None, s) }
     else if realloc_inplace c \<and> new_size < current_size
     then do { s \<leftarrow> shrink_inplace ops c s pointer new_size; Some (Some pointer, s) }
     else do {
       (grown, s) \<leftarrow> (if realloc_inplace c
                      then do { (r, s) \<leftarrow> grow_inplace ops c s pointer new_size; Some (r \<noteq> None, s) }
                      else Some (False, s));
       if grown then Some (Some pointer, s) else realloc_move ops c s pointer align new_size current_size
     }
   }"
  unfolding realloc_def realloc_move_def by (rule refl)

context env_contract
begin

lemma copy_client:
  assumes h: "heap_ok env_ok T s ks" and x: "lives 0 ks x = Some n" and y: "lives 0 ks y = Some (Suc k)" "x \<noteq> y" and k: "n - 1 \<le> k"
  shows "\<exists>m. copy_nonoverlapping (mem s) (address (data_ptr (base_address s) x)) (address (data_ptr (base_address s) y)) (32 * (n - 1)) = Some m \<and>
    heap_ok env_ok T (s\<lparr>mem := m\<rparr>) ks \<and> inside s (s\<lparr>mem := m\<rparr>) \<and>
    keeps (base_address s) ((lives 0 ks)(y := None)) (lives 0 ks) (mem s) m \<and>
    (\<forall>i < 32 * (n - 1). byte_at m (base_address s) (32 * Suc y + i) = byte_at (mem s) (base_address s) (32 * Suc x + i))"
proof -
  note inv = heap_ok_inv [OF h]
  note i = heap_invD [OF inv]
  have px: "0 < n" "x + n \<le> T" using lives_pos [OF i(5) x] i(4) by simp_all
  have py: "y + Suc k \<le> T" using lives_pos [OF i(5) y(1)] i(4) by simp
  have d: "x + n \<le> y \<or> y + Suc k \<le> x" by (rule lives_disjoint [OF i(5) x y(1) y(2)])
  have G: "{Suc y..<Suc y + (n - 1)} \<subseteq> {Suc y..<y + Suc k}" using k by auto
  obtain m where m: "copy_nonoverlapping (mem s) (gaddr (base_address s) (Suc x)) (gaddr (base_address s) (Suc y)) (32 * (n - 1)) = Some m"
    "framed (base_address s) {Suc y..<Suc y + (n - 1)} (mem s) m"
    "\<forall>i < 32 * (n - 1). byte_at m (base_address s) (32 * Suc y + i) = byte_at (mem s) (base_address s) (32 * Suc x + i)"
  proof -
    have "\<exists>m'. copy_nonoverlapping (mem s) (gaddr (base_address s) (Suc x)) (gaddr (base_address s) (Suc y)) (32 * (n - 1)) = Some m' \<and>
      framed (base_address s) {Suc y..<Suc y + (n - 1)} (mem s) m' \<and>
      (\<forall>i < 32 * (n - 1). byte_at m' (base_address s) (32 * Suc y + i) = byte_at (mem s) (base_address s) (32 * Suc x + i))"
    proof (rule copy_units_ok [OF i(1)])
      show "Suc x + (n - 1) \<le> T" "Suc y + (n - 1) \<le> T" "Suc x + (n - 1) \<le> Suc y \<or> Suc y + (n - 1) \<le> Suc x"
        using px py d k by auto
      show "unit_mapped (mem s) (base_address s) z" if "Suc x \<le> z" "z < Suc x + (n - 1)" for z
        by (rule live_mapped [OF inv x]) (use that in simp_all)
      show "unit_mapped (mem s) (base_address s) z" if "Suc y \<le> z" "z < Suc y + (n - 1)" for z
        by (rule live_mapped [OF inv y(1)]) (use that k in simp_all)
    qed
    then show thesis using that by blast
  qed
  have A: "y + Suc k \<le> units (allocated_space s)"
  proof -
    obtain us vs where ks: "ks = us @ (Suc k, True) # vs" "y = extent us" using live_split [OF inv y(1)] by metis
    show ?thesis using heap_inv_at(5) [OF inv [unfolded ks(1)]] ks(2) by simp
  qed
  have GA: "{Suc y..<Suc y + (n - 1)} \<subseteq> {..<units (allocated_space s)}" using A k by auto
  then have GT: "{Suc y..<Suc y + (n - 1)} \<subseteq> {..<T}" using i(2) by auto
  have Gs: "{Suc y..<Suc y + (n - 1)} \<inter> starts 0 ks = {}" using starts_avoid [OF i(5) y(1)] G by blast
  have inv': "heap_inv T (s\<lparr>mem := m\<rparr>) ks" by (rule heap_inv_data [OF inv m(2) GT Gs])
  have ins: "inside s (s\<lparr>mem := m\<rparr>)" by (rule insideI [OF _ _ GA]) (use m(2) in \<open>simp_all add: same_env_def\<close>)
  have "keeps (base_address s) ((lives 0 ks)(y := None)) (lives 0 ks) (mem s) m"
    unfolding keeps_def
  proof (intro allI impI)
    fix z l l' assume z: "((lives 0 ks)(y := None)) z = Some l" "lives 0 ks z = Some l'"
    then have zy: "z \<noteq> y" "lives 0 ks z = Some l" "l' = l" by (auto split: if_splits)
    have "{Suc y..<Suc y + (n - 1)} \<inter> {Suc z..<z + l} = {}"
      using lives_disjoint [OF i(5) y(1) zy(2)] zy(1) G by fastforce
    then show "data_kept (base_address s) z (min l l') (mem s) m"
      using data_kept_framed [OF i(1) m(2) GT] lives_pos [OF i(5) zy(2)] i(4) zy(3) by simp
  qed
  moreover have "heap_ok env_ok T (s\<lparr>mem := m\<rparr>) ks"
    by (rule heap_ok_moved [OF h inv' insideD(1) [OF ins]]) (use m(2) in simp)
  moreover have "address (data_ptr (base_address s) z) = gaddr (base_address s) (Suc z)" for z by (simp add: data_ptr_def)
  ultimately show ?thesis using m(1,3) ins by auto
qed

lemma realloc_move_client:
  assumes h: "heap_ok env_ok T s ks" and x: "lives 0 ks x = Some n" and j: "j < 32" and k: "0 < k" "k < 2 ^ 32" "n - 1 \<le> k"
  shows "\<exists>res s' ks'. realloc_move ops c s (data_ptr (base_address s) x) (sz (2 ^ j)) (sz k) (sz (n - 1)) = Some (res, s') \<and>
    realloc_post env_ok T (2 ^ j) k s ks x n res s' ks' \<and> evolves ops env_ok T s s'"
proof -
  let ?b = "base_address s" and ?M = "lives 0 ks"
  have n27: "n < 2 ^ 27" using live_split [OF heap_ok_inv [OF h] x] by metis
  then have bs: "unat (bytes (sz (n - 1))) = 32 * (n - 1)" using unat_bytes_sz [of "n - 1"] by simp
  obtain r s1 s2 where r: "alloc ops c s (sz (2 ^ j)) (sz k) = Some (r, s2)" "expanded s s1" "heap_ok env_ok T s1 ks"
    "r = None \<and> s2 = s1 \<and> (s1 = s \<and> no_room ks (k + 2 ^ j) \<or> ensured ops T s False s1) \<or>
     ensured ops T s True s1 \<and> (\<exists>y ks2. r = Some (data_ptr ?b y) \<and> alloc_post env_ok T (2 ^ j) k s ks y s2 ks2 \<and> inside s1 s2)"
    using alloc_impl_client [OF h j k(2), of c False] unfolding alloc_def by blast
  note ex = expandedD [OF r(2)]
  show ?thesis
  proof (cases r)
    case None
    then have s2: "s2 = s1" "s1 = s \<or> ensured ops T s False s1" using r(4) by auto
    have "evolves ops env_ok T s s2" using s2 evolves_refl evolves_ensured [OF h _ inside_refl] by metis
    moreover have "realloc_post env_ok T (2 ^ j) k s ks x n None s2 ks"
      using k(1) r(3) ex(2) keeps_grow [OF ex(1)] s2(1) by (simp add: realloc_post_def)
    moreover have "realloc_move ops c s (data_ptr ?b x) (sz (2 ^ j)) (sz k) (sz (n - 1)) = Some (None, s2)"
      using r(1) None by (simp add: realloc_move_def)
    ultimately show ?thesis by blast
  next
    case (Some p)
    then obtain y ks2 where y: "p = data_ptr ?b y" "alloc_post env_ok T (2 ^ j) k s ks y s2 ks2" "ensured ops T s True s1" "inside s1 s2"
      using r(4) by auto
    then have h2: "heap_ok env_ok T s2 ks2" and yM: "?M y = None" "lives 0 ks2 = ?M(y \<mapsto> Suc k)"
      and al: "32 * 2 ^ j dvd unat (address p)" and b2: "base_address s2 = ?b"
      and k2: "keeps ?b ?M (lives 0 ks2) (mem s) (mem s2)"
      unfolding alloc_post_def by blast+
    have xy: "x \<noteq> y" using x yM(1) by auto
    have x2: "lives 0 ks2 x = Some n" and y2: "lives 0 ks2 y = Some (Suc k)" using x xy yM(2) by simp_all
    obtain m where m: "copy_nonoverlapping (mem s2) (address (data_ptr ?b x)) (address (data_ptr ?b y)) (32 * (n - 1)) = Some m"
      "heap_ok env_ok T (s2\<lparr>mem := m\<rparr>) ks2" "inside s2 (s2\<lparr>mem := m\<rparr>)" "keeps ?b ((lives 0 ks2)(y := None)) (lives 0 ks2) (mem s2) m"
      "\<forall>i < 32 * (n - 1). byte_at m ?b (32 * Suc y + i) = byte_at (mem s2) ?b (32 * Suc x + i)"
      using copy_client [OF h2 x2 y2 xy k(3)] unfolding b2 by blast
    obtain s3 ks3 where s3: "free ops c (s2\<lparr>mem := m\<rparr>) (data_ptr ?b x) = Some s3" "heap_ok env_ok T s3 ks3"
      "lives 0 ks3 = (lives 0 ks2)(x := None)" "inside (s2\<lparr>mem := m\<rparr>) s3" "keeps ?b (lives 0 ks2) (lives 0 ks3) m (mem s3)"
      using free_client [OF m(2) x2, of c] b2 by auto
    have b3: "base_address s3 = ?b" using insideD(2) [OF s3(4)] b2 by simp
    have "realloc_move ops c s (data_ptr ?b x) (sz (2 ^ j)) (sz k) (sz (n - 1)) = Some (Some p, s3)"
      using r(1) Some m(1) s3(1) unfolding realloc_move_def bs by (simp add: y(1))
    moreover have "evolves ops env_ok T s s3"
      by (rule evolves_ensured [OF h y(3)]) (blast intro: inside_trans y(4) m(3) s3(4))
    moreover have "realloc_post env_ok T (2 ^ j) k s ks x n (Some p) s3 ks3"
    proof -
      have M3: "lives 0 ks3 = ?M(x := None, y \<mapsto> Suc k)" using s3(3) yM(2) xy by (auto simp: fun_upd_twist)
      have "byte_at (mem s3) ?b (32 * Suc y + i) = byte_at (mem s) ?b (32 * Suc x + i)" if i: "i < 32 * min (n - 1) k" for i
      proof -
        have i1: "i < 32 * (n - 1)" using i by simp
        have "byte_at (mem s3) ?b (32 * Suc y + i) = byte_at m ?b (32 * Suc y + i)"
        proof (rule keepsD [OF s3(5) y2])
          show "lives 0 ks3 y = Some (Suc k)" using M3 by simp
          show "i < 32 * (min (Suc k) (Suc k) - 1)" using i by simp
          show "byte_at m ?b (32 * Suc y + i) \<noteq> None"
            using live_byte [OF heap_ok_inv [OF m(2)] y2, of i] i b2 by simp
        qed
        also have "\<dots> = byte_at (mem s2) ?b (32 * Suc x + i)" using m(5) i1 by blast
        also have "\<dots> = byte_at (mem s) ?b (32 * Suc x + i)"
          by (rule keepsD [OF k2 x x2]) (use i1 live_byte [OF heap_ok_inv [OF h] x i1] in simp_all)
        finally show ?thesis .
      qed
      moreover have "keeps ?b (?M(x := None)) (lives 0 ks3) (mem s) (mem s3)"
        unfolding keeps_def
      proof (intro allI impI)
        fix z l l' assume z: "(?M(x := None)) z = Some l" "lives 0 ks3 z = Some l'"
        then have zx: "z \<noteq> x" "z \<noteq> y" "?M z = Some l" "l' = l" using M3 yM(1) by (auto split: if_splits)
        then have "lives 0 ks2 z = Some l" "lives 0 ks3 z = Some l" using yM(2) M3 by simp_all
        then have "data_kept ?b z l (mem s) (mem s2)" "data_kept ?b z l (mem s2) m" "data_kept ?b z l m (mem s3)"
          using keeps_data [OF k2 zx(3)] keeps_data [OF m(4), of z l l] keeps_data [OF s3(5), of z l l] zx(2) by simp_all
        then show "data_kept ?b z (min l l') (mem s) (mem s3)" using zx(4) data_kept_trans by (metis min.idem)
      qed
      ultimately show ?thesis using s3(2) b3 y(1) yM(1) al M3 unfolding realloc_post_def by auto
    qed
    ultimately show ?thesis by blast
  qed
qed

theorem realloc_client:
  assumes h: "heap_ok env_ok T s ks" and x: "lives 0 ks x = Some n" and j: "j < 32" and k: "k < 2 ^ 32"
    and c: "realloc_inplace c \<or> k = 0 \<or> n - 1 \<le> k"
  shows "\<exists>res s' ks'. realloc ops c s (data_ptr (base_address s) x) (sz (2 ^ j)) (sz k) = Some (res, s') \<and>
    (if n = 1 \<and> k = 0 then res = Some (data_ptr (base_address s) x) \<and> s' = s
     else realloc_post env_ok T (2 ^ j) k s ks x n res s' ks') \<and> evolves ops env_ok T s s'"
proof -
  let ?b = "base_address s" and ?M = "lives 0 ks" and ?p = "data_ptr (base_address s) x"
  note inv = heap_ok_inv [OF h]
  have n: "0 < n" "n < 2 ^ 27" using live_split [OF inv x] by metis+
  note us = usable_size_impl_ok [OF inv x, of c]
  have eq: "sz k = sz (n - 1) \<longleftrightarrow> k = n - 1" and lt: "sz k < sz (n - 1) \<longleftrightarrow> k < n - 1"
    using k n by (simp_all add: sz_inject Size_less_iff)
  consider (same) "k = n - 1" | (drop) "k \<noteq> n - 1" "k = 0" | (shrink) "realloc_inplace c" "0 < k" "k < n - 1"
    | (grow) "realloc_inplace c" "n - 1 < k" | (move) "\<not> realloc_inplace c" "0 < k" "n - 1 < k"
    using c by linarith
  then show ?thesis
  proof cases
    case same
    then have "realloc ops c s ?p (sz (2 ^ j)) (sz k) = Some (Some ?p, s)" using us eq by (simp add: realloc_def)
    moreover have "realloc_post env_ok T (2 ^ j) k s ks x n (Some ?p) s ks"
      by (rule realloc_post_in_place) (use h x same n in \<open>simp_all add: fun_upd_idem\<close>)
    ultimately show ?thesis using evolves_refl same n by (cases "n = 1") auto
  next
    case drop
    obtain s' ks' where s': "free ops c s ?p = Some s'" "heap_ok env_ok T s' ks'" "lives 0 ks' = ?M(x := None)" "inside s s'"
      "keeps ?b ?M (lives 0 ks') (mem s) (mem s')" using free_client [OF h x, of c] by blast
    have "realloc ops c s ?p (sz (2 ^ j)) (sz k) = Some (None, s')" using us eq drop s'(1) by (simp add: realloc_def)
    moreover have "realloc_post env_ok T (2 ^ j) k s ks x n None s' ks'"
      using s' drop insideD(2) [OF s'(4)] keeps_restrict [OF s'(5)] by (simp add: realloc_post_def)
    ultimately show ?thesis using evolves_inside [OF s'(4)] drop by (intro exI [of _ None] exI [of _ s'] exI [of _ ks']) auto
  next
    case shrink
    have k32: "Suc k < 2 ^ 32" using shrink(3) n by simp
    obtain s' ks' where s': "shrink_inplace ops c s ?p (sz k) = Some s'" "heap_ok env_ok T s' ks'"
      "lives 0 ks' = ?M(x \<mapsto> min n (Suc k))" "inside s s'" "keeps ?b ?M (lives 0 ks') (mem s) (mem s')"
      using shrink_inplace_client [OF h x shrink(2) k32, of c] by blast
    have M': "lives 0 ks' = ?M(x \<mapsto> Suc k)" using s'(3) shrink(3) n(1) by (simp add: min_absorb2)
    have "realloc ops c s ?p (sz (2 ^ j)) (sz k) = Some (Some ?p, s')" using us eq lt shrink s'(1) k by (simp add: realloc_def)
    moreover have "realloc_post env_ok T (2 ^ j) k s ks x n (Some ?p) s' ks'"
      by (rule realloc_post_in_place [OF h s'(2) insideD(2) [OF s'(4)] x M' s'(5)])
    ultimately show ?thesis using evolves_inside [OF s'(4)] shrink by (intro exI [of _ "Some ?p"] exI [of _ s'] exI [of _ ks']) auto
  next
    case grow
    obtain g s1 s2 ks2 where g: "grow_inplace ops c s ?p (sz k) = Some (g, s2)" "expanded s s1" "heap_ok env_ok T s1 ks"
      "heap_ok env_ok T s2 ks2" "inside s1 s2" "s1 = s \<or> ensured ops T s (g \<noteq> None) s1" "keeps ?b ?M (lives 0 ks2) (mem s) (mem s2)"
      "case g of None \<Rightarrow> s2 = s1 \<and> ks2 = ks | Some g \<Rightarrow> lives 0 ks2 = ?M(x \<mapsto> max n (Suc k))"
      using grow_inplace_client [OF h x k, of c] by (force split: option.splits)
    note ex = expandedD [OF g(2)]
    have ev: "evolves ops env_ok T s s2" using g(6) evolves_inside [of s s2] evolves_ensured [OF h] g(5) by blast
    have run: "realloc ops c s ?p (sz (2 ^ j)) (sz k) = (if g \<noteq> None then Some (Some ?p, s2)
        else realloc_move ops c s2 ?p (sz (2 ^ j)) (sz k) (sz (n - 1)))"
      using us eq lt grow g(1) k by (cases g) (simp_all add: realloc_eq)
    show ?thesis
    proof (cases g)
      case None
      then have s2: "s2 = s1" "ks2 = ks" using g(8) by simp_all
      have b2: "base_address s2 = ?b" using ex(2) s2 by simp
      have h2: "heap_ok env_ok T s2 ks" using g(4) s2 by simp
      obtain res s3 ks3 where r: "realloc_move ops c s2 ?p (sz (2 ^ j)) (sz k) (sz (n - 1)) = Some (res, s3)"
        "realloc_post env_ok T (2 ^ j) k s2 ks x n res s3 ks3" "evolves ops env_ok T s2 s3"
        using realloc_move_client [OF h2 x j _ k, of c] grow(2) unfolding b2 by auto
      have "realloc_post env_ok T (2 ^ j) k s ks x n res s3 ks3"
        using realloc_post_grow [OF r(2)] ex(1) b2 s2(1) inv x by simp
      then show ?thesis using run None r(1) evolves_trans [OF r(3) ev] grow(2) by auto
    next
      case (Some g')
      have "realloc_post env_ok T (2 ^ j) k s ks x n (Some ?p) s2 ks2"
        by (rule realloc_post_in_place [OF h g(4) _ x _ g(7)])
          (use g(8) Some grow(2) n(1) insideD(2) [OF g(5)] ex(2) in \<open>simp_all add: max_absorb2\<close>)
      then show ?thesis using run Some ev grow(2) by auto
    qed
  next
    case move
    then have "realloc ops c s ?p (sz (2 ^ j)) (sz k) = realloc_move ops c s ?p (sz (2 ^ j)) (sz k) (sz (n - 1))"
      using us eq lt k by (simp add: realloc_eq)
    then show ?thesis using realloc_move_client [OF h x j move(2) k, of c] move(3) by auto
  qed
qed

end

end
