(* ===== verification/Zeroing.thy ===== *)
theory Zeroing
  imports Reallocation
begin

text \<open>
  \<^verbatim>\<open>alloc_zeroed\<close> does not clear memory it is the first to use, but relies on the environment to
  deliver zeroed memory. Over an environment that keeps a condition on unused memory (the locale
  \<open>tail_env\<close>, of which \<open>zeroed_env\<close> is the case that all of it is zero), that condition holds of everything
  beyond the mapped size at all times, and zeroed allocations are zero.
\<close>

definition tail_ok :: "(nat \<Rightarrow> u8 option \<Rightarrow> bool) \<Rightarrow> nat \<Rightarrow> nat \<Rightarrow> 'e machine \<Rightarrow> bool" where
  "tail_ok Q Z T s \<longleftrightarrow>
     tail_from Q (mem s) (base_address s) (units (allocated_space s)) T \<and> units (allocated_space s) \<le> Z"

lemma tail_from_mono: "tail_from Q m b n T \<Longrightarrow> n \<le> k \<Longrightarrow> tail_from Q m b k T"
  unfolding tail_from_def by (meson le_trans mult_le_mono2)

lemma tail_inside:
  assumes t: "tail_ok Q Z T s" and i: "inside s s'" and b: "region_ok (base_address s) T" "units (allocated_space s) \<le> T"
  shows "tail_ok Q Z T s'"
proof -
  obtain G where G: "G \<subseteq> {..<units (allocated_space s)}" "framed (base_address s) G (mem s) (mem s')"
    using i unfolding inside_def by blast
  have GT: "G \<subseteq> {..<T}" using G(1) b(2) by auto
  have "byte_at (mem s') (base_address s) k = byte_at (mem s) (base_address s) k"
    if k: "32 * units (allocated_space s) \<le> k" "k < 32 * T" for k
  proof -
    have y: "units (allocated_space s) \<le> k div 32" "k div 32 < T" using div_between [OF k] by blast+
    have "byte_at (mem s') (base_address s) (32 * (k div 32) + k mod 32) = byte_at (mem s) (base_address s) (32 * (k div 32) + k mod 32)"
      by (rule framed_byte [OF b(1) G(2) GT y(2)]) (use G(1) y(1) in auto)
    then show ?thesis by simp
  qed
  then show ?thesis using t insideD [OF i] unfolding tail_ok_def tail_from_def by simp
qed

context tail_env
begin

lemma tail_ensured:
  assumes h: "heap_ok env_ok T s ks" and e: "ensured ops T s r s'" and t: "tail_ok Q Z T s"
  shows "tail_from Q (mem s') (base_address s) (units (allocated_space s)) T" "tail_ok Q Z T s'"
proof -
  obtain n where n: "n \<le> T" "ensure_space ops s (sz n) = Some (r, s')" using e unfolding ensured_def by blast
  note i = heap_invD [OF heap_ok_inv [OF h]]
  have ok: "env_ok (env s) (mem s) (base_address s)" using h by (simp add: heap_ok_def)
  obtain s2 where s2: "s' = s2" "expanded s s2"
    using ensure_space_ok [OF h n(1)] n(2) by auto
  note ex = expandedD [OF s2(2)]
  have both: "tail_from Q (mem s') (base_address s) (units (allocated_space s)) T \<and> units (allocated_space s') \<le> Z"
  proof (cases "allocated_space s < sz n")
    case False
    then have "s' = s" using n(2) by (simp add: ensure_space_def)
    then show ?thesis using t by (simp add: tail_ok_def)
  next
    case True
    then obtain r' e' m' where x: "expand_memory_until ops (env s) (mem s) (base_address s) (sz n) = Some (r', e', m')" "mem s' = m'"
      "allocated_space s' = (if r' then sz n else allocated_space s)"
      using n(2) by (auto simp: ensure_space_def bind_eq_Some_conv Let_def split: if_splits)
    have "Q k (byte_at m' (base_address s) k)" if k: "32 * units (allocated_space s) \<le> k" "k < 32 * T" for k
      using t k expand_tail [OF ok n(1) x(1) k(2)] unfolding tail_ok_def tail_from_def by blast
    moreover have "n < 2 ^ 32" using n(1) region_okD(3) [OF i(1)] by simp
    then have "r' \<Longrightarrow> units (allocated_space s') \<le> Z" using granted_below [OF ok n(1)] x(1,3) by (simp add: units_sz)
    moreover have "\<not> r' \<Longrightarrow> units (allocated_space s') \<le> Z" using x(3) t by (simp add: tail_ok_def)
    ultimately show ?thesis unfolding tail_from_def x(2) by blast
  qed
  then show "tail_from Q (mem s') (base_address s) (units (allocated_space s)) T" by simp
  show "tail_ok Q Z T s'" using tail_from_mono [OF both [THEN conjunct1] ex(4)] both ex(2) s2(1) by (simp add: tail_ok_def)
qed

lemma tail_evolves:
  assumes "evolves ops env_ok T s s'" "tail_ok Q Z T s" "region_ok (base_address s) T" "units (allocated_space s) \<le> T"
  shows "tail_ok Q Z T s' \<and> region_ok (base_address s') T \<and> units (allocated_space s') \<le> T"
  using assms
proof (induction rule: evolves.induct)
  case (evolves_expand s s' ks r s'')
  then have z: "tail_ok Q Z T s'" by simp
  obtain n where n: "n \<le> T" "ensure_space ops s' (sz n) = Some (r, s'')" using evolves_expand(3) unfolding ensured_def by blast
  then have "heap_ok env_ok T s'' ks" using ensure_space_ok [OF evolves_expand(2) n(1)] by auto
  then show ?case using tail_ensured(2) [OF evolves_expand(2,3) z] heap_invD(1,2) [OF heap_ok_inv] by blast
next
  case (evolves_write s s' s'')
  then show ?case using tail_inside insideD by metis
qed simp

lemma alloc_zeroed_client:
  assumes h: "heap_ok env_ok T s ks" and t: "tail_ok Q Z T s" and j: "j < 32" and q: "q < 2 ^ 32"
    and a: "alloc_zeroed ops c s (sz (2 ^ j)) (sz q) = Some (Some p, s')"
  shows "\<forall>i < 32 * q. mem s' (address p + of_nat i) = Some 0"
proof -
  obtain s1 x ks' where r: "heap_ok env_ok T s1 ks" "ensured ops T s True s1" "p = data_ptr (base_address s) x"
    "alloc_post env_ok T (2 ^ j) q s ks x s' ks'" "zeroed_or_fresh x q s (mem s1) (mem s')" "inside s1 s'"
    using alloc_impl_client [OF h j q, of c True] a unfolding alloc_zeroed_def by auto
  have x: "lives 0 ks' x = Some (Suc q)" and h': "heap_ok env_ok T s' ks'" and b: "base_address s' = base_address s"
    using r(4) by (simp_all add: alloc_post_def)
  note inv' = heap_ok_inv [OF h']
  note z = tail_ensured [OF h r(2) t]
  obtain us vs where ks': "ks' = us @ (Suc q, True) # vs" "x = extent us" using live_split [OF inv' x] by metis
  have xA: "x + Suc q \<le> units (allocated_space s1)"
    using heap_inv_at(5) [OF inv' [unfolded ks'(1)]] ks'(2) insideD [OF r(6)] by simp
  have AZ: "units (allocated_space s1) \<le> Z" "units (allocated_space s1) \<le> T"
    using z(2) heap_invD(2) [OF heap_ok_inv [OF r(1)]] by (simp_all add: tail_ok_def)
  have "byte_at (mem s') (base_address s) (32 * Suc x + i) = Some 0" if i: "i < 32 * q" for i
  proof -
    let ?k = "32 * Suc x + i"
    have m: "byte_at (mem s') (base_address s) ?k \<noteq> None" using live_byte [OF inv' x, of i] i b by simp
    have k: "?k < 32 * Z" "?k < 32 * T" using i xA AZ by simp_all
    have "byte_at (mem s') (base_address s) ?k = Some 0 \<or>
        32 * units (allocated_space s) \<le> ?k \<and> byte_at (mem s') (base_address s) ?k = byte_at (mem s1) (base_address s) ?k"
      using r(5) i unfolding zeroed_or_fresh_def by simp
    moreover have "32 * units (allocated_space s) \<le> ?k \<Longrightarrow> Q ?k (byte_at (mem s1) (base_address s) ?k)"
      using z(1) k(2) unfolding tail_from_def by blast
    ultimately show ?thesis using tail_zero [OF _ k(1)] m by metis
  qed
  then show ?thesis by (simp add: r(3) data_ptr_def gaddr_plus byte_at_def)
qed

lemma tail_initialized:
  assumes f: "fresh_ok env_init s" and i: "initialize_impl ops c s = Some (True, s')"
  shows "tail_ok Q Z T s'"
proof -
  have init: "env_init (env s) (mem s)" using f by (simp add: fresh_ok_def)
  obtain b e m e' m' where x: "heap_ok env_ok T s' [(T, False)]" "b \<noteq> 0"
    "allocate_address_space ops (env s) (mem s) = Some (b, e, m)" "env_ok e m b"
    "expand_memory_until ops e m b (sz 1) = Some (True, e', m')" "base_address s' = b"
    "allocated_space s' = sz 1" "framed b {0} m' (mem s')"
    using initialize_impl_ok [OF f, of c] i by auto
  note h = heap_invD [OF heap_ok_inv [OF x(1)]]
  have T1: "1 \<le> T" using region_okD(2) [OF h(1)] by simp
  have z0: "tail_from Q m b 0 T" by (rule allocate_tail [OF init x(3,2)])
  have "Q k (byte_at (mem s') b k)" if k: "32 * 1 \<le> k" "k < 32 * T" for k
  proof -
    have y: "1 \<le> k div 32" "k div 32 < T" using div_between [OF k] by blast+
    have "byte_at (mem s') b (32 * (k div 32) + k mod 32) = byte_at m' b (32 * (k div 32) + k mod 32)"
      by (rule framed_byte [OF _ x(8) _ y(2)]) (use h(1) x(6) T1 y(1) in auto)
    then have e: "byte_at (mem s') b k = byte_at m' b k" by simp
    have "Q k (byte_at m b k)" using z0 k(2) unfolding tail_from_def by simp
    then show ?thesis using expand_tail [OF x(4) T1 x(5) k(2)] e by simp
  qed
  then show ?thesis using x(6,7) granted_below [OF x(4) T1 x(5)] by (simp add: tail_ok_def tail_from_def)
qed

end

end
