(* ===== verification/Histories.thy ===== *)
theory Histories
  imports Zeroing
begin

text \<open>
  The allocator as a state machine driven by a client: the public calls of \<^verbatim>\<open>impl Allocator\<close> as a
  datatype, the client's own record of what it has been given (a map from pointers to sizes), and
  the histories that a client which respects the safety comments of the source can produce,
  starting from \<^verbatim>\<open>Allocator::new\<close> and interleaved with the client's writes to its allocations.
  The layout of the heap is the hidden state that makes every such call succeed.
\<close>

section \<open>Calls\<close>

datatype call =
    Alloc Size Size
  | Alloc_zeroed Size Size
  | Free Pointer
  | Shrink_inplace Pointer Size
  | Grow_inplace Pointer Size
  | Realloc Pointer Size Size

datatype answer = Done | Allocated "Pointer option" | Grown "Size option"

fun run_call :: "'e env_ops \<Rightarrow> build \<Rightarrow> 'e machine \<Rightarrow> call \<Rightarrow> (answer \<times> 'e machine) option" where
  "run_call ops c s (Alloc a n) = map_option (map_prod Allocated id) (alloc ops c s a n)"
| "run_call ops c s (Alloc_zeroed a n) = map_option (map_prod Allocated id) (alloc_zeroed ops c s a n)"
| "run_call ops c s (Free p) = map_option (Pair Done) (free ops c s p)"
| "run_call ops c s (Shrink_inplace p n) = map_option (Pair Done) (shrink_inplace ops c s p n)"
| "run_call ops c s (Grow_inplace p n) = map_option (map_prod Grown id) (grow_inplace ops c s p n)"
| "run_call ops c s (Realloc p a n) = map_option (map_prod Allocated id) (realloc ops c s p a n)"

section \<open>The client's record\<close>

text \<open>
  The client knows the pointers it holds and how many units it may use behind each. What a call does
  to this record depends only on the call and its answer.
\<close>

type_synonym view = "Pointer \<rightharpoonup> nat"

fun view_after :: "view \<Rightarrow> call \<Rightarrow> answer \<Rightarrow> view" where
  "view_after M (Alloc a n) (Allocated (Some p)) = M(p \<mapsto> units n)"
| "view_after M (Alloc_zeroed a n) (Allocated (Some p)) = M(p \<mapsto> units n)"
| "view_after M (Free p) _ = M(p := None)"
| "view_after M (Shrink_inplace p n) _ =
     (if Size_is_empty n then M(p := None) else M(p := map_option (\<lambda>k. min k (units n)) (M p)))"
| "view_after M (Grow_inplace p n) (Grown (Some g)) = M(p \<mapsto> units g)"
| "view_after M (Realloc p a n) (Allocated (Some q)) = M(p := None, q \<mapsto> units n)"
| "view_after M (Realloc p a n) (Allocated None) = (if Size_is_empty n then M(p := None) else M)"
| "view_after M _ _ = M"

text \<open>
  The calls a client may make: on pointers it holds, and leaving out the two cases where the code
  overflows (shrinking to the largest size) or copies too much (\<^verbatim>\<open>realloc\<close> to a smaller size without
  the feature \<^verbatim>\<open>realloc_inplace\<close>). Alignments given to \<^verbatim>\<open>realloc\<close> are powers of two.
\<close>

fun legal :: "build \<Rightarrow> view \<Rightarrow> call \<Rightarrow> bool" where
  "legal c M (Alloc a n) \<longleftrightarrow> True"
| "legal c M (Alloc_zeroed a n) \<longleftrightarrow> True"
| "legal c M (Free p) \<longleftrightarrow> M p \<noteq> None"
| "legal c M (Shrink_inplace p n) \<longleftrightarrow> M p \<noteq> None \<and> raw_units n \<noteq> - 1"
| "legal c M (Grow_inplace p n) \<longleftrightarrow> M p \<noteq> None"
| "legal c M (Realloc p a n) \<longleftrightarrow> is_power_of_two (raw_units a) \<and>
     (case M p of None \<Rightarrow> False | Some k \<Rightarrow> realloc_inplace c \<or> Size_is_empty n \<or> k \<le> units n)"

inductive history ::
    "'e env_ops \<Rightarrow> ('e \<Rightarrow> memory \<Rightarrow> bool) \<Rightarrow> build \<Rightarrow> 'e machine \<Rightarrow> view \<Rightarrow> bool"
  for ops env_init c where
  history_new: "env_init e m \<Longrightarrow> history ops env_init c (Allocator_new e m) Map.empty"
| history_call: "history ops env_init c s M \<Longrightarrow> legal c M call \<Longrightarrow> run_call ops c s call = Some (r, s') \<Longrightarrow>
    history ops env_init c s' (view_after M call r)"
| history_store: "history ops env_init c s M \<Longrightarrow> M p = Some k \<Longrightarrow> i < 32 * k \<Longrightarrow>
    history ops env_init c (s\<lparr>mem := (mem s)(address p + of_nat i \<mapsto> v)\<rparr>) M"

inductive_cases history_callE: "history ops env_init c s M"

section \<open>The record and the layout\<close>

definition view_of :: "u64 \<Rightarrow> (nat \<rightharpoonup> nat) \<Rightarrow> view" where
  "view_of b L p = (let x = unat (address p - b) div 32 - 1
     in if p = data_ptr b x then map_option (\<lambda>n. n - 1) (L x) else None)"

lemma data_ptr_index: "x < 2 ^ 27 \<Longrightarrow> unat (address (data_ptr b x) - b) div 32 - 1 = x"
proof -
  assume x: "x < 2 ^ 27"
  have "address (data_ptr b x) - b = of_nat (32 * Suc x)" by (simp add: data_ptr_def gaddr_def)
  moreover have "unat (of_nat (32 * Suc x) :: u64) = 32 * Suc x" using x by (intro unat_of_nat_small) simp
  ultimately show ?thesis by (simp only:) simp
qed

lemma view_of_data_ptr: "x < 2 ^ 27 \<Longrightarrow> view_of b L (data_ptr b x) = map_option (\<lambda>n. n - 1) (L x)"
  unfolding view_of_def Let_def by (simp only: data_ptr_index if_True refl)

lemma view_of_Some:
  assumes "view_of b L p = Some k"
  obtains x n where "p = data_ptr b x" "L x = Some n" "k = n - 1"
  using assms unfolding view_of_def Let_def by (auto split: if_splits)

lemma view_of_empty [simp]: "view_of b Map.empty = Map.empty"
  by (simp add: view_of_def fun_eq_iff)

lemma view_of_upd:
  assumes x: "x < 2 ^ 27" and L: "dom L \<subseteq> {..<2 ^ 27}"
  shows "view_of b (L(x := v)) = (view_of b L)(data_ptr b x := map_option (\<lambda>n. n - 1) v)"
proof
  fix p
  show "view_of b (L(x := v)) p = ((view_of b L)(data_ptr b x := map_option (\<lambda>n. n - 1) v)) p"
    using data_ptr_index [OF x, of b] by (auto simp: view_of_def Let_def)
qed

lemma lives_bound: "heap_inv T s ks \<Longrightarrow> lives 0 ks x = Some n \<Longrightarrow> x < 2 ^ 27"
  using lives_pos [of ks x n] heap_invD(4,5,8) [of T s ks] by fastforce

lemma dom_lives_bound: "heap_inv T s ks \<Longrightarrow> dom (lives 0 ks) \<subseteq> {..<2 ^ 27}"
  using lives_bound by blast

text \<open>The bytes behind a pointer.\<close>

definition data_byte :: "memory \<Rightarrow> Pointer \<Rightarrow> nat \<Rightarrow> u8 option" where
  "data_byte m p i = m (address p + of_nat i)"

lemma data_byte_data_ptr: "data_byte m (data_ptr b x) i = byte_at m b (32 * Suc x + i)"
  by (simp only: data_byte_def data_ptr_def address_gptr gaddr_plus byte_at_def)

definition contents_kept :: "view \<Rightarrow> view \<Rightarrow> memory \<Rightarrow> memory \<Rightarrow> bool" where
  "contents_kept M M' m m' \<longleftrightarrow>
     (\<forall>p k k' i. M p = Some k \<longrightarrow> M' p = Some k' \<longrightarrow> i < 32 * min k k' \<longrightarrow> data_byte m' p i = data_byte m p i)"

lemma contents_kept_keeps:
  assumes h: "heap_inv T s ks" and k: "keeps (base_address s) L L' (mem s) m'" and L: "L \<subseteq>\<^sub>m lives 0 ks"
    and b: "dom L' \<subseteq> {..<2 ^ 27}"
  shows "contents_kept (view_of (base_address s) L) (view_of (base_address s) L') (mem s) m'"
  unfolding contents_kept_def
proof (intro allI impI)
  fix p k1 k2 i
  assume p: "view_of (base_address s) L p = Some k1" "view_of (base_address s) L' p = Some k2" and i: "i < 32 * min k1 k2"
  obtain x n where x: "p = data_ptr (base_address s) x" "L x = Some n" "k1 = n - 1" using p(1) by (rule view_of_Some)
  have xl: "lives 0 ks x = Some n" using L x(2) unfolding map_le_def by (metis domI)
  obtain y n' where y: "p = data_ptr (base_address s) y" "L' y = Some n'" "k2 = n' - 1" using p(2) by (rule view_of_Some)
  have "y < 2 ^ 27" using b y(2) by auto
  then have yx: "y = x" using data_ptr_index [OF lives_bound [OF h xl], of "base_address s"] data_ptr_index x(1) y(1) by metis
  show "data_byte m' p i = data_byte (mem s) p i" unfolding x(1) data_byte_data_ptr
  proof (rule keepsD [OF k x(2)])
    show "L' x = Some n'" using y(2) yx by simp
    show "i < 32 * (min n n' - 1)" using i x(3) y(3) by (cases n; cases n') simp_all
    have "i < 32 * (n - 1)" using i x(3) by simp
    then show "byte_at (mem s) (base_address s) (32 * Suc x + i) \<noteq> None" using live_byte [OF h xl] by blast
  qed
qed

section \<open>One call\<close>

text \<open>What an answer promises, beyond the record.\<close>

fun answer_ok :: "view \<Rightarrow> memory \<Rightarrow> memory \<Rightarrow> call \<Rightarrow> answer \<Rightarrow> bool" where
  "answer_ok M m m' (Alloc a n) (Allocated (Some p)) \<longleftrightarrow> M p = None \<and> 32 * units a dvd unat (address p)"
| "answer_ok M m m' (Alloc_zeroed a n) (Allocated (Some p)) \<longleftrightarrow> M p = None \<and> 32 * units a dvd unat (address p)"
| "answer_ok M m m' (Grow_inplace p n) (Grown (Some g)) \<longleftrightarrow> (\<exists>k. M p = Some k \<and> units g = max k (units n))"
| "answer_ok M m m' (Realloc p a n) (Allocated (Some q)) \<longleftrightarrow>
     (q = p \<or> M q = None \<and> 32 * units a dvd unat (address q)) \<and>
     (\<exists>k. M p = Some k \<and> (\<forall>i < 32 * min k (units n). data_byte m' q i = data_byte m p i))"
| "answer_ok M m m' (Realloc p a n) (Allocated None) \<longleftrightarrow> Size_is_empty n \<or> contents_kept M M m m'"
| "answer_ok M m m' _ _ \<longleftrightarrow> True"

text \<open>The allocation whose contents may move or shrink away.\<close>

fun moved_from :: "call \<Rightarrow> Pointer set" where
  "moved_from (Realloc p a n) = {p}"
| "moved_from _ = {}"

definition step_ok ::
    "'e env_ops \<Rightarrow> ('e \<Rightarrow> memory \<Rightarrow> u64 \<Rightarrow> bool) \<Rightarrow> nat \<Rightarrow> build \<Rightarrow> 'e machine \<Rightarrow> layout \<Rightarrow> call \<Rightarrow>
     answer \<Rightarrow> 'e machine \<Rightarrow> layout \<Rightarrow> bool" where
  "step_ok ops env_ok T c s ks call r s' ks' \<longleftrightarrow>
     (let b = base_address s; M = view_of b (lives 0 ks); M' = view_of b (lives 0 ks')
      in run_call ops c s call = Some (r, s') \<and> heap_ok env_ok T s' ks' \<and> base_address s' = b \<and>
         M' = view_after M call r \<and> contents_kept (M |` (- moved_from call)) M' (mem s) (mem s') \<and>
         answer_ok M (mem s) (mem s') call r \<and> evolves ops env_ok T s s')"

lemma step_okI:
  assumes h: "heap_ok env_ok T s ks" "heap_ok env_ok T s' ks'" "base_address s' = base_address s"
    and r: "run_call ops c s call = Some (r, s')"
    and v: "view_of (base_address s) (lives 0 ks') = view_after (view_of (base_address s) (lives 0 ks)) call r"
    and k: "keeps (base_address s) L (lives 0 ks') (mem s) (mem s')" "L \<subseteq>\<^sub>m lives 0 ks"
      "view_of (base_address s) L = view_of (base_address s) (lives 0 ks) |` (- moved_from call)"
    and a: "answer_ok (view_of (base_address s) (lives 0 ks)) (mem s) (mem s') call r" and e: "evolves ops env_ok T s s'"
  shows "step_ok ops env_ok T c s ks call r s' ks'"
  using contents_kept_keeps [OF heap_ok_inv [OF h(1)] k(1,2) dom_lives_bound [OF heap_ok_inv [OF h(2)]]] k(3) h r v a e
  unfolding step_ok_def Let_def by simp

lemma run_alloc:
  "call = (if z then Alloc_zeroed a n else Alloc a n) \<Longrightarrow>
   run_call ops c s call = map_option (map_prod Allocated id) (alloc_impl ops c s a n z)"
  by (cases z) (simp_all add: alloc_def alloc_zeroed_def)

lemma restrict_all [simp]: "M |` UNIV = M"
  by (simp add: restrict_map_def fun_eq_iff)

lemma power_of_two_size:
  assumes "is_power_of_two (raw_units a)"
  obtains j where "j < 32" "a = sz (2 ^ j)" "units a = 2 ^ j"
proof -
  obtain j where j: "j < 32" "units a = 2 ^ j" using assms unfolding is_power_of_two_iff units_def by auto
  moreover have "a = sz (2 ^ j)" using j(2) sz_units [of a] by simp
  ultimately show thesis using that by blast
qed

lemma view_live:
  assumes h: "heap_inv T s ks" and p: "view_of (base_address s) (lives 0 ks) p = Some k"
  obtains x where "p = data_ptr (base_address s) x" "lives 0 ks x = Some (Suc k)" "x < 2 ^ 27"
proof -
  obtain x n where x: "p = data_ptr (base_address s) x" "lives 0 ks x = Some n" "k = n - 1" using p by (rule view_of_Some)
  then have "n = Suc k" using lives_pos [OF heap_invD(5) [OF h] x(2)] by simp
  then show thesis using that x lives_bound [OF h] by blast
qed

context env_contract
begin

lemma step_alloc:
  assumes h: "heap_ok env_ok T s ks"
  shows "\<exists>r s' ks'. alloc_impl ops c s a n z = Some (r, s') \<and>
    (\<forall>call. call = (if z then Alloc_zeroed a n else Alloc a n) \<longrightarrow> step_ok ops env_ok T c s ks call (Allocated r) s' ks')"
proof (cases "is_power_of_two (raw_units a)")
  case False
  have none: "alloc_impl ops c s a n z = Some (None, s)" using alloc_impl_bad_align False by blast
  have "step_ok ops env_ok T c s ks call (Allocated None) s ks" if "call = (if z then Alloc_zeroed a n else Alloc a n)" for call
    by (rule step_okI [OF h h refl _ _ keeps_refl map_le_refl _ _ evolves_refl])
      (simp add: run_alloc [OF that] none, simp_all add: that split: if_splits)
  with none show ?thesis by blast
next
  case True
  then obtain j where j: "j < 32" "a = sz (2 ^ j)" "units a = 2 ^ j" by (rule power_of_two_size)
  obtain res s1 s' where r: "alloc_impl ops c s a n z = Some (res, s')" "expanded s s1" "heap_ok env_ok T s1 ks"
    "res = None \<and> s' = s1 \<and> (s1 = s \<and> no_room ks (units n + 2 ^ j) \<or> ensured ops T s False s1) \<or>
     ensured ops T s True s1 \<and> (\<exists>x ks'. res = Some (data_ptr (base_address s) x) \<and>
       alloc_post env_ok T (2 ^ j) (units n) s ks x s' ks' \<and> inside s1 s')"
    using alloc_impl_client [OF h j(1) units_less [of n], of c z] unfolding j(2) sz_units by blast
  have run: "run_call ops c s call = Some (Allocated res, s')" if "call = (if z then Alloc_zeroed a n else Alloc a n)" for call
    by (simp add: run_alloc [OF that] r(1))
  note ex = expandedD [OF r(2)]
  consider (none) "res = None" "s' = s1" "s1 = s \<or> ensured ops T s False s1"
    | (some) x ks' where "ensured ops T s True s1" "res = Some (data_ptr (base_address s) x)"
      "alloc_post env_ok T (2 ^ j) (units n) s ks x s' ks'" "inside s1 s'"
    using r(4) by blast
  then show ?thesis
  proof cases
    case none
    note a = none
    have e: "evolves ops env_ok T s s1" using a(3) evolves_refl evolves_ensured [OF h _ inside_refl] by blast
    have "step_ok ops env_ok T c s ks call (Allocated None) s1 ks" if "call = (if z then Alloc_zeroed a n else Alloc a n)" for call
      by (rule step_okI [OF h r(3) ex(2) _ _ keeps_grow [OF ex(1)] map_le_refl _ _ e])
        (simp add: run [OF that] a(1,2), simp_all add: that split: if_splits)
    then show ?thesis using r(1) a(1,2) by blast
  next
    case some
    note a = some
    have h': "heap_ok env_ok T s' ks'" and lx: "lives 0 ks x = None" "lives 0 ks' = (lives 0 ks)(x \<mapsto> Suc (units n))"
      and al: "32 * units a dvd unat (address (data_ptr (base_address s) x))" and b': "base_address s' = base_address s"
      and k: "keeps (base_address s) (lives 0 ks) (lives 0 ks') (mem s) (mem s')"
      using a(3) unfolding alloc_post_def j(3) by blast+
    have x27: "x < 2 ^ 27" using lives_bound [OF heap_ok_inv [OF h']] lx(2) by simp
    have v: "view_of (base_address s) (lives 0 ks') = (view_of (base_address s) (lives 0 ks))(data_ptr (base_address s) x \<mapsto> units n)"
      unfolding lx(2) using view_of_upd [OF x27 dom_lives_bound [OF heap_ok_inv [OF h]]] by simp
    have fresh: "view_of (base_address s) (lives 0 ks) (data_ptr (base_address s) x) = None"
      using lx(1) by (simp add: view_of_data_ptr [OF x27])
    have "step_ok ops env_ok T c s ks call (Allocated res) s' ks'" if "call = (if z then Alloc_zeroed a n else Alloc a n)" for call
      by (rule step_okI [OF h h' b' run [OF that] _ k map_le_refl _ _ evolves_ensured [OF h a(1,4)]])
        (use a(2) v al fresh in \<open>simp_all add: that split: if_splits\<close>)
    then show ?thesis using r(1) by blast
  qed
qed

lemma step_free:
  assumes h: "heap_ok env_ok T s ks" and p: "view_of (base_address s) (lives 0 ks) p = Some k" and e: "Size_is_empty n"
  shows "\<exists>s' ks'. free ops c s p = Some s' \<and> step_ok ops env_ok T c s ks (Free p) Done s' ks' \<and>
    step_ok ops env_ok T c s ks (Shrink_inplace p n) Done s' ks'"
proof -
  obtain x where x: "p = data_ptr (base_address s) x" "lives 0 ks x = Some (Suc k)" "x < 2 ^ 27"
    using view_live [OF heap_ok_inv [OF h] p] by blast
  obtain s' ks' where f: "free ops c s p = Some s'" "heap_ok env_ok T s' ks'" "lives 0 ks' = (lives 0 ks)(x := None)" "inside s s'"
    "keeps (base_address s) (lives 0 ks) (lives 0 ks') (mem s) (mem s')" using free_client [OF h x(2), of c] x(1) by blast
  have v: "view_of (base_address s) (lives 0 ks') = (view_of (base_address s) (lives 0 ks))(p := None)"
    unfolding f(3) using view_of_upd [OF x(3) dom_lives_bound [OF heap_ok_inv [OF h]]] x(1) by simp
  note I = step_okI [OF h f(2) insideD(2) [OF f(4)] _ _ f(5) map_le_refl _ _ evolves_inside [OF f(4)]]
  have n: "n = sz 0" using e sz_units [of n] by simp
  show ?thesis
    using f(1) v e by (intro exI [of _ s'] exI [of _ ks'] conjI I) (auto simp: n shrink_inplace_empty)
qed

lemma step_shrink:
  assumes h: "heap_ok env_ok T s ks" and p: "view_of (base_address s) (lives 0 ks) p = Some k" and e: "\<not> Size_is_empty n" "raw_units n \<noteq> - 1"
  shows "\<exists>s' ks'. step_ok ops env_ok T c s ks (Shrink_inplace p n) Done s' ks'"
proof -
  obtain x where x: "p = data_ptr (base_address s) x" "lives 0 ks x = Some (Suc k)" "x < 2 ^ 27"
    using view_live [OF heap_ok_inv [OF h] p] by blast
  have "units n \<noteq> units (Size (- 1))" using e(2) unfolding units_inject by (cases n) simp
  then have "units n \<noteq> 2 ^ 32 - 1" by (simp add: units_def unsigned_minus_1_eq_mask mask_eq_exp_minus_1)
  then have n: "0 < units n" "Suc (units n) < 2 ^ 32" using e(1) units_less [of n] by simp_all
  obtain s' ks' where f: "shrink_inplace ops c s p n = Some s'" "heap_ok env_ok T s' ks'"
    "lives 0 ks' = (lives 0 ks)(x \<mapsto> min (Suc k) (Suc (units n)))" "inside s s'"
    "keeps (base_address s) (lives 0 ks) (lives 0 ks') (mem s) (mem s')"
    using shrink_inplace_client [OF h x(2) n, of c] x(1) by auto
  have "view_of (base_address s) (lives 0 ks') = (view_of (base_address s) (lives 0 ks))(p \<mapsto> min k (units n))"
    unfolding f(3) using view_of_upd [OF x(3) dom_lives_bound [OF heap_ok_inv [OF h]]] x(1) by simp
  then have "step_ok ops env_ok T c s ks (Shrink_inplace p n) Done s' ks'"
    using f(1) e p by (intro step_okI [OF h f(2) insideD(2) [OF f(4)] _ _ f(5) map_le_refl _ _ evolves_inside [OF f(4)]]) auto
  then show ?thesis by blast
qed

lemma step_grow:
  assumes h: "heap_ok env_ok T s ks" and p: "view_of (base_address s) (lives 0 ks) p = Some k"
  shows "\<exists>r s' ks'. step_ok ops env_ok T c s ks (Grow_inplace p n) r s' ks'"
proof -
  obtain x where x: "p = data_ptr (base_address s) x" "lives 0 ks x = Some (Suc k)" "x < 2 ^ 27"
    using view_live [OF heap_ok_inv [OF h] p] by blast
  obtain g s1 s' ks' where f: "grow_inplace ops c s p n = Some (g, s')" "expanded s s1" "heap_ok env_ok T s1 ks"
    "heap_ok env_ok T s' ks'" "inside s1 s'" "s1 = s \<or> ensured ops T s (g \<noteq> None) s1"
    "keeps (base_address s) (lives 0 ks) (lives 0 ks') (mem s) (mem s')"
    "case g of None \<Rightarrow> s' = s1 \<and> ks' = ks
     | Some g \<Rightarrow> g = sz (max k (units n)) \<and> lives 0 ks' = (lives 0 ks)(x \<mapsto> max (Suc k) (Suc (units n)))"
    using grow_inplace_client [OF h x(2) units_less [of n], of c] x(1) by (force split: option.splits)
  have e: "evolves ops env_ok T s s'" using f(5,6) evolves_inside evolves_ensured [OF h] by blast
  have b: "base_address s' = base_address s" using insideD(2) [OF f(5)] expandedD(2) [OF f(2)] by simp
  have k32: "k < 2 ^ 32" using live_split [OF heap_ok_inv [OF h] x(2)] by fastforce
  then have u: "units (sz (max k (units n))) = max k (units n)" using units_less [of n] by simp
  have v: "view_of (base_address s) (lives 0 ks') = view_after (view_of (base_address s) (lives 0 ks)) (Grow_inplace p n) (Grown g)"
    using f(8) view_of_upd [OF x(3) dom_lives_bound [OF heap_ok_inv [OF h]]] x(1) u by (cases g) auto
  have "step_ok ops env_ok T c s ks (Grow_inplace p n) (Grown g) s' ks'"
    using f(1,8) p v u by (intro step_okI [OF h f(4) b _ v f(7) map_le_refl _ _ e]) (cases g; auto)+
  then show ?thesis by blast
qed

lemma step_realloc:
  assumes h: "heap_ok env_ok T s ks" and p: "view_of (base_address s) (lives 0 ks) p = Some k" and a: "is_power_of_two (raw_units a)"
    and c: "realloc_inplace c \<or> Size_is_empty n \<or> k \<le> units n"
  shows "\<exists>r s' ks'. step_ok ops env_ok T c s ks (Realloc p a n) r s' ks'"
proof -
  let ?b = "base_address s" and ?M = "view_of (base_address s) (lives 0 ks)"
  note inv = heap_ok_inv [OF h]
  obtain x where x: "p = data_ptr ?b x" "lives 0 ks x = Some (Suc k)" "x < 2 ^ 27" using view_live [OF inv p] by blast
  obtain j where j: "j < 32" "a = sz (2 ^ j)" "units a = 2 ^ j" using a by (rule power_of_two_size)
  have c': "realloc_inplace c \<or> units n = 0 \<or> Suc k - 1 \<le> units n" using c by simp
  obtain res s' ks' where r: "realloc ops c s p a n = Some (res, s')" "evolves ops env_ok T s s'"
    "if Suc k = 1 \<and> units n = 0 then res = Some p \<and> s' = s else realloc_post env_ok T (2 ^ j) (units n) s ks x (Suc k) res s' ks'"
    using realloc_client [OF h x(2) j(1) units_less [of n] c'] x(1) j(2) by auto
  have upd: "view_of ?b ((lives 0 ks)(x := None)) = ?M(p := None)"
    using view_of_upd [OF x(3) dom_lives_bound [OF inv]] x(1) by simp
  have res: "?M |` (- moved_from (Realloc p a n)) = ?M(p := None)"
    by (auto simp: restrict_map_def fun_eq_iff)
  have le: "(lives 0 ks)(x := None) \<subseteq>\<^sub>m lives 0 ks" by (simp add: map_le_def)
  have run: "run_call ops c s (Realloc p a n) = Some (Allocated res, s')" using r(1) by simp
  show ?thesis
  proof (cases "k = 0 \<and> units n = 0")
    case True
    then have rs: "res = Some p" "s' = s" using r(3) by simp_all
    have "step_ok ops env_ok T c s ks (Realloc p a n) (Allocated res) s ks"
      by (rule step_okI [OF h h refl run [unfolded rs(2)] _ keeps_refl le])
        (use rs True p upd res evolves_refl in \<open>auto simp: fun_upd_idem\<close>)
    then show ?thesis by blast
  next
    case False
    then have post: "realloc_post env_ok T (2 ^ j) (units n) s ks x (Suc k) res s' ks'" using r(3) by auto
    then have h': "heap_ok env_ok T s' ks'" and b': "base_address s' = ?b"
      and kp: "keeps ?b ((lives 0 ks)(x := None)) (lives 0 ks') (mem s) (mem s')"
      unfolding realloc_post_def by blast+
    show ?thesis
    proof (cases res)
      case None
      have L: "if units n = 0 then lives 0 ks' = (lives 0 ks)(x := None)
          else lives 0 ks' = lives 0 ks \<and> keeps ?b (lives 0 ks) (lives 0 ks') (mem s) (mem s')"
        using post None unfolding realloc_post_def by (auto split: if_splits)
      have "contents_kept ?M ?M (mem s) (mem s')" if "units n \<noteq> 0"
        using contents_kept_keeps [OF inv _ map_le_refl dom_lives_bound [OF inv]] L that by auto
      then have "step_ok ops env_ok T c s ks (Realloc p a n) (Allocated res) s' ks'"
        by (intro step_okI [OF h h' b' run _ kp le]) (use None L upd res r(2) in auto)
      then show ?thesis by blast
    next
      case (Some q)
      obtain y where y: "q = data_ptr ?b y" "y = x \<or> lives 0 ks y = None \<and> 32 * 2 ^ j dvd unat (address q)"
        "lives 0 ks' = (lives 0 ks)(x := None, y \<mapsto> Suc (units n))"
        "\<forall>i < 32 * min k (units n). byte_at (mem s') ?b (32 * Suc y + i) = byte_at (mem s) ?b (32 * Suc x + i)"
        using post Some unfolding realloc_post_def by auto
      have y27: "y < 2 ^ 27" using lives_bound [OF heap_ok_inv [OF h']] y(3) by simp
      have v: "view_of ?b (lives 0 ks') = ?M(p := None, q \<mapsto> units n)"
      proof -
        have "dom ((lives 0 ks)(x := None)) \<subseteq> {..<2 ^ 27}" using dom_lives_bound [OF inv] by auto
        then show ?thesis unfolding y(3) view_of_upd [OF y27 \<open>dom _ \<subseteq> _\<close>] upd y(1) by simp
      qed
      have "?M q = None" if "y \<noteq> x" using y(1,2) that by (auto simp: view_of_data_ptr [OF y27])
      moreover have "\<forall>i < 32 * min k (units n). data_byte (mem s') q i = data_byte (mem s) p i"
        unfolding x(1) y(1) data_byte_data_ptr using y(4) .
      ultimately have "answer_ok ?M (mem s) (mem s') (Realloc p a n) (Allocated res)"
        using Some y(1,2) x(1) p j(3) by auto
      then have "step_ok ops env_ok T c s ks (Realloc p a n) (Allocated res) s' ks'"
        by (intro step_okI [OF h h' b' run _ kp le]) (use Some v upd res r(2) in auto)
      then show ?thesis by blast
    qed
  qed
qed

theorem step_legal:
  assumes h: "heap_ok env_ok T s ks" and l: "legal c (view_of (base_address s) (lives 0 ks)) call"
  shows "\<exists>r s' ks'. step_ok ops env_ok T c s ks call r s' ks'"
proof (cases call)
  case (Alloc a n)
  then show ?thesis using step_alloc [OF h, of c a n False] by auto
next
  case (Alloc_zeroed a n)
  then show ?thesis using step_alloc [OF h, of c a n True] by auto
next
  case (Free p)
  then obtain k where "view_of (base_address s) (lives 0 ks) p = Some k" using l by auto
  then show ?thesis using step_free [OF h, of p k "sz 0" c] Free by auto
next
  case (Shrink_inplace p n)
  then obtain k where p: "view_of (base_address s) (lives 0 ks) p = Some k" "raw_units n \<noteq> - 1" using l by auto
  show ?thesis
  proof (cases "Size_is_empty n")
    case True
    then show ?thesis using step_free [OF h p(1) True] Shrink_inplace by blast
  next
    case False
    then show ?thesis using step_shrink [OF h p(1) False p(2)] Shrink_inplace by blast
  qed
next
  case (Grow_inplace p n)
  then show ?thesis using step_grow [OF h] l by auto
next
  case (Realloc p a n)
  then show ?thesis using step_realloc [OF h] l by (auto split: option.splits)
qed

end

end
