(* ===== verification/Safety.thy ===== *)
theory Safety
  imports Histories
begin

text \<open>
  What holds of every history: each state is either a fresh allocator without allocations or a
  well-formed heap whose live chunks are the client's record; so no legal call panics or touches
  unmapped memory, allocations never overlap, their contents stay, zeroed allocations are zero, and
  the space of freed allocations is merged again.
\<close>

section \<open>The invariant of a history\<close>

definition client_ok ::
    "('e \<Rightarrow> memory \<Rightarrow> bool) \<Rightarrow> ('e \<Rightarrow> memory \<Rightarrow> u64 \<Rightarrow> bool) \<Rightarrow> nat \<Rightarrow> 'e machine \<Rightarrow> view \<Rightarrow> bool" where
  "client_ok env_init env_ok T s M \<longleftrightarrow>
     fresh_ok env_init s \<and> M = Map.empty \<or>
     (\<exists>ks. heap_ok env_ok T s ks \<and> M = view_of (base_address s) (lives 0 ks))"

lemma client_ok_live:
  assumes "client_ok env_init env_ok T s M" "M p = Some k"
  obtains ks x where "heap_ok env_ok T s ks" "M = view_of (base_address s) (lives 0 ks)"
    "p = data_ptr (base_address s) x" "lives 0 ks x = Some (Suc k)" "x < 2 ^ 27"
proof -
  obtain ks where ks: "heap_ok env_ok T s ks" "M = view_of (base_address s) (lives 0 ks)"
    using assms unfolding client_ok_def by auto
  then show thesis using that view_live [OF heap_ok_inv [OF ks(1)]] assms(2) by blast
qed

lemma fresh_base: "fresh_ok env_init s \<Longrightarrow> base_address s = 0"
  by (simp add: fresh_ok_def)

lemma heap_base: "heap_ok env_ok T s ks \<Longrightarrow> base_address s \<noteq> 0"
  using region_okD(4) [OF heap_invD(1) [OF heap_ok_inv]] by blast

lemma contents_kept_empty [simp]: "contents_kept Map.empty M m m'"
  by (simp add: contents_kept_def)

lemma legal_empty: "legal c Map.empty call \<longleftrightarrow> (\<exists>a n. call = Alloc a n \<or> call = Alloc_zeroed a n)"
  by (cases call) auto

lemma answer_ok_alloc_mem:
  assumes "call = Alloc a n \<or> call = Alloc_zeroed a n"
  shows "answer_ok M m m' call r = answer_ok M m1 m' call r"
proof (cases r)
  case (Allocated p)
  then show ?thesis using assms by (cases p) auto
qed (use assms in auto)

text \<open>The client's own writes.\<close>

lemma store_heap_ok:
  assumes h: "heap_inv T s ks" and x: "lives 0 ks x = Some (Suc k)" and i: "i < 32 * k"
  shows "heap_inv T (s\<lparr>mem := (mem s)(address (data_ptr (base_address s) x) + of_nat i \<mapsto> v)\<rparr>) ks"
    "inside s (s\<lparr>mem := (mem s)(address (data_ptr (base_address s) x) + of_nat i \<mapsto> v)\<rparr>)"
proof -
  let ?b = "base_address s" and ?a = "address (data_ptr (base_address s) x) + of_nat i" and ?y = "Suc x + i div 32"
  let ?m = "(mem s)(?a \<mapsto> v)"
  note inv = heap_invD [OF h]
  have y: "?y < x + Suc k" using i by (simp add: less_mult_imp_div_less)
  obtain us vs where ks: "ks = us @ (Suc k, True) # vs" "x = extent us" using live_split [OF h x] by metis
  have A: "x + Suc k \<le> units (allocated_space s)" using heap_inv_at(5) [OF h [unfolded ks(1)]] ks(2) by simp
  have "byte_at (mem s) ?b (32 * Suc x + i) \<noteq> None" by (rule live_byte [OF h x]) (use i in simp)
  then have "mem s ?a \<noteq> None" by (simp add: byte_at_def data_ptr_def gaddr_plus)
  then have d: "dom ?m = dom (mem s)" by auto
  have "?a - gaddr ?b ?y = of_nat (i mod 32)"
  proof -
    have "32 * Suc x + i = 32 * ?y + i mod 32" by simp
    then have "?a = gaddr ?b ?y + of_nat (i mod 32)" unfolding data_ptr_def address_gptr gaddr_plus by (simp only:)
    then show ?thesis by simp
  qed
  then have "unat (?a - gaddr ?b ?y) < 32" by (simp add: unat_of_nat_small del: of_nat_mod of_nat_numeral)
  then have f: "framed ?b {?y} (mem s) ?m" using d by (auto simp: framed_def)
  have "?y \<notin> starts 0 ks" using starts_avoid [OF inv(5) x] y by auto
  then show "heap_inv T (s\<lparr>mem := ?m\<rparr>) ks"
    using heap_inv_data [OF h f] A y inv(2) by simp
  show "inside s (s\<lparr>mem := ?m\<rparr>)"
    by (rule insideI [OF _ _, of _ _ "{?y}"]) (use f A y in \<open>simp_all add: same_env_def\<close>)
qed

text \<open>The environment gives no address space, or not even its first unit.\<close>

definition space_refused :: "'e env_ops \<Rightarrow> 'e machine \<Rightarrow> bool" where
  "space_refused ops s \<longleftrightarrow> (\<exists>b e m. allocate_address_space ops (env s) (mem s) = Some (b, e, m) \<and>
     (b = 0 \<or> (\<exists>e' m'. expand_memory_until ops e m b FREE_CHUNK_HEADER_SIZE = Some (False, e', m'))))"

lemma initialize_refused: "initialize_impl ops c s = Some (False, s') \<Longrightarrow> space_refused ops s"
  unfolding initialize_impl_def space_refused_def Let_def
  by (auto simp del: FREE_CHUNK_HEADER_SIZE_eq simp: bind_eq_Some_conv split: if_splits prod.splits)

context env_contract
begin

text \<open>The first call takes the address space, or fails and leaves the allocator fresh.\<close>

lemma fresh_call:
  assumes f: "fresh_ok env_init s" and l: "legal c Map.empty call"
  obtains (refused) s' where "run_call ops c s call = Some (Allocated None, s')" "fresh_ok env_init s'"
  | (started) s1 r s' ks' where "initialize_impl ops c s = Some (True, s1)" "heap_ok env_ok T s1 [(T, False)]"
    "run_call ops c s call = Some (r, s')" "step_ok ops env_ok T c s1 [(T, False)] call r s' ks'"
proof -
  obtain a n z where call: "call = (if z then Alloc_zeroed a n else Alloc a n)"
    using l unfolding legal_empty by (metis (full_types))
  note run = run_alloc [OF call, of ops c]
  show thesis
  proof (cases "is_power_of_two (raw_units a)")
    case False
    then have "alloc_impl ops c s a n z = Some (None, s)" using alloc_impl_bad_align by blast
    then show thesis using refused run f by simp
  next
    case True
    then obtain j where j: "j < 32" "a = sz (2 ^ j)" "units a = 2 ^ j" by (rule power_of_two_size)
    from f j(1) show thesis
    proof (cases rule: alloc_impl_fresh [where c = c and q = n and z = z])
      case (no_space s')
      then show thesis using refused run j(2) by simp
    next
      case (started s1)
      have "legal c (view_of (base_address s1) (lives 0 [(T, False)])) call" unfolding call by simp
      then obtain r s' ks' where st: "step_ok ops env_ok T c s1 [(T, False)] call r s' ks'" using step_legal [OF started(2)] by blast
      then have "run_call ops c s1 call = Some (r, s')" by (simp add: step_ok_def Let_def)
      then have "run_call ops c s call = Some (r, s')" using started(3) run j(2) by simp
      then show thesis using that(2) started st by blast
    qed
  qed
qed

theorem client_step:
  assumes h: "client_ok env_init env_ok T s M" and l: "legal c M call"
  shows "\<exists>r s'. run_call ops c s call = Some (r, s') \<and> client_ok env_init env_ok T s' (view_after M call r) \<and>
    contents_kept (M |` (- moved_from call)) (view_after M call r) (mem s) (mem s') \<and> answer_ok M (mem s) (mem s') call r"
  using h unfolding client_ok_def
proof (elim disjE conjE exE)
  fix ks assume ks: "heap_ok env_ok T s ks" "M = view_of (base_address s) (lives 0 ks)"
  obtain r s' ks' where st: "step_ok ops env_ok T c s ks call r s' ks'" using step_legal [OF ks(1)] l ks(2) by blast
  then have "view_after M call r = view_of (base_address s') (lives 0 ks')" by (simp add: step_ok_def Let_def ks(2))
  then show "\<exists>r s'. run_call ops c s call = Some (r, s') \<and>
      (fresh_ok env_init s' \<and> view_after M call r = Map.empty \<or>
       (\<exists>ks. heap_ok env_ok T s' ks \<and> view_after M call r = view_of (base_address s') (lives 0 ks))) \<and>
      contents_kept (M |` (- moved_from call)) (view_after M call r) (mem s) (mem s') \<and> answer_ok M (mem s) (mem s') call r"
    using st unfolding step_ok_def Let_def ks(2) by (intro exI [of _ r] exI [of _ s']) auto
next
  assume f: "fresh_ok env_init s" "M = Map.empty"
  have le: "legal c Map.empty call" using l f(2) by simp
  from f(1) le show "\<exists>r s'. run_call ops c s call = Some (r, s') \<and>
      (fresh_ok env_init s' \<and> view_after M call r = Map.empty \<or>
       (\<exists>ks. heap_ok env_ok T s' ks \<and> view_after M call r = view_of (base_address s') (lives 0 ks))) \<and>
      contents_kept (M |` (- moved_from call)) (view_after M call r) (mem s) (mem s') \<and> answer_ok M (mem s) (mem s') call r"
  proof (cases rule: fresh_call)
    case (refused s')
    then show ?thesis using le f(2) unfolding legal_empty by (intro exI [of _ "Allocated None"] exI [of _ s']) auto
  next
    case (started s1 r s' ks')
    have M1: "view_of (base_address s1) (lives 0 [(T, False)]) = Map.empty" by simp
    have an: "answer_ok Map.empty (mem s) (mem s') call r \<longleftrightarrow> answer_ok Map.empty (mem s1) (mem s') call r"
      using le answer_ok_alloc_mem unfolding legal_empty by blast
    have st: "heap_ok env_ok T s' ks'" "view_of (base_address s') (lives 0 ks') = view_after Map.empty call r"
      "answer_ok Map.empty (mem s1) (mem s') call r"
      using started(4) unfolding step_ok_def Let_def M1 by auto
    have A: "\<exists>ks. heap_ok env_ok T s' ks \<and> view_after Map.empty call r = view_of (base_address s') (lives 0 ks)"
      using st(1) st(2) [symmetric] by blast
    have B: "contents_kept (Map.empty |` (- moved_from call)) (view_after Map.empty call r) (mem s) (mem s')" by simp
    show ?thesis unfolding f(2)
      by (intro exI [of _ r] exI [of _ s'] conjI started(3) disjI2 [OF A] B an [THEN iffD2, OF st(3)])
  qed
qed

text \<open>Why an allocation can fail, with an initialised heap or without.\<close>

lemma alloc_none_cases:
  assumes h: "client_ok env_init env_ok T s M" and a: "is_power_of_two (raw_units a)" and r: "alloc ops c s a n = Some (None, s')"
  shows "base_address s = 0 \<and> space_refused ops s \<or>
    (\<exists>s1 ks. initialize ops c s = Some (True, s1) \<and> heap_ok env_ok T s1 ks \<and> M = view_of (base_address s1) (lives 0 ks) \<and>
      (s' = s1 \<and> no_room ks (units n + units a) \<or> ensured ops T s1 False s'))"
proof -
  obtain j where j: "j < 32" "a = sz (2 ^ j)" "units a = 2 ^ j" using a by (rule power_of_two_size)
  have failed: "s' = s1 \<and> no_room ks (units n + units a) \<or> ensured ops T s1 False s'"
    if "heap_ok env_ok T s1 ks" "alloc ops c s1 a n = Some (None, s')" for s1 ks
    using alloc_impl_client [OF that(1) j(1) units_less [of n], of c False] that(2) j(2,3) by (auto simp: alloc_def)
  consider (fresh) "fresh_ok env_init s" "M = Map.empty" | (heap) ks where "heap_ok env_ok T s ks" "M = view_of (base_address s) (lives 0 ks)"
    using h unfolding client_ok_def by blast
  then show ?thesis
  proof cases
    case heap
    then have "initialize ops c s = Some (True, s)" using heap_base by (auto simp: initialize_def)
    then show ?thesis using heap failed [OF heap(1) r] by blast
  next
    case fresh
    have b: "base_address s = 0" using fresh(1) by (simp add: fresh_ok_def)
    obtain ok s1 where i: "initialize_impl ops c s = Some (ok, s1)" "if ok then heap_ok env_ok T s1 [(T, False)] else fresh_ok env_init s1"
      using initialize_impl_ok [OF fresh(1), of c] by (metis (no_types, lifting))
    show ?thesis
    proof (cases ok)
      case True
      then have s1: "initialize ops c s = Some (True, s1)" "heap_ok env_ok T s1 [(T, False)]" using i b by (simp_all add: initialize_def)
      have "initialize ops c s1 = Some (True, s1)" using heap_base [OF s1(2)] by (simp add: initialize_def)
      then have "alloc ops c s1 a n = Some (None, s')"
        using r s1(1) power_two_size [OF j(1)] unfolding j(2) by (simp add: alloc_def alloc_impl_def del: raw_units_sz)
      from failed [OF s1(2) this] show ?thesis using s1 fresh(2) by (intro disjI2 exI [of _ s1] exI [of _ "[(T, False)]"]) simp
    qed (use i b initialize_refused in auto)
  qed
qed

theorem history_ok: "history ops env_init c s M \<Longrightarrow> client_ok env_init env_ok T s M"
proof (induction rule: history.induct)
  case (history_new e m)
  then show ?case using Allocator_new_fresh [of env_init e m] by (simp add: client_ok_def)
next
  case (history_call s M call r s')
  then show ?case using client_step [OF history_call(4,2)] by auto
next
  case (history_store s M p k i v)
  obtain ks x where ks: "heap_ok env_ok T s ks" "M = view_of (base_address s) (lives 0 ks)"
    "p = data_ptr (base_address s) x" "lives 0 ks x = Some (Suc k)" using client_ok_live [OF history_store(4,2)] by blast
  let ?s = "s\<lparr>mem := (mem s)(address p + of_nat i \<mapsto> v)\<rparr>"
  note st = store_heap_ok [OF heap_ok_inv [OF ks(1)] ks(4) history_store(3), of v, folded ks(3)]
  obtain G where "framed (base_address s) G (mem s) (mem ?s)" using st(2) unfolding inside_def by blast
  then have "heap_ok env_ok T ?s ks" using heap_ok_moved [OF ks(1) st(1) insideD(1) [OF st(2)]] by blast
  then show ?case unfolding client_ok_def ks(2) by auto
qed

end

section \<open>Live allocations\<close>

text \<open>A live allocation is a pointer to mapped, aligned memory of its own.\<close>

definition separate :: "Pointer \<Rightarrow> nat \<Rightarrow> Pointer \<Rightarrow> nat \<Rightarrow> bool" where
  "separate p k q l \<longleftrightarrow>
     unat (address p) + 32 * k < unat (address q) \<or> unat (address q) + 32 * l < unat (address p)"

definition sound_pointer :: "memory \<Rightarrow> Pointer \<Rightarrow> nat \<Rightarrow> bool" where
  "sound_pointer m p k \<longleftrightarrow> address p \<noteq> 0 \<and> 32 dvd unat (address p) \<and> unat (address p) + 32 * k < 2 ^ 64 \<and>
     (\<forall>i < 32 * k. data_byte m p i \<noteq> None)"

lemma unat_data_ptr:
  assumes h: "heap_inv T s ks" and x: "lives 0 ks x = Some (Suc k)"
  shows "unat (address (data_ptr (base_address s) x)) = unat (base_address s) + 32 * Suc x" "x + Suc k \<le> T"
proof -
  note i = heap_invD [OF h]
  show e: "x + Suc k \<le> T" using lives_pos [OF i(5) x] i(4) by simp
  then show "unat (address (data_ptr (base_address s) x)) = unat (base_address s) + 32 * Suc x"
    using unat_gaddr [OF i(1), of "Suc x"] by (simp add: data_ptr_def)
qed

lemma live_sound:
  assumes h: "client_ok env_init env_ok T s M" and p: "M p = Some k"
  shows "sound_pointer (mem s) p k" "usable_size c (mem s) p = Some (of_nat (32 * k))"
proof -
  obtain ks x where ks: "heap_ok env_ok T s ks" "p = data_ptr (base_address s) x" "lives 0 ks x = Some (Suc k)"
    using client_ok_live [OF h p] by blast
  note inv = heap_ok_inv [OF ks(1)]
  note i = heap_invD [OF inv] and u = unat_data_ptr [OF inv ks(3), folded ks(2)]
  have r: "unat (base_address s) mod 32 = 0" "unat (base_address s) + 32 * T < 2 ^ 64"
    using i(1) by (simp_all add: region_ok_def)
  have "unat (address p) + 32 * k \<le> unat (base_address s) + 32 * T" using u by simp
  moreover have "32 dvd unat (address p)" using u(1) r(1) by (simp add: mod_eq_0_iff_dvd)
  moreover have "data_byte (mem s) p j \<noteq> None" if "j < 32 * k" for j
    unfolding ks(2) data_byte_data_ptr using live_byte [OF inv ks(3), of j] that by simp
  moreover have "address p \<noteq> 0" using u(1) by (metis add_gr_0 unsigned_0 less_numeral_extra(3) mult_pos_pos zero_less_Suc zero_less_numeral)
  ultimately show "sound_pointer (mem s) p k" using r(2) unfolding sound_pointer_def by auto
  show "usable_size c (mem s) p = Some (of_nat (32 * k))" using usable_size_ok [OF inv ks(3)] ks(2) by simp
qed

lemma live_separate:
  assumes h: "client_ok env_init env_ok T s M" and p: "M p = Some k" and q: "M q = Some l" and pq: "p \<noteq> q"
  shows "separate p k q l"
proof -
  obtain ks x where ks: "heap_ok env_ok T s ks" "M = view_of (base_address s) (lives 0 ks)"
    "p = data_ptr (base_address s) x" "lives 0 ks x = Some (Suc k)" using client_ok_live [OF h p] by blast
  note inv = heap_ok_inv [OF ks(1)]
  obtain y where y: "q = data_ptr (base_address s) y" "lives 0 ks y = Some (Suc l)"
    using view_live [OF inv] q unfolding ks(2) by blast
  have "x \<noteq> y" using pq ks(3) y(1) by auto
  then have "x + Suc k \<le> y \<or> y + Suc l \<le> x" by (rule lives_disjoint [OF heap_invD(5) [OF inv] ks(4) y(2)])
  then show ?thesis
    using unat_data_ptr(1) [OF inv ks(4)] unat_data_ptr(1) [OF inv y(2)] unfolding separate_def ks(3) y(1) by auto
qed

section \<open>Unused memory over a history\<close>

context tail_env
begin

lemma history_tail:
  "history ops env_init c s M \<Longrightarrow> client_ok env_init env_ok T s M \<and> (base_address s \<noteq> 0 \<longrightarrow> tail_ok Q Z T s)"
proof (induction rule: history.induct)
  case (history_new e m)
  then show ?case using history_ok [OF history.history_new [where c = c]] by (simp add: Allocator_new_def)
next
  case (history_call s M call r s')
  then have h: "client_ok env_init env_ok T s M" and z: "base_address s \<noteq> 0 \<Longrightarrow> tail_ok Q Z T s" by simp_all
  have h': "client_ok env_init env_ok T s' (view_after M call r)"
    using client_step [OF h history_call(2)] history_call(3) by auto
  have evolved: "tail_ok Q Z T s'" if "heap_ok env_ok T s1 ks" "step_ok ops env_ok T c s1 ks call r s' ks'" "tail_ok Q Z T s1" for s1 ks ks'
    using tail_evolves [OF _ that(3)] heap_invD(1,2) [OF heap_ok_inv [OF that(1)]] that(2)
    unfolding step_ok_def Let_def by blast
  have "base_address s' \<noteq> 0 \<longrightarrow> tail_ok Q Z T s'"
  proof (cases "fresh_ok env_init s \<and> M = Map.empty")
    case True
    then have le: "legal c Map.empty call" using history_call(2) by simp
    from True [THEN conjunct1] le show ?thesis
    proof (cases rule: fresh_call)
      case (refused s'')
      then show ?thesis using history_call(3) fresh_base by auto
    next
      case (started s1 r' s'' ks')
      then have eq: "r' = r" "s'' = s'" using history_call(3) by simp_all
      show ?thesis
        using evolved [OF started(2)] started(4) tail_initialized [OF True [THEN conjunct1] started(1)] unfolding eq by blast
    qed
  next
    case False
    then obtain ks where ks: "heap_ok env_ok T s ks" "M = view_of (base_address s) (lives 0 ks)"
      using h unfolding client_ok_def by blast
    obtain r' s'' ks' where st: "step_ok ops env_ok T c s ks call r' s'' ks'"
      using step_legal [OF ks(1)] history_call(2) ks(2) by blast
    then have "run_call ops c s call = Some (r', s'')" by (simp add: step_ok_def Let_def)
    then have eq: "r' = r" "s'' = s'" using history_call(3) by simp_all
    show ?thesis using evolved [OF ks(1)] st z heap_base [OF ks(1)] unfolding eq by blast
  qed
  then show ?case using h' by simp
next
  case (history_store s M p k i v)
  then have h: "client_ok env_init env_ok T s M" and z: "base_address s \<noteq> 0 \<Longrightarrow> tail_ok Q Z T s" by simp_all
  let ?s = "s\<lparr>mem := (mem s)(address p + of_nat i \<mapsto> v)\<rparr>"
  obtain ks x where ks: "heap_ok env_ok T s ks" "p = data_ptr (base_address s) x" "lives 0 ks x = Some (Suc k)"
    using client_ok_live [OF h history_store(2)] by blast
  note inv = heap_ok_inv [OF ks(1)]
  have "tail_ok Q Z T ?s"
    using tail_inside [OF z [OF heap_base [OF ks(1)]] store_heap_ok(2) [OF inv ks(3) history_store(3), of v] heap_invD(1,2) [OF inv]]
    unfolding ks(2) .
  then show ?case using history_ok [OF history.history_store [OF history_store(1-3)]] by blast
qed

theorem history_alloc_zeroed:
  assumes h: "history ops env_init c s M" and r: "run_call ops c s (Alloc_zeroed a n) = Some (Allocated (Some p), s')"
  shows "\<forall>i < 32 * units n. data_byte (mem s') p i = Some 0"
proof -
  have ok: "client_ok env_init env_ok T s M" and z: "base_address s \<noteq> 0 \<Longrightarrow> tail_ok Q Z T s" using history_tail [OF h] by simp_all
  have a: "alloc_impl ops c s a n True = Some (Some p, s')" using r by (auto simp: alloc_zeroed_def)
  have "is_power_of_two (raw_units a)"
  proof (rule ccontr)
    assume "\<not> ?thesis"
    then have "alloc_impl ops c s a n True = Some (None, s)" using alloc_impl_bad_align by blast
    then show False using a by simp
  qed
  then obtain j where j: "j < 32" "a = sz (2 ^ j)" by (rule power_of_two_size)
  have go: ?thesis if "heap_ok env_ok T s1 ks" "tail_ok Q Z T s1" "alloc_impl ops c s1 a n True = Some (Some p, s')" for s1 ks
    using alloc_zeroed_client [OF that(1,2) j(1) units_less [of n], of c p s'] that(3) j(2)
    by (simp add: alloc_zeroed_def data_byte_def)
  show ?thesis
  proof (cases "fresh_ok env_init s")
    case True
    from True j(1) show ?thesis
    proof (cases rule: alloc_impl_fresh [where c = c and q = n and z = True])
      case (no_space s'')
      then show ?thesis using a j(2) by simp
    next
      case (started s1)
      then show ?thesis using go [OF started(2) tail_initialized [OF True started(1)]] a j(2) by simp
    qed
  next
    case False
    then obtain ks where "heap_ok env_ok T s ks" using ok unfolding client_ok_def by blast
    then show ?thesis using go [OF _ z a] heap_base by blast
  qed
qed

end

context zeroed_env
begin

theorem history_zeroed:
  assumes "history ops env_init c s M" "run_call ops c s (Alloc_zeroed a n) = Some (Allocated (Some p), s')"
  shows "\<forall>i < 32 * units n. data_byte (mem s') p i = Some 0"
  using assms by (rule history_alloc_zeroed)

end

section \<open>An empty heap\<close>

text \<open>Once every allocation has been freed, the address space is one free chunk again.\<close>

lemma layout_without_lives:
  assumes "coalesced ks" "lives x ks = Map.empty" "sizes_pos ks" "0 < extent ks"
  shows "ks = [(extent ks, False)]"
proof -
  have free: "\<not> snd k" if k: "k \<in> set ks" for k
  proof
    assume a: "snd k"
    obtain us vs where ks: "ks = us @ k # vs" using split_list [OF k] by blast
    then have "lives x ks (x + extent us) = Some (fst k)"
      using a assms(3) lives_outside [of us "x + extent us" x] by (cases k) (simp add: lives_append map_add_def)
    then show False using assms(2) by simp
  qed
  then have "tl ks = []" using assms(1) by (cases ks rule: list.exhaust; cases "tl ks") auto
  then show ?thesis using free assms(4) by (cases ks) auto
qed

context env_contract
begin

lemma empty_view_layout:
  assumes h: "heap_ok env_ok T s ks" and M: "view_of (base_address s) (lives 0 ks) = Map.empty"
  shows "ks = [(T, False)]"
proof -
  note inv = heap_invD [OF heap_ok_inv [OF h]]
  have "lives 0 ks x = None" for x
  proof (rule ccontr)
    assume "lives 0 ks x \<noteq> None"
    then obtain n where x: "lives 0 ks x = Some n" by blast
    then have "view_of (base_address s) (lives 0 ks) (data_ptr (base_address s) x) = Some (n - 1)"
      by (simp add: view_of_data_ptr [OF lives_bound [OF heap_ok_inv [OF h] x]])
    then show False using M by simp
  qed
  then have "lives 0 ks = Map.empty" by blast
  then show ?thesis using layout_without_lives [OF inv(6) _ inv(5)] inv(4) region_okD(2) [OF inv(1)] by metis
qed

theorem history_empty_alloc:
  assumes h: "history ops env_init c s Map.empty" and b: "base_address s \<noteq> 0" and a: "is_power_of_two (raw_units a)"
    and n: "units n + units a \<le> T" "units n + units a \<le> 2 ^ 25"
  shows "\<exists>r s'. run_call ops c s (Alloc a n) = Some (Allocated r, s') \<and> (r = None \<longrightarrow> ensured ops T s False s')"
proof -
  have "client_ok env_init env_ok T s Map.empty" by (rule history_ok [OF h])
  then obtain ks where ks: "heap_ok env_ok T s ks" "view_of (base_address s) (lives 0 ks) = Map.empty"
    using b fresh_base unfolding client_ok_def by metis
  note l = empty_view_layout [OF ks]
  obtain j where j: "j < 32" "a = sz (2 ^ j)" "units a = 2 ^ j" using a by (rule power_of_two_size)
  obtain res s1 s' where r: "alloc_impl ops c s a n False = Some (res, s')"
    "res = None \<and> s' = s1 \<and> (s1 = s \<and> no_room ks (units n + 2 ^ j) \<or> ensured ops T s False s1) \<or> (\<exists>x. res = Some x)"
    using alloc_impl_client [OF ks(1) j(1) units_less [of n], of c False] unfolding j(2) sz_units by blast
  have "\<not> no_room ks (units n + 2 ^ j)" using n j(3) unfolding l no_room_def by (auto split: if_splits)
  then have "res = None \<longrightarrow> ensured ops T s False s'" using r(2) by blast
  then show ?thesis using r(1) by (simp add: alloc_def)
qed

lemma drop_ok:
  assumes "client_ok env_init env_ok T s M" "base_address s \<noteq> 0"
  shows "\<exists>s'. Allocator_drop ops s = Some s' \<and> mem s' \<subseteq>\<^sub>m mem s"
proof -
  obtain ks where "heap_ok env_ok T s ks" using assms fresh_base unfolding client_ok_def by blast
  then have "env_ok (env s) (mem s) (base_address s)" by (simp add: heap_ok_def)
  then obtain e m where "free_address_space ops (env s) (mem s) (base_address s) = Some (e, m)" "m \<subseteq>\<^sub>m mem s"
    using free_ok by blast
  then show ?thesis by (simp add: Allocator_drop_def)
qed

end

end
