(* ===== verification/Linux_Env.thy ===== *)
theory Linux_Env
  imports Envs
begin

text \<open>
  The environment of \<^verbatim>\<open>src/env/linux.rs\<close> on x86-64: the address space is one anonymous mapping.
  The kernel behind the two system calls is a parameter, with its own state; what is relied on of
  \<^verbatim>\<open>mmap\<close> and \<^verbatim>\<open>munmap\<close> is what their manual pages say, and is part of the predicates \<open>linux_init\<close>
  and \<open>linux_ok\<close>, for which the contract of zeroed environments is shown.
\<close>

section \<open>The program\<close>

text \<open>Results in the range of error numbers abort the program.\<close>

definition abort_on_fail :: "usize \<Rightarrow> usize option" where
  "abort_on_fail result = (if - 4095 \<le> sint result \<and> sint result < 0 then abort else Some result)"

record 'k kernel =
  syscall2 :: "usize \<Rightarrow> usize \<Rightarrow> usize \<Rightarrow> 'k \<Rightarrow> memory \<Rightarrow> usize \<times> 'k \<times> memory"
  syscall6 :: "usize \<Rightarrow> usize \<Rightarrow> usize \<Rightarrow> usize \<Rightarrow> usize \<Rightarrow> usize \<Rightarrow> usize \<Rightarrow> 'k \<Rightarrow> memory \<Rightarrow> usize \<times> 'k \<times> memory"

definition SYS_MMAP :: usize where "SYS_MMAP = 9"
definition SYS_MUNMAP :: usize where "SYS_MUNMAP = 11"
definition PROT_READ :: usize where "PROT_READ = 1"
definition PROT_WRITE :: usize where "PROT_WRITE = 2"
definition MAP_PRIVATE :: usize where "MAP_PRIVATE = 2"
definition MAP_ANONYMOUS :: usize where "MAP_ANONYMOUS = 32"

definition Linux_total_space :: "usize \<Rightarrow> 'k \<Rightarrow> Size" where
  "Linux_total_space SIZE k = const_size SIZE"

definition Linux_allocate_address_space ::
    "'k kernel \<Rightarrow> usize \<Rightarrow> 'k \<Rightarrow> memory \<Rightarrow> (u64 \<times> 'k \<times> memory) option" where
  "Linux_allocate_address_space K SIZE k m =
     (let (r, k', m') = syscall6 K SYS_MMAP 0 (ucast (bytes (Linux_total_space SIZE k))) (PROT_READ OR PROT_WRITE)
        (MAP_ANONYMOUS OR MAP_PRIVATE) (- 1) 0 k m
      in do { p \<leftarrow> abort_on_fail r; Some (p, k', m') })"

definition Linux_expand_memory_until :: "'k \<Rightarrow> memory \<Rightarrow> u64 \<Rightarrow> Size \<Rightarrow> (bool \<times> 'k \<times> memory) option" where
  "Linux_expand_memory_until k m base n = Some (True, k, m)"

definition Linux_free_address_space :: "'k kernel \<Rightarrow> usize \<Rightarrow> 'k \<Rightarrow> memory \<Rightarrow> u64 \<Rightarrow> ('k \<times> memory) option" where
  "Linux_free_address_space K SIZE k m base =
     (let (r, k', m') = syscall2 K SYS_MUNMAP base (ucast (bytes (Linux_total_space SIZE k))) k m
      in do { abort_on_fail r; Some (k', m') })"

definition Linux_env :: "'k kernel \<Rightarrow> usize \<Rightarrow> 'k env_ops" where
  "Linux_env K SIZE =
     \<lparr>total_space = Linux_total_space SIZE,
      allocate_address_space = Linux_allocate_address_space K SIZE,
      expand_memory_until = Linux_expand_memory_until,
      free_address_space = Linux_free_address_space K SIZE\<rparr>"

lemmas Linux_defs = Linux_env_def Linux_total_space_def Linux_allocate_address_space_def
  Linux_expand_memory_until_def Linux_free_address_space_def

section \<open>The kernel\<close>

text \<open>
  A private anonymous mapping of \<open>len\<close> bytes at an address of the kernel's choice: it fails with an
  error number, or takes pages that were not mapped, at a page boundary other than null, and fills
  them with zeros. It is made of whole pages, so that its last page reaches past \<open>len\<close> when \<open>len\<close> is not a
  multiple of their size; nothing outside its pages changes.
\<close>

definition whole_pages :: "nat \<Rightarrow> nat" where
  "whole_pages n = (n + 4095) div 4096 * 4096"

definition mmap_law :: "'k kernel \<Rightarrow> usize \<Rightarrow> bool" where
  "mmap_law K len \<longleftrightarrow> (\<forall>k m r k' m'. syscall6 K SYS_MMAP 0 len 3 34 (- 1) 0 k m = (r, k', m') \<longrightarrow>
     abort_on_fail r = None \<or>
     r \<noteq> 0 \<and> 4096 dvd unat r \<and> unat r + whole_pages (unat len) < 2 ^ 64 \<and>
     (\<forall>i < whole_pages (unat len). m (r + of_nat i) = None \<and> m' (r + of_nat i) = Some 0) \<and>
     (\<forall>x. whole_pages (unat len) \<le> unat (x - r) \<longrightarrow> m' x = m x))"

lemma whole_pages_le: "n \<le> whole_pages n" "whole_pages n \<le> n + 4095"
proof -
  have "whole_pages n + (n + 4095) mod 4096 = n + 4095" unfolding whole_pages_def by (rule div_mult_mod_eq)
  moreover have "(n + 4095) mod 4096 < 4096" by (rule mod_less_divisor) simp
  ultimately show "n \<le> whole_pages n" "whole_pages n \<le> n + 4095" by linarith+
qed

text \<open>Unmapping a mapped range that starts at a page boundary succeeds, and only unmaps.\<close>

definition munmap_law :: "'k kernel \<Rightarrow> usize \<Rightarrow> bool" where
  "munmap_law K len \<longleftrightarrow> (\<forall>k m b r k' m'. 4096 dvd unat b \<longrightarrow> (\<forall>i < unat len. m (b + of_nat i) \<noteq> None) \<longrightarrow>
     syscall2 K SYS_MUNMAP b len k m = (r, k', m') \<longrightarrow> r = 0 \<and> m' \<subseteq>\<^sub>m m)"

definition linux_laws :: "'k kernel \<Rightarrow> usize \<Rightarrow> bool" where
  "linux_laws K SIZE \<longleftrightarrow> 0 < space SIZE \<and> space SIZE < 2 ^ 27 \<and>
     mmap_law K (of_nat (32 * space SIZE)) \<and> munmap_law K (of_nat (32 * space SIZE))"

text \<open>Initially the kernel is able to make the mapping.\<close>

definition linux_init :: "'k kernel \<Rightarrow> usize \<Rightarrow> 'k \<Rightarrow> memory \<Rightarrow> bool" where
  "linux_init K SIZE k m \<longleftrightarrow> linux_laws K SIZE \<and> Linux_allocate_address_space K SIZE k m \<noteq> None"

definition linux_ok :: "'k kernel \<Rightarrow> usize \<Rightarrow> 'k \<Rightarrow> memory \<Rightarrow> u64 \<Rightarrow> bool" where
  "linux_ok K SIZE k m b \<longleftrightarrow> linux_laws K SIZE \<and> region_ok b (space SIZE) \<and> 4096 dvd unat b \<and> mapped_until m b (space SIZE)"

lemma linux_len: "space SIZE < 2 ^ 27 \<Longrightarrow> ucast (bytes (const_size SIZE)) = (of_nat (32 * space SIZE) :: usize)"
  unfolding const_size_sz by (rule ucast_bytes)

lemma unat_linux_len: "space SIZE < 2 ^ 27 \<Longrightarrow> unat (of_nat (32 * space SIZE) :: usize) = 32 * space SIZE"
  by (intro unat_of_nat_small) simp

lemma linux_flags: "PROT_READ OR PROT_WRITE = 3" "MAP_ANONYMOUS OR MAP_PRIVATE = 34"
  by (simp_all add: PROT_READ_def PROT_WRITE_def MAP_ANONYMOUS_def MAP_PRIVATE_def)

lemma abort_on_fail_Some: "abort_on_fail r = Some p \<Longrightarrow> p = r"
  by (simp add: abort_on_fail_def split: if_splits)

text \<open>What a successful mapping gives.\<close>

lemma linux_allocate:
  assumes l: "linux_laws K SIZE" and a: "Linux_allocate_address_space K SIZE k m = Some (b, k', m')"
  shows "b \<noteq> 0" "m \<subseteq>\<^sub>m m'" "linux_ok K SIZE k' m' b" "zero_from m' b 0 (space SIZE)"
proof -
  let ?len = "of_nat (32 * space SIZE) :: usize"
  have T: "0 < space SIZE" "space SIZE < 2 ^ 27" "mmap_law K ?len" using l by (simp_all add: linux_laws_def)
  note len = unat_linux_len [OF T(2)]
  obtain r where r: "syscall6 K SYS_MMAP 0 ?len 3 34 (- 1) 0 k m = (r, k', m')" "abort_on_fail r = Some b"
    using a linux_len [OF T(2)] by (auto simp: Linux_defs linux_flags bind_eq_Some_conv split: prod.splits)
  then have b: "b = r" using abort_on_fail_Some by blast
  let ?n = "whole_pages (32 * space SIZE)"
  have pages: "b \<noteq> 0" "4096 dvd unat b" "unat b + ?n < 2 ^ 64"
    "\<And>i. i < ?n \<Longrightarrow> m (b + of_nat i) = None \<and> m' (b + of_nat i) = Some 0"
    "\<And>x. ?n \<le> unat (x - b) \<Longrightarrow> m' x = m x"
  proof -
    have "abort_on_fail r = None \<or> r \<noteq> 0 \<and> 4096 dvd unat r \<and> unat r + whole_pages (unat ?len) < 2 ^ 64 \<and>
        (\<forall>i < whole_pages (unat ?len). m (r + of_nat i) = None \<and> m' (r + of_nat i) = Some 0) \<and>
        (\<forall>x. whole_pages (unat ?len) \<le> unat (x - r) \<longrightarrow> m' x = m x)"
      by (rule T(3) [unfolded mmap_law_def, THEN spec, THEN spec, THEN spec, THEN spec, THEN spec, THEN mp, OF r(1)])
    then have "r \<noteq> 0 \<and> 4096 dvd unat r \<and> unat r + ?n < 2 ^ 64 \<and>
        (\<forall>i < ?n. m (r + of_nat i) = None \<and> m' (r + of_nat i) = Some 0) \<and> (\<forall>x. ?n \<le> unat (x - r) \<longrightarrow> m' x = m x)"
      using r(2) unfolding len by simp
    then show "b \<noteq> 0" "4096 dvd unat b" "unat b + ?n < 2 ^ 64"
      "\<And>i. i < ?n \<Longrightarrow> m (b + of_nat i) = None \<and> m' (b + of_nat i) = Some 0"
      "\<And>x. ?n \<le> unat (x - b) \<Longrightarrow> m' x = m x"
      unfolding b by blast+
  qed
  have le: "32 * space SIZE \<le> ?n" by (rule whole_pages_le(1))
  have law: "b \<noteq> 0" "4096 dvd unat b" "unat b + 32 * space SIZE < 2 ^ 64"
    "\<And>i. i < 32 * space SIZE \<Longrightarrow> m (b + of_nat i) = None \<and> m' (b + of_nat i) = Some 0"
    using pages(1-3) pages(4) [OF less_le_trans [OF _ le]] le by auto
  show "b \<noteq> 0" by (rule law)
  show "m \<subseteq>\<^sub>m m'" using map_le_fresh_region [of ?n m b m'] pages(4,5) by blast
  have "32 dvd unat b" by (rule dvd_trans [OF _ law(2)]) simp
  then have "unat b mod 32 = 0" by simp
  then have "region_ok b (space SIZE)" using law(1,3) T by (simp add: region_ok_def)
  moreover have "mapped_until m' b (space SIZE)" using law(4) by (simp add: mapped_until_def byte_at_def)
  ultimately show "linux_ok K SIZE k' m' b" using l law(2) by (simp add: linux_ok_def)
  show "zero_from m' b 0 (space SIZE)" using law(4) by (simp add: zero_from_def byte_at_def)
qed

lemma linux_free:
  assumes "linux_ok K SIZE k m b"
  shows "\<exists>k' m'. Linux_free_address_space K SIZE k m b = Some (k', m') \<and> m' \<subseteq>\<^sub>m m"
proof -
  let ?len = "of_nat (32 * space SIZE) :: usize"
  have T: "space SIZE < 2 ^ 27" "munmap_law K ?len" "4096 dvd unat b" "mapped_until m b (space SIZE)"
    using assms by (simp_all add: linux_ok_def linux_laws_def)
  obtain r k' m' where r: "syscall2 K SYS_MUNMAP b ?len k m = (r, k', m')" by (metis prod_cases3)
  have "m (b + of_nat i) \<noteq> None" if "i < unat ?len" for i
    using T(4) that unfolding unat_linux_len [OF T(1)] mapped_until_def byte_at_def by blast
  then have "r = 0 \<and> m' \<subseteq>\<^sub>m m" using T(2,3) r unfolding munmap_law_def by blast
  then show ?thesis using r linux_len [OF T(1)] by (simp add: Linux_defs abort_on_fail_def)
qed

interpretation linux: zeroed_env "Linux_env K SIZE" "linux_init K SIZE" "linux_ok K SIZE" "space SIZE"
  for K :: "'k kernel" and SIZE
proof (unfold_locales, goal_cases)
  case (1 e)
  then show ?case by (simp add: Linux_env_def Linux_total_space_def const_size_sz)
next
  case (2 e m b)
  then show ?case by (simp add: linux_ok_def)
next
  case (3 e m b m')
  then show ?case using mapped_until_dom unfolding linux_ok_def by blast
next
  case (4 e m)
  then show ?case using linux_allocate unfolding linux_init_def Linux_env_def by fastforce
next
  case (5 e m b n)
  then show ?case using mapped_until_mono by (fastforce simp: linux_ok_def Linux_env_def Linux_expand_memory_until_def)
next
  case (6 e m b)
  then show ?case using linux_free by (simp add: Linux_env_def)
next
  case (7 e m b e1 m1 e2 m2 e3 m3)
  then show ?case by (simp add: Linux_env_def Linux_expand_memory_until_def)
next
  case (8 e m b e' m')
  then show ?case using linux_allocate(4) unfolding linux_init_def by (simp add: Linux_env_def)
next
  case (9 e m b n r e' m' x)
  then show ?case by (simp add: Linux_env_def Linux_expand_memory_until_def)
qed

end
