(* ===== verification/Generous.thy ===== *)
theory Generous
  imports Safety Linux_Env
begin

text \<open>
  Environments that never refuse space: allocation then fails only for want of room, and an allocator
  without allocations serves every request that fits, after any history. The array and the Linux
  environment are such.
\<close>

section \<open>The interface\<close>

locale generous_env = env_contract +
  assumes allocate_nonnull: "env_init e m \<Longrightarrow> allocate_address_space ops e m = Some (b, e', m') \<Longrightarrow> b \<noteq> 0"
    and expand_granted: "env_ok e m b \<Longrightarrow> n \<le> T \<Longrightarrow> expand_memory_until ops e m b (sz n) = Some (r, e', m') \<Longrightarrow> r"
begin

lemma never_refuses:
  assumes "heap_ok env_ok T s ks"
  shows "\<not> ensured ops T s False s'"
proof
  assume "ensured ops T s False s'"
  then obtain n where n: "n \<le> T" "ensure_space ops s (sz n) = Some (False, s')" unfolding ensured_def by blast
  have ok: "env_ok (env s) (mem s) (base_address s)" using assms by (simp add: heap_ok_def)
  obtain r e' m' where "expand_memory_until ops (env s) (mem s) (base_address s) (sz n) = Some (r, e', m')"
    using expand_ok [OF ok n(1)] by blast
  then show False using n(2) expand_granted [OF ok n(1)] by (auto simp: ensure_space_def split: if_splits)
qed

lemma alloc_served:
  assumes h: "heap_ok env_ok T s ks" and a: "is_power_of_two (raw_units a)" and n: "\<not> no_room ks (units n + units a)"
  shows "\<exists>p s'. alloc_impl ops c s a n z = Some (Some p, s')"
proof -
  obtain j where j: "j < 32" "a = sz (2 ^ j)" "units a = 2 ^ j" using a by (rule power_of_two_size)
  obtain res s1 s' where r: "alloc_impl ops c s a n z = Some (res, s')"
    "res = None \<and> s' = s1 \<and> (s1 = s \<and> no_room ks (units n + 2 ^ j) \<or> ensured ops T s False s1) \<or> (\<exists>x. res = Some x)"
    using alloc_impl_client [OF h j(1) units_less [of n], of c z] unfolding j(2) sz_units by blast
  then show ?thesis using n j(3) never_refuses [OF h] by (cases res) auto
qed

text \<open>The first call always finds its address space.\<close>

lemma initialize_succeeds:
  assumes f: "fresh_ok env_init s" and i: "initialize_impl ops c s = Some (ok, s')"
  shows "ok"
proof -
  have ini: "env_init (env s) (mem s)" using f by (simp add: fresh_ok_def)
  obtain b e1 m1 where a: "allocate_address_space ops (env s) (mem s) = Some (b, e1, m1)" "if b = 0 then env_init e1 m1 else env_ok e1 m1 b"
    using allocate_ok [OF ini] by blast
  have b: "b \<noteq> 0" by (rule allocate_nonnull [OF ini a(1)])
  then have ok: "env_ok e1 m1 b" using a(2) by simp
  have T: "1 \<le> T" "FREE_CHUNK_HEADER_SIZE = sz 1" using region_okD(2) [OF env_ok_region [OF ok]] by simp_all
  obtain r e2 m2 where x: "expand_memory_until ops e1 m1 b (sz 1) = Some (r, e2, m2)" using expand_ok [OF ok T(1)] by blast
  have "r" by (rule expand_granted [OF ok T(1) x])
  then show ?thesis using i a(1) b x T(2) by (auto simp: initialize_impl_def Let_def bind_eq_Some_conv)
qed

lemma fresh_started:
  assumes f: "fresh_ok env_init s"
  obtains s0 where "initialize_impl ops c s = Some (True, s0)" "heap_ok env_ok T s0 [(T, False)]"
    "\<And>a n z. is_power_of_two (raw_units a) \<Longrightarrow> alloc_impl ops c s a n z = alloc_impl ops c s0 a n z"
proof -
  obtain i s0 where i: "initialize_impl ops c s = Some (i, s0)" "if i then heap_ok env_ok T s0 [(T, False)] else fresh_ok env_init s0"
    using initialize_impl_ok [OF f, of c] by (metis (no_types, lifting))
  have i': "i" by (rule initialize_succeeds [OF f i(1)])
  then have h0: "heap_ok env_ok T s0 [(T, False)]" using i(2) by simp
  have "alloc_impl ops c s a n z = alloc_impl ops c s0 a n z" if "is_power_of_two (raw_units a)" for a n z
  proof -
    have "raw_units a \<noteq> 0" using that by (auto simp: is_power_of_two_iff)
    then show ?thesis using that i(1) i' fresh_base [OF f] heap_base [OF h0] by (simp add: alloc_impl_def initialize_def)
  qed
  then show thesis using that i(1) i' h0 by simp
qed

text \<open>Without allocations, every request that fits is served.\<close>

lemma empty_served:
  assumes ok: "client_ok env_init env_ok T s Map.empty" and a: "is_power_of_two (raw_units a)"
    and n: "units n + units a \<le> T" "units n + units a \<le> 2 ^ 25"
  shows "\<exists>p s'. alloc_impl ops c s a n z = Some (Some p, s')"
proof -
  have room: "\<not> no_room [(T, False)] (units n + units a)" using n unfolding no_room_def by (auto split: if_splits)
  show ?thesis
  proof (cases "base_address s = 0")
    case False
    then obtain ks where ks: "heap_ok env_ok T s ks" "view_of (base_address s) (lives 0 ks) = Map.empty"
      using ok fresh_base unfolding client_ok_def by metis
    then show ?thesis using alloc_served [OF ks(1) a] empty_view_layout [OF ks] room by simp
  next
    case True
    then have f: "fresh_ok env_init s" using ok heap_base unfolding client_ok_def by blast
    obtain s0 where s0: "heap_ok env_ok T s0 [(T, False)]"
      "\<And>a n z. is_power_of_two (raw_units a) \<Longrightarrow> alloc_impl ops c s a n z = alloc_impl ops c s0 a n z"
      using fresh_started [OF f, of c] by metis
    show ?thesis unfolding s0(2) [OF a] by (rule alloc_served [OF s0(1) a room])
  qed
qed

end

section \<open>Arrays\<close>

definition array_ready :: "usize \<Rightarrow> ArrayPointer \<Rightarrow> memory \<Rightarrow> bool" where
  "array_ready SIZE e m \<longleftrightarrow> array_ok SIZE e m (array e)"

interpretation full_array: generous_env "ArrayPointer_env SIZE" "array_ready SIZE" "array_ok SIZE" "space SIZE"
  for SIZE
proof (unfold_locales, goal_cases)
  case 1
  then show ?case by (rule array.total_space_ok)
next
  case 2
  then show ?case by (rule array.env_ok_region)
next
  case 3
  then show ?case by (rule array.env_ok_dom)
next
  case (4 e m)
  then have "array e \<noteq> 0" using region_okD(4) unfolding array_ready_def array_ok_def by blast
  then show ?case using 4 by (simp add: ArrayPointer_defs array_ready_def)
next
  case 5
  then show ?case by (rule array.expand_ok)
next
  case 6
  then show ?case by (rule array.free_ok)
next
  case (7 e m b e1 m1 e2 m2 e3 m3)
  then show ?case by (simp add: ArrayPointer_defs)
next
  case (8 e m b e' m')
  then show ?case using region_okD(4) unfolding array_ready_def array_ok_def by (auto simp: ArrayPointer_defs)
next
  case (9 e m b n r e' m')
  have "space SIZE < 2 ^ 32" using units_less by (simp add: space_def)
  then have "sz n \<le> const_size SIZE" using 9(2) by (simp add: Size_le_iff space_def)
  then show ?case using 9(3) by (simp add: ArrayPointer_defs)
qed

section \<open>Linux\<close>

interpretation full_linux: generous_env "Linux_env K SIZE" "linux_init K SIZE" "linux_ok K SIZE" "space SIZE"
  for K :: "'k kernel" and SIZE
proof (unfold_locales, goal_cases)
  case (1 e m b e' m')
  then show ?case using linux_allocate(1) unfolding linux_init_def by (simp add: Linux_env_def)
next
  case (2 e m b n r e' m')
  then show ?case by (simp add: Linux_env_def Linux_expand_memory_until_def)
qed

end
