(* ===== verification/Arrays.thy ===== *)
theory Arrays
  imports Generous
begin

text \<open>
  A small concrete allocator over \<^verbatim>\<open>ArrayPointer\<close> on which the properties are exercised, and what the
  general theorems give for its first calls.
\<close>

section \<open>Starting in an array\<close>

lemma array_start:
  assumes f: "fresh_ok (array_ready SIZE) s"
  obtains s0 where "initialize_impl (ArrayPointer_env SIZE) c s = Some (True, s0)"
    "heap_ok (array_ok SIZE) (space SIZE) s0 [(space SIZE, False)]" "base_address s0 = array (env s)"
    "\<And>a n z. is_power_of_two (raw_units a) \<Longrightarrow>
      alloc_impl (ArrayPointer_env SIZE) c s a n z = alloc_impl (ArrayPointer_env SIZE) c s0 a n z"
proof -
  obtain s0 where s0: "initialize_impl (ArrayPointer_env SIZE) c s = Some (True, s0)"
    "heap_ok (array_ok SIZE) (space SIZE) s0 [(space SIZE, False)]"
    "\<And>a n z. is_power_of_two (raw_units a) \<Longrightarrow>
      alloc_impl (ArrayPointer_env SIZE) c s a n z = alloc_impl (ArrayPointer_env SIZE) c s0 a n z"
    using full_array.fresh_started [OF f, of c] by metis
  obtain b e' m where "allocate_address_space (ArrayPointer_env SIZE) (env s) (mem s) = Some (b, e', m)" "base_address s0 = b"
    using full_array.initialize_impl_ok [OF f, of c] s0(1) by (force split: if_splits)
  then have "base_address s0 = array (env s)" by (auto simp: ArrayPointer_defs)
  then show thesis using that s0 by simp
qed

section \<open>A small allocator\<close>

text \<open>4096 bytes at address 4096, all checks on: 128 units.\<close>

definition demo_build :: build where
  "demo_build = \<lparr>paranoid = True, overflow_checks = True, realloc_inplace = True\<rparr>"

definition demo_ops :: "ArrayPointer env_ops" where
  "demo_ops = ArrayPointer_env 4096"

definition demo_memory :: memory where
  "demo_memory = (\<lambda>a. if 4096 \<le> a \<and> a < 8192 then Some 0 else None)"

definition demo_new :: "ArrayPointer machine" where
  "demo_new = Allocator_new (ArrayPointer 4096) demo_memory"

text \<open>It hands out an allocation of three units, and then one of two.\<close>

definition demo_1 :: "answer \<times> ArrayPointer machine" where
  "demo_1 = the (run_call demo_ops demo_build demo_new (Alloc (Size 1) (Size 3)))"

definition demo_p :: Pointer where
  "demo_p = (case fst demo_1 of Allocated p \<Rightarrow> the p)"

definition demo_s :: "ArrayPointer machine" where
  "demo_s = snd demo_1"

lemma demo_space [simp]: "space 4096 = 128"
  by (simp add: space_def const_size_def from_bytes_usize_eq)

lemma demo_array_ok: "array_ok 4096 (ArrayPointer 4096) demo_memory 4096"
proof -
  have "byte_at demo_memory 4096 k \<noteq> None" if "k < 4096" for k
  proof -
    have "unat (4096 + of_nat k :: u64) = 4096 + k" using that by (subst unat_add_small) (simp_all add: unat_of_nat)
    then show ?thesis using that by (simp add: byte_at_def demo_memory_def word_le_nat_alt word_less_nat_alt)
  qed
  then show ?thesis by (simp add: array_ok_def region_ok_def mapped_until_def)
qed

lemma demo_zero: "zero_from demo_memory 4096 0 128"
  by (simp add: zero_from_def byte_at_def demo_memory_def)

lemma demo_init: "zero_array_init 4096 (ArrayPointer 4096) demo_memory" "array_init 4096 (ArrayPointer 4096) demo_memory"
  "array_ready 4096 (ArrayPointer 4096) demo_memory"
  using demo_array_ok demo_zero by (simp_all add: zero_array_init_def array_init_def array_ready_def)

lemma demo_env_contract: "env_contract demo_ops (array_init 4096) (array_ok 4096) 128"
  using array.env_contract_axioms [of 4096] by (simp add: demo_ops_def)

lemma demo_zeroed_env: "zeroed_env demo_ops (zero_array_init 4096) (array_ok 4096) 128"
  using zero_array.zeroed_env_axioms [of 4096] by (simp add: demo_ops_def)

lemma demo_generous: "generous_env demo_ops (array_ready 4096) (array_ok 4096) 128"
  using full_array.generous_env_axioms [of 4096] by (simp add: demo_ops_def)

lemma demo_history_new:
  "history demo_ops (array_init 4096) demo_build demo_new Map.empty"
  "history demo_ops (zero_array_init 4096) demo_build demo_new Map.empty"
  "history demo_ops (array_ready 4096) demo_build demo_new Map.empty"
  unfolding demo_new_def by (rule history_new, rule demo_init)+

lemma demo_size_1: "is_power_of_two (raw_units (Size 1))" "units (Size 1) = 1" "Size 1 = sz 1"
proof -
  show "is_power_of_two (raw_units (Size 1))" by code_simp
qed (simp_all add: units_def sz_def)

lemma demo_step:
  assumes h: "history demo_ops (array_init 4096) demo_build s M" and l: "legal demo_build M call"
  obtains r s' where "run_call demo_ops demo_build s call = Some (r, s')"
    "history demo_ops (array_init 4096) demo_build s' (view_after M call r)" "answer_ok M (mem s) (mem s') call r"
proof -
  have "client_ok (array_init 4096) (array_ok 4096) 128 s M"
    by (rule env_contract.history_ok [OF demo_env_contract h])
  then obtain r s' where "run_call demo_ops demo_build s call = Some (r, s')" "answer_ok M (mem s) (mem s') call r"
    using env_contract.client_step [OF demo_env_contract _ l] by blast
  then show thesis using that history_call [OF h l] by blast
qed

text \<open>The first allocation lies at the start of the array, and the rest stays free.\<close>

lemma demo_first:
  "\<exists>s. run_call demo_ops c demo_new (Alloc (Size 1) (Size 3)) = Some (Allocated (Some (data_ptr 4096 0)), s) \<and>
     heap_ok (array_ok 4096) 128 s [(4, True), (124, False)] \<and> base_address s = 4096"
proof -
  have f: "fresh_ok (array_ready 4096) demo_new" unfolding demo_new_def by (rule Allocator_new_fresh [of "array_ready 4096", OF demo_init(3)])
  have e: "array (env demo_new) = 4096" by (simp add: demo_new_def Allocator_new_def)
  obtain s0 where s0: "heap_ok (array_ok 4096) 128 s0 [(128, False)]" "base_address s0 = 4096"
    "\<And>a n z. is_power_of_two (raw_units a) \<Longrightarrow> alloc_impl demo_ops c demo_new a n z = alloc_impl demo_ops c s0 a n z"
    by (rule array_start [OF f, of c]) (use e in \<open>simp add: demo_ops_def\<close>)
  have n: "Size 3 = sz 3" "units (Size 3) = 3" by (simp_all add: sz_def units_def)
  have room: "\<not> no_room [(128, False)] (units (Size 3) + units (Size 1))"
    by (auto simp: no_room_def n demo_size_1(2) split: if_splits)
  have s0': "heap_ok (array_ok 4096) (space 4096) s0 [(128, False)]" using s0(1) by simp
  obtain p s where ps: "alloc_impl demo_ops c s0 (Size 1) (Size 3) False = Some (Some p, s)"
    using full_array.alloc_served [OF s0' demo_size_1(1) room, of c False] by (auto simp: demo_ops_def)
  obtain s1 us n vs l r where x: "expanded s0 s1" "[(128, False)] = us @ (n, False) # vs" "p = data_ptr 4096 (extent us + l)"
    "served (array_ok 4096) 128 (units (allocated_space s0)) us n vs (2 ^ 0) 3 False l r s1 s"
    using env_contract.alloc_impl_heap_ok [OF demo_env_contract s0(1), of 0 3 c False] ps
    unfolding demo_size_1(3) n(1) s0(2) by auto
  have u: "us = []" "n = 128" "vs = []" using x(2) by (cases us; auto)+
  then have lr: "l = 0" "r = 124" using x(4) unfolding served_def by auto
  have "carved us l 3 r vs = [(4, True), (124, False)]" unfolding u lr carved_def by simp
  then have h: "heap_ok (array_ok 4096) 128 s [(4, True), (124, False)]" and b: "base_address s = 4096"
    using x(4) expandedD(2) [OF x(1)] s0(2) same_envD(1) [of s1 s] unfolding served_def by auto
  have run: "run_call demo_ops c demo_new (Alloc (Size 1) (Size 3)) = Some (Allocated (Some p), s)"
    using ps s0(3) [OF demo_size_1(1)] by (simp add: alloc_def)
  then show ?thesis using h b x(3) u(1) lr(1) by auto
qed

lemma demo_1_eq: "run_call demo_ops demo_build demo_new (Alloc (Size 1) (Size 3)) = Some (Allocated (Some demo_p), demo_s)"
  and demo_heap: "heap_ok (array_ok 4096) 128 demo_s [(4, True), (124, False)]" "base_address demo_s = 4096" "demo_p = data_ptr 4096 0"
  using demo_first [of demo_build] by (auto simp: demo_1_def demo_p_def demo_s_def)

lemma demo_history_1:
  "history demo_ops (array_init 4096) demo_build demo_s [demo_p \<mapsto> 3]"
  "history demo_ops (zero_array_init 4096) demo_build demo_s [demo_p \<mapsto> 3]"
  "history demo_ops (array_ready 4096) demo_build demo_s [demo_p \<mapsto> 3]"
  using history_call [OF demo_history_new(1) _ demo_1_eq] history_call [OF demo_history_new(2) _ demo_1_eq]
    history_call [OF demo_history_new(3) _ demo_1_eq]
  by (simp_all add: units_def)

text \<open>A second allocation, of two units.\<close>

definition demo_2 :: "answer \<times> ArrayPointer machine" where
  "demo_2 = the (run_call demo_ops demo_build demo_s (Alloc (Size 1) (Size 2)))"

definition demo_q :: Pointer where
  "demo_q = (case fst demo_2 of Allocated p \<Rightarrow> the p)"

definition demo_t :: "ArrayPointer machine" where
  "demo_t = snd demo_2"

lemma demo_2_eq: "run_call demo_ops demo_build demo_s (Alloc (Size 1) (Size 2)) = Some (Allocated (Some demo_q), demo_t)"
proof -
  have "bin_up 7 3 \<le> bin_of 124" by (simp add: bin_of_def bin_up_def bin_down_def ceil_div_def bin_shift_small)
  then have room: "\<not> no_room [(4, True), (124, False)] (units (Size 2) + units (Size 1))"
    by (auto simp: no_room_def units_def not_less)
  have "\<exists>p s. alloc_impl demo_ops demo_build demo_s (Size 1) (Size 2) False = Some (Some p, s)"
    unfolding demo_ops_def by (rule full_array.alloc_served [OF _ demo_size_1(1) room]) (simp add: demo_heap)
  then obtain p s where "run_call demo_ops demo_build demo_s (Alloc (Size 1) (Size 2)) = Some (Allocated (Some p), s)"
    by (auto simp: alloc_def)
  then show ?thesis by (simp add: demo_2_def demo_q_def demo_t_def)
qed

lemma demo_p_q: "demo_q \<noteq> demo_p" "demo_p \<noteq> demo_q"
proof -
  have "legal demo_build [demo_p \<mapsto> 3] (Alloc (Size 1) (Size 2))" by simp
  from demo_step [OF demo_history_1(1) this] obtain r s'
    where r: "run_call demo_ops demo_build demo_s (Alloc (Size 1) (Size 2)) = Some (r, s')"
      "answer_ok [demo_p \<mapsto> 3] (mem demo_s) (mem s') (Alloc (Size 1) (Size 2)) r" by blast
  then have "r = Allocated (Some demo_q)" using demo_2_eq by simp
  with r(2) have "answer_ok [demo_p \<mapsto> 3] (mem demo_s) (mem s') (Alloc (Size 1) (Size 2)) (Allocated (Some demo_q))" by simp
  then show "demo_q \<noteq> demo_p" "demo_p \<noteq> demo_q" by (auto split: if_splits)
qed

lemma demo_history_2: "history demo_ops (array_init 4096) demo_build demo_t [demo_p \<mapsto> 3, demo_q \<mapsto> 2]"
  using history_call [OF demo_history_1(1) _ demo_2_eq] by (simp add: units_def)

text \<open>The first allocation is freed again.\<close>

definition demo_freed :: "ArrayPointer machine" where
  "demo_freed = snd (the (run_call demo_ops demo_build demo_s (Free demo_p)))"

lemma demo_freed_eq: "run_call demo_ops demo_build demo_s (Free demo_p) = Some (Done, demo_freed)"
  and demo_freed_base: "base_address demo_freed \<noteq> 0"
proof -
  have "view_of 4096 (lives 0 [(4, True), (124, False)]) demo_p = Some 3"
    unfolding demo_heap(3) by (simp add: view_of_data_ptr)
  then have "legal demo_build (view_of (base_address demo_s) (lives 0 [(4, True), (124, False)])) (Free demo_p)"
    by (simp add: demo_heap(2))
  then obtain r s ks where st: "step_ok demo_ops (array_ok 4096) 128 demo_build demo_s [(4, True), (124, False)] (Free demo_p) r s ks"
    using env_contract.step_legal [OF demo_env_contract demo_heap(1)] by blast
  then have run: "run_call demo_ops demo_build demo_s (Free demo_p) = Some (r, s)" and b: "base_address s = 4096"
    by (simp_all add: step_ok_def Let_def demo_heap(2))
  then have "r = Done" by auto
  then show "run_call demo_ops demo_build demo_s (Free demo_p) = Some (Done, demo_freed)" "base_address demo_freed \<noteq> 0"
    using run b by (simp_all add: demo_freed_def)
qed

lemma demo_history_freed: "history demo_ops (array_ready 4096) demo_build demo_freed Map.empty"
  using history_call [OF demo_history_1(3) _ demo_freed_eq] by simp

text \<open>The first allocation grows in place, and zeroed memory is had.\<close>

lemma demo_realloc: "\<exists>s. run_call demo_ops demo_build demo_s (Realloc demo_p (Size 1) (Size 20)) = Some (Allocated (Some demo_p), s)"
proof -
  have h: "heap_ok (array_ok 4096) 128 demo_s ([] @ (4, True) # (124, False) # [])" using demo_heap(1) by simp
  have k: "(4 :: nat) < Suc 20" "Suc 20 \<le> 4 + (124 :: nat)" by simp_all
  obtain g s1 s where "grow_inplace demo_ops demo_build demo_s demo_p (sz 20) = Some (g, s)" "g = None \<and> ensured demo_ops 128 demo_s False s1 \<or> g = Some (sz 20)"
    using env_contract.grow_inplace_grows [OF demo_env_contract h k, of demo_build] demo_heap(2,3) by auto
  then have g: "grow_inplace demo_ops demo_build demo_s demo_p (sz 20) = Some (Some (sz 20), s)"
    using generous_env.never_refuses [OF demo_generous h, of s1] by auto
  have "usable_size_impl demo_build (mem demo_s) demo_p = Some (sz 3)"
    using usable_size_impl_ok [OF heap_ok_inv [OF demo_heap(1)], of 0 4 demo_build] demo_heap(2,3) by simp
  moreover have "Size 20 = sz 20" by (simp add: sz_def)
  moreover have "sz 20 \<noteq> sz 3" "\<not> sz 20 < sz 3" "\<not> Size_is_empty (sz 20)" by (simp_all add: sz_inject Size_less_iff)
  ultimately show ?thesis using g by (simp add: realloc_def demo_build_def)
qed

lemma demo_empty_served:
  assumes "is_power_of_two (raw_units a)" "units n + units a \<le> 128"
  shows "\<exists>p s. alloc_impl demo_ops demo_build demo_new a n z = Some (Some p, s)"
proof (rule generous_env.empty_served [OF demo_generous _ assms])
  show "client_ok (array_ready 4096) (array_ok 4096) 128 demo_new Map.empty"
    using full_array.history_ok [of 4096 demo_build demo_new Map.empty] demo_history_new(3) by (simp add: demo_ops_def)
qed (use assms(2) in simp)

lemma demo_zeroed: "\<exists>p s. run_call demo_ops demo_build demo_new (Alloc_zeroed (Size 1) (Size 2)) = Some (Allocated (Some p), s)"
  using demo_empty_served [OF demo_size_1(1), of "Size 2" True] by (auto simp: alloc_zeroed_def units_def)

end
