(* ===== verification/Mutexes.thy ===== *)
theory Mutexes
  imports Main
begin

text \<open>
  The spin lock of \<^verbatim>\<open>src/mutex.rs\<close>: the operations of \<^verbatim>\<open>Mutex\<close> and \<^verbatim>\<open>MutexGuard\<close> as functions, and
  the interleaving of any number of threads that use them as a step relation. Shown are that \<^verbatim>\<open>lock\<close>
  returns exactly when the flag can be taken, mutual exclusion, that what the mutex guards is always
  the outcome of critical sections run one after the other, and that a waiting thread can always be
  served.
\<close>

section \<open>Operations\<close>

record 'v Mutex =
  mutex_value :: 'v
  mutex_flag :: bool

definition Mutex_new :: "'v \<Rightarrow> 'v Mutex" where
  "Mutex_new v = \<lparr>mutex_value = v, mutex_flag = False\<rparr>"

text \<open>
  \<^verbatim>\<open>compare_exchange_weak\<close> may fail even though the flag has the expected value; whether it does is the
  first argument. The result says whether it failed, and what the flag is afterwards.
\<close>

definition compare_exchange_weak :: "bool \<Rightarrow> bool \<Rightarrow> bool \<Rightarrow> bool \<Rightarrow> bool \<times> bool" where
  "compare_exchange_weak spurious flag expected new =
     (if flag = expected \<and> \<not> spurious then (False, new) else (True, flag))"

text \<open>
  The loop of \<^verbatim>\<open>lock\<close> when no other thread runs; the schedule tells which attempts fail spuriously. A
  loop that never ends is \<^const>\<open>None\<close>.
\<close>

partial_function (option) lock_loop :: "(nat \<Rightarrow> bool) \<Rightarrow> nat \<Rightarrow> 'v Mutex \<Rightarrow> 'v Mutex option" where
  "lock_loop sp i x =
     (case compare_exchange_weak (sp i) (mutex_flag x) False True of
        (is_err, flag) \<Rightarrow>
          if is_err then lock_loop sp (Suc i) (x\<lparr>mutex_flag := flag\<rparr>) else Some (x\<lparr>mutex_flag := flag\<rparr>))"

definition lock :: "(nat \<Rightarrow> bool) \<Rightarrow> 'v Mutex \<Rightarrow> 'v Mutex option" where
  "lock sp x = lock_loop sp 0 x"

definition MutexGuard_drop :: "'v Mutex \<Rightarrow> 'v Mutex" where
  "MutexGuard_drop x = x\<lparr>mutex_flag := False\<rparr>"

definition MutexGuard_deref :: "'v Mutex \<Rightarrow> 'v" where
  "MutexGuard_deref x = mutex_value x"

definition MutexGuard_deref_mut :: "'v Mutex \<Rightarrow> 'v \<Rightarrow> 'v Mutex" where
  "MutexGuard_deref_mut x v = x\<lparr>mutex_value := v\<rparr>"

text \<open>\<^verbatim>\<open>mutex.lock().operation(..)\<close>: the guard lives until the end of the expression.\<close>

definition with_lock :: "(nat \<Rightarrow> bool) \<Rightarrow> ('v \<Rightarrow> ('r \<times> 'v) option) \<Rightarrow> 'v Mutex \<Rightarrow> ('r \<times> 'v Mutex) option" where
  "with_lock sp f x =
     (case lock sp x of
        None \<Rightarrow> None
      | Some g \<Rightarrow>
          (case f (MutexGuard_deref g) of
             None \<Rightarrow> None
           | Some (r, v) \<Rightarrow> Some (r, MutexGuard_drop (MutexGuard_deref_mut g v))))"

lemmas guard_defs = MutexGuard_drop_def MutexGuard_deref_def MutexGuard_deref_mut_def

section \<open>One thread\<close>

lemma lock_loop_free:
  "\<not> mutex_flag x \<Longrightarrow> \<not> sp (i + n) \<Longrightarrow> lock_loop sp i x = Some (x\<lparr>mutex_flag := True\<rparr>)"
proof (induction n arbitrary: i)
  case 0
  then show ?case by (subst lock_loop.simps) (simp add: compare_exchange_weak_def)
next
  case (Suc n)
  obtain v where x: "x = \<lparr>mutex_value = v, mutex_flag = False\<rparr>" using Suc.prems(1) by (cases x) simp
  have "lock_loop sp (Suc i) x = Some (x\<lparr>mutex_flag := True\<rparr>)" using Suc.prems by (intro Suc.IH) simp_all
  then show ?case unfolding x by (subst lock_loop.simps) (simp add: compare_exchange_weak_def)
qed

lemma lock_loop_result:
  assumes "lock_loop sp i x = Some y"
  shows "\<not> mutex_flag x \<and> (\<exists>j\<ge>i. \<not> sp j)"
proof -
  let ?P = "\<lambda>sp i (x :: 'a Mutex) (y :: 'a Mutex). \<not> mutex_flag x \<and> (\<exists>j\<ge>i. \<not> sp j)"
  show ?thesis
  proof (rule lock_loop.raw_induct [where P = ?P and xa = "((sp, i), x)" and y = y, unfolded prod.case, OF _ assms])
    fix loop and sp :: "nat \<Rightarrow> bool" and i and x y :: "'a Mutex"
    assume ih: "\<And>sp i x y. loop sp i x = Some y \<Longrightarrow> \<not> mutex_flag x \<and> (\<exists>j\<ge>i. \<not> sp j)"
      and r: "(case compare_exchange_weak (sp i) (mutex_flag x) False True of
        (is_err, flag) \<Rightarrow> if is_err then loop sp (Suc i) (x\<lparr>mutex_flag := flag\<rparr>) else Some (x\<lparr>mutex_flag := flag\<rparr>)) = Some y"
    show "\<not> mutex_flag x \<and> (\<exists>j\<ge>i. \<not> sp j)"
    proof (cases "mutex_flag x \<or> sp i")
      case True
      then have "compare_exchange_weak (sp i) (mutex_flag x) False True = (True, mutex_flag x)"
        by (auto simp: compare_exchange_weak_def)
      then have "loop sp (Suc i) (x\<lparr>mutex_flag := mutex_flag x\<rparr>) = Some y" using r by (simp only: prod.case if_True)
      from ih [OF this] show ?thesis by (auto dest: Suc_leD)
    qed auto
  qed
qed

lemma lock_free: "\<not> mutex_flag x \<Longrightarrow> \<exists>i. \<not> sp i \<Longrightarrow> lock sp x = Some (x\<lparr>mutex_flag := True\<rparr>)"
  unfolding lock_def using lock_loop_free [of x sp 0] by auto

lemma lock_cases: "lock sp x = (if mutex_flag x \<or> (\<forall>i. sp i) then None else Some (x\<lparr>mutex_flag := True\<rparr>))"
  using lock_free [of x sp] lock_loop_result [of sp 0 x] unfolding lock_def by (cases "lock_loop sp 0 x") auto

lemma with_lock_eq:
  assumes "\<not> mutex_flag x" "\<exists>i. \<not> sp i"
  shows "with_lock sp f x = map_option (\<lambda>(r, v). (r, Mutex_new v)) (f (mutex_value x))"
  using lock_free [OF assms] assms(1)
  by (cases x) (auto simp: with_lock_def guard_defs Mutex_new_def split: option.splits)

section \<open>Threads\<close>

text \<open>
  A critical section is a small program over its own state and the guarded one: one step is one access
  through the guard, and the guard is dropped when the section has ended. A thread is outside of the
  mutex, in the loop of \<^verbatim>\<open>lock\<close>, or holds the guard.
\<close>

datatype 'l pc = Outside | Locking 'l | Inside 'l

record ('v, 'l) threads =
  mutex :: "'v Mutex"
  pcs :: "nat \<Rightarrow> 'l pc"

definition threads_start :: "'v \<Rightarrow> ('v, 'l) threads" where
  "threads_start v = \<lparr>mutex = Mutex_new v, pcs = (\<lambda>t. Outside)\<rparr>"

inductive thread_step ::
    "('l \<Rightarrow> 'v \<Rightarrow> 'l \<times> 'v) \<Rightarrow> ('l \<Rightarrow> bool) \<Rightarrow> ('v, 'l) threads \<Rightarrow> ('v, 'l) threads \<Rightarrow> bool"
  for access ended where
  step_call: "pcs s t = Outside \<Longrightarrow> thread_step access ended s (s\<lparr>pcs := (pcs s)(t := Locking l)\<rparr>)"
| step_spin: "pcs s t = Locking l \<Longrightarrow>
    compare_exchange_weak spurious (mutex_flag (mutex s)) False True = (True, flag) \<Longrightarrow>
    thread_step access ended s (s\<lparr>mutex := (mutex s)\<lparr>mutex_flag := flag\<rparr>\<rparr>)"
| step_acquire: "pcs s t = Locking l \<Longrightarrow>
    compare_exchange_weak spurious (mutex_flag (mutex s)) False True = (False, flag) \<Longrightarrow>
    thread_step access ended s (s\<lparr>mutex := (mutex s)\<lparr>mutex_flag := flag\<rparr>, pcs := (pcs s)(t := Inside l)\<rparr>)"
| step_access: "pcs s t = Inside l \<Longrightarrow> \<not> ended l \<Longrightarrow> access l (MutexGuard_deref (mutex s)) = (l', v) \<Longrightarrow>
    thread_step access ended s (s\<lparr>mutex := MutexGuard_deref_mut (mutex s) v, pcs := (pcs s)(t := Inside l')\<rparr>)"
| step_release: "pcs s t = Inside l \<Longrightarrow> ended l \<Longrightarrow>
    thread_step access ended s (s\<lparr>mutex := MutexGuard_drop (mutex s), pcs := (pcs s)(t := Outside)\<rparr>)"

inductive threads_reach ::
    "('l \<Rightarrow> 'v \<Rightarrow> 'l \<times> 'v) \<Rightarrow> ('l \<Rightarrow> bool) \<Rightarrow> ('v, 'l) threads \<Rightarrow> ('v, 'l) threads \<Rightarrow> bool"
  for access ended s where
  reach_refl: "threads_reach access ended s s"
| reach_step: "threads_reach access ended s u \<Longrightarrow> thread_step access ended u w \<Longrightarrow> threads_reach access ended s w"

lemma reach_trans:
  "threads_reach access ended u w \<Longrightarrow> threads_reach access ended s u \<Longrightarrow> threads_reach access ended s w"
  by (induction rule: threads_reach.induct) (auto intro: reach_step)

text \<open>What a section does when nothing interferes, and the states reached by whole sections, one after the other.\<close>

inductive section_run ::
    "('l \<Rightarrow> 'v \<Rightarrow> 'l \<times> 'v) \<Rightarrow> ('l \<Rightarrow> bool) \<Rightarrow> 'l \<Rightarrow> 'v \<Rightarrow> 'l \<Rightarrow> 'v \<Rightarrow> bool"
  for access ended l v where
  run_refl: "section_run access ended l v l v"
| run_access: "section_run access ended l v l' v' \<Longrightarrow> \<not> ended l' \<Longrightarrow> access l' v' = (l'', v'') \<Longrightarrow>
    section_run access ended l v l'' v''"

inductive serial :: "('l \<Rightarrow> 'v \<Rightarrow> 'l \<times> 'v) \<Rightarrow> ('l \<Rightarrow> bool) \<Rightarrow> 'v \<Rightarrow> 'v \<Rightarrow> bool"
  for access ended v where
  serial_start: "serial access ended v v"
| serial_section: "serial access ended v v' \<Longrightarrow> section_run access ended l v' l' v'' \<Longrightarrow> ended l' \<Longrightarrow> serial access ended v v''"

section \<open>The invariant of the threads\<close>

text \<open>
  The flag is set exactly while some thread is inside, no two threads are, and the guarded value is
  what the sections that are over, followed by the part of the current one, have made of it.
\<close>

definition threads_inv :: "('l \<Rightarrow> 'v \<Rightarrow> 'l \<times> 'v) \<Rightarrow> ('l \<Rightarrow> bool) \<Rightarrow> 'v \<Rightarrow> ('v, 'l) threads \<Rightarrow> bool" where
  "threads_inv access ended v s \<longleftrightarrow>
     (if mutex_flag (mutex s)
      then \<exists>t l l\<^sub>0 v\<^sub>0. pcs s t = Inside l \<and> (\<forall>u l'. pcs s u = Inside l' \<longrightarrow> u = t) \<and>
        serial access ended v v\<^sub>0 \<and> section_run access ended l\<^sub>0 v\<^sub>0 l (mutex_value (mutex s))
      else (\<forall>u l'. pcs s u \<noteq> Inside l') \<and> serial access ended v (mutex_value (mutex s)))"

lemma exchange_simps:
  "compare_exchange_weak sp f False True = (True, g) \<longleftrightarrow> g = f \<and> (f \<or> sp)"
  "compare_exchange_weak sp f False True = (False, g) \<longleftrightarrow> g \<and> \<not> f \<and> \<not> sp"
  by (auto simp: compare_exchange_weak_def)

lemma inv_free: "threads_inv access ended v s \<Longrightarrow> \<not> mutex_flag (mutex s) \<Longrightarrow>
    (\<forall>u l. pcs s u \<noteq> Inside l) \<and> serial access ended v (mutex_value (mutex s))"
  by (simp add: threads_inv_def)

lemma inv_held:
  assumes "threads_inv access ended v s" "pcs s t = Inside l"
  obtains l\<^sub>0 v\<^sub>0 where "mutex_flag (mutex s)" "\<And>u l'. pcs s u = Inside l' \<Longrightarrow> u = t" "serial access ended v v\<^sub>0"
    "section_run access ended l\<^sub>0 v\<^sub>0 l (mutex_value (mutex s))"
proof -
  have f: "mutex_flag (mutex s)" using assms unfolding threads_inv_def by (meson assms(2))
  then obtain t' l' l\<^sub>0 v\<^sub>0 where h: "pcs s t' = Inside l'" "\<forall>u l'. pcs s u = Inside l' \<longrightarrow> u = t'"
    "serial access ended v v\<^sub>0" "section_run access ended l\<^sub>0 v\<^sub>0 l' (mutex_value (mutex s))"
    using assms(1) unfolding threads_inv_def by auto
  have t: "t = t'" using h(2) assms(2) by blast
  then have "l' = l" using h(1) assms(2) by simp
  then show thesis using that [OF f _ h(3)] h(2,4) t by simp
qed

lemma inv_heldI:
  assumes "mutex_flag (mutex s)" "pcs s t = Inside l" "\<And>u l'. pcs s u = Inside l' \<Longrightarrow> u = t" "serial access ended v v\<^sub>0"
    "section_run access ended l\<^sub>0 v\<^sub>0 l (mutex_value (mutex s))"
  shows "threads_inv access ended v s"
  using assms unfolding threads_inv_def by auto

text \<open>A step of a thread that stays outside changes nothing that the invariant speaks of.\<close>

lemma inv_outside:
  assumes i: "threads_inv access ended v s" and e: "mutex s' = mutex s"
    "\<And>u l. pcs s' u = Inside l \<longleftrightarrow> pcs s u = Inside l"
  shows "threads_inv access ended v s'"
proof (cases "mutex_flag (mutex s)")
  case True
  then obtain t l where t: "pcs s t = Inside l" using i unfolding threads_inv_def by auto
  from inv_held [OF i t] obtain l\<^sub>0 v\<^sub>0 where h: "\<And>u l'. pcs s u = Inside l' \<Longrightarrow> u = t" "serial access ended v v\<^sub>0"
    "section_run access ended l\<^sub>0 v\<^sub>0 l (mutex_value (mutex s))" by metis
  show ?thesis
  proof (rule inv_heldI [OF _ _ _ h(2)])
    show "mutex_flag (mutex s')" using True e(1) by simp
    show "pcs s' t = Inside l" using t e(2) by simp
    show "u = t" if "pcs s' u = Inside l'" for u l' using that e(2) h(1) by simp
    show "section_run access ended l\<^sub>0 v\<^sub>0 l (mutex_value (mutex s'))" using h(3) e(1) by simp
  qed
next
  case False
  then show ?thesis using inv_free [OF i False] e by (simp add: threads_inv_def)
qed

lemma thread_step_inv: "thread_step access ended s s' \<Longrightarrow> threads_inv access ended v s \<Longrightarrow> threads_inv access ended v s'"
proof (induction rule: thread_step.induct)
  case (step_call s t l)
  then show ?case by (intro inv_outside [OF step_call(2)]) auto
next
  case (step_spin s t l spurious flag)
  then have "flag = mutex_flag (mutex s)" by (simp add: exchange_simps)
  then show ?case using step_spin(3) by (intro inv_outside [OF step_spin(3)]) simp_all
next
  case (step_acquire s t l spurious flag)
  then have f: "flag" "\<not> mutex_flag (mutex s)" by (simp_all add: exchange_simps)
  note fr = inv_free [OF step_acquire(3) f(2)]
  show ?case
    by (rule inv_heldI [where t = t and l = l, OF _ _ _ fr [THEN conjunct2]]) (use f(1) fr in \<open>auto intro: run_refl split: if_splits\<close>)
next
  case (step_access s t l l' w)
  from inv_held [OF step_access(4,1)] obtain l\<^sub>0 v\<^sub>0 where h: "mutex_flag (mutex s)" "\<And>u l'. pcs s u = Inside l' \<Longrightarrow> u = t"
    "serial access ended v v\<^sub>0" "section_run access ended l\<^sub>0 v\<^sub>0 l (mutex_value (mutex s))" by metis
  have "section_run access ended l\<^sub>0 v\<^sub>0 l' w"
    using run_access [OF h(4) step_access(2)] step_access(3) by (simp add: guard_defs)
  then show ?case
    by (intro inv_heldI [where t = t and l = l', OF _ _ _ h(3)]) (use h(1,2) in \<open>auto simp: guard_defs split: if_splits\<close>)
next
  case (step_release s t l)
  from inv_held [OF step_release(3,1)] obtain l\<^sub>0 v\<^sub>0 where h: "mutex_flag (mutex s)" "\<And>u l'. pcs s u = Inside l' \<Longrightarrow> u = t"
    "serial access ended v v\<^sub>0" "section_run access ended l\<^sub>0 v\<^sub>0 l (mutex_value (mutex s))" by metis
  have "serial access ended v (mutex_value (mutex s))" by (rule serial_section [OF h(3,4) step_release(2)])
  moreover have "pcs s u \<noteq> Inside l'" if "u \<noteq> t" for u l' using h(2) that by blast
  ultimately show ?case by (simp add: threads_inv_def guard_defs)
qed

lemma threads_reach_inv:
  "threads_reach access ended (threads_start v) s \<Longrightarrow> threads_inv access ended v s"
proof (induction rule: threads_reach.induct)
  case reach_refl
  show ?case by (simp add: threads_start_def Mutex_new_def threads_inv_def serial_start)
next
  case (reach_step u w)
  show ?case by (rule thread_step_inv [OF reach_step(2,3)])
qed

section \<open>Progress\<close>

text \<open>If its section can end, the thread inside can release the mutex, and any waiting thread can then take it.\<close>

lemma section_reach:
  assumes "section_run access ended l v l' v'"
  shows "pcs s t = Inside l \<Longrightarrow> mutex_value (mutex s) = v \<Longrightarrow>
    threads_reach access ended s (s\<lparr>mutex := MutexGuard_deref_mut (mutex s) v', pcs := (pcs s)(t := Inside l')\<rparr>)"
  using assms
proof (induction rule: section_run.induct)
  case run_refl
  have "s\<lparr>mutex := MutexGuard_deref_mut (mutex s) v, pcs := (pcs s)(t := Inside l)\<rparr> = s"
    using run_refl by (cases s) (auto simp: guard_defs fun_upd_idem)
  then show ?case using reach_refl by metis
next
  case (run_access l' v' l'' v'')
  let ?s = "s\<lparr>mutex := MutexGuard_deref_mut (mutex s) v', pcs := (pcs s)(t := Inside l')\<rparr>"
  have "thread_step access ended ?s (?s\<lparr>mutex := MutexGuard_deref_mut (mutex ?s) v'', pcs := (pcs ?s)(t := Inside l'')\<rparr>)"
    by (rule step_access [of _ _ l']) (use run_access(2,3) in \<open>simp_all add: guard_defs\<close>)
  from reach_step [OF run_access(4) [OF run_access(5,6)] this] show ?case by (simp add: guard_defs fun_upd_def cong: if_cong)
qed

lemma waiting_served:
  assumes i: "threads_inv access ended v s" and t: "pcs s t = Locking l"
    and e: "\<And>l v. \<exists>l' v'. section_run access ended l v l' v' \<and> ended l'"
  shows "\<exists>s'. threads_reach access ended s s' \<and> pcs s' t = Inside l"
proof -
  have take_it: "\<exists>s'. threads_reach access ended u s' \<and> pcs s' t = Inside l"
    if "\<not> mutex_flag (mutex u)" "pcs u t = Locking l" for u
  proof -
    have "thread_step access ended u (u\<lparr>mutex := (mutex u)\<lparr>mutex_flag := True\<rparr>, pcs := (pcs u)(t := Inside l)\<rparr>)"
      by (rule step_acquire [OF that(2), of False]) (simp add: exchange_simps that)
    from reach_step [OF reach_refl this]
    show ?thesis by (rule_tac x = "u\<lparr>mutex := (mutex u)\<lparr>mutex_flag := True\<rparr>, pcs := (pcs u)(t := Inside l)\<rparr>" in exI) simp
  qed
  show ?thesis
  proof (cases "mutex_flag (mutex s)")
    case False
    then show ?thesis using take_it t by blast
  next
    case True
    then obtain h k where h: "pcs s h = Inside k" using i unfolding threads_inv_def by auto
    obtain k' w where k: "section_run access ended k (mutex_value (mutex s)) k' w" "ended k'" using e by blast
    let ?u = "s\<lparr>mutex := MutexGuard_deref_mut (mutex s) w, pcs := (pcs s)(h := Inside k')\<rparr>"
    have "thread_step access ended ?u (?u\<lparr>mutex := MutexGuard_drop (mutex ?u), pcs := (pcs ?u)(h := Outside)\<rparr>)"
      by (rule step_release [of _ _ k']) (use k(2) in simp_all)
    then have r: "threads_reach access ended s (?u\<lparr>mutex := MutexGuard_drop (mutex ?u), pcs := (pcs ?u)(h := Outside)\<rparr>)"
      by (rule reach_step [OF section_reach [OF k(1) h refl]])
    have "h \<noteq> t" using h t by auto
    then have "\<exists>s'. threads_reach access ended (?u\<lparr>mutex := MutexGuard_drop (mutex ?u), pcs := (pcs ?u)(h := Outside)\<rparr>) s' \<and>
        pcs s' t = Inside l" using t by (intro take_it) (simp_all add: guard_defs)
    then show ?thesis using reach_trans r by blast
  qed
qed

end
