(* ===== verification/Shared.thy ===== *)
theory Shared
  imports Safety Mutexes
begin

text \<open>
  One allocator behind a mutex, shared by any number of threads: every thread makes legal calls on the
  allocations it owns, each under the lock, writes to what it owns without it, and may hand an
  allocation to another thread. A call is not atomic: it reads the allocator when it begins, its stores
  land in the shared memory one by one in any order, and what it leaves in the allocator's fields is written back
  when it ends; everything else may happen in between. Every interleaving is nevertheless a history of the
  allocator, so that all that holds of histories holds of shared allocators, whatever the schedule.
\<close>

section \<open>The system\<close>

text \<open>
  What a thread does inside of the mutex: its call has not begun, is running (with its answer, the
  machine it has read and the machine it is to leave), or has ended.
\<close>

datatype 'e in_call = To_call call | Calling call answer "'e machine" "'e machine" | Call_over

record 'e shared =
  allocator_mutex :: "'e machine Mutex"
  owned :: "nat \<Rightarrow> view"
  callers :: "nat \<Rightarrow> 'e in_call pc"

definition shared_start :: "'e \<Rightarrow> memory \<Rightarrow> 'e shared" where
  "shared_start e m = \<lparr>allocator_mutex = Mutex_new (Allocator_new e m), owned = (\<lambda>t. Map.empty), callers = (\<lambda>t. Outside)\<rparr>"

text \<open>
  The machine when all stores of a call that turns \<open>h\<close> into \<open>h'\<close> have landed in \<open>cur\<close>: its fields as the
  call leaves them, and the memory as it is by then, with the bytes that the call changes.
\<close>

definition landed :: "'e machine \<Rightarrow> 'e machine \<Rightarrow> 'e machine \<Rightarrow> 'e machine" where
  "landed h h' cur = h'\<lparr>mem := \<lambda>a. if mem h a = mem h' a then mem cur a else mem h' a\<rparr>"

inductive shared_step :: "'e env_ops \<Rightarrow> build \<Rightarrow> 'e shared \<Rightarrow> 'e shared \<Rightarrow> bool" for ops c where
  shared_call: "callers s t = Outside \<Longrightarrow> legal c (owned s t) call \<Longrightarrow>
    shared_step ops c s (s\<lparr>callers := (callers s)(t := Locking (To_call call))\<rparr>)"
| shared_spin: "callers s t = Locking x \<Longrightarrow>
    compare_exchange_weak spurious (mutex_flag (allocator_mutex s)) False True = (True, flag) \<Longrightarrow>
    shared_step ops c s (s\<lparr>allocator_mutex := (allocator_mutex s)\<lparr>mutex_flag := flag\<rparr>\<rparr>)"
| shared_acquire: "callers s t = Locking x \<Longrightarrow>
    compare_exchange_weak spurious (mutex_flag (allocator_mutex s)) False True = (False, flag) \<Longrightarrow>
    shared_step ops c s (s\<lparr>allocator_mutex := (allocator_mutex s)\<lparr>mutex_flag := flag\<rparr>,
      callers := (callers s)(t := Inside x)\<rparr>)"
| shared_begin: "callers s t = Inside (To_call call) \<Longrightarrow> h = MutexGuard_deref (allocator_mutex s) \<Longrightarrow>
    run_call ops c h call = Some (r, h') \<Longrightarrow>
    shared_step ops c s (s\<lparr>callers := (callers s)(t := Inside (Calling call r h h'))\<rparr>)"
| shared_land: "callers s t = Inside (Calling call r h h') \<Longrightarrow> mem h a \<noteq> mem h' a \<Longrightarrow>
    cur = MutexGuard_deref (allocator_mutex s) \<Longrightarrow>
    shared_step ops c s (s\<lparr>allocator_mutex := MutexGuard_deref_mut (allocator_mutex s) (cur\<lparr>mem := (mem cur)(a := mem h' a)\<rparr>)\<rparr>)"
| shared_end: "callers s t = Inside (Calling call r h h') \<Longrightarrow> cur = MutexGuard_deref (allocator_mutex s) \<Longrightarrow>
    shared_step ops c s (s\<lparr>allocator_mutex := MutexGuard_deref_mut (allocator_mutex s) (landed h h' cur),
      owned := (owned s)(t := view_after (owned s t) call r), callers := (callers s)(t := Inside Call_over)\<rparr>)"
| shared_release: "callers s t = Inside Call_over \<Longrightarrow>
    shared_step ops c s (s\<lparr>allocator_mutex := MutexGuard_drop (allocator_mutex s), callers := (callers s)(t := Outside)\<rparr>)"
| shared_store: "callers s t = Outside \<Longrightarrow> owned s t p = Some k \<Longrightarrow> i < 32 * k \<Longrightarrow>
    cur = mutex_value (allocator_mutex s) \<Longrightarrow>
    shared_step ops c s (s\<lparr>allocator_mutex := (allocator_mutex s)
      \<lparr>mutex_value := cur\<lparr>mem := (mem cur)(address p + of_nat i \<mapsto> v)\<rparr>\<rparr>\<rparr>)"
| shared_give: "callers s t = Outside \<Longrightarrow> owned s t p = Some k \<Longrightarrow>
    shared_step ops c s (s\<lparr>owned := ((owned s)(t := (owned s t)(p := None)))
      (u := (((owned s)(t := (owned s t)(p := None))) u)(p \<mapsto> k))\<rparr>)"

inductive shared_reach :: "'e env_ops \<Rightarrow> ('e \<Rightarrow> memory \<Rightarrow> bool) \<Rightarrow> build \<Rightarrow> 'e shared \<Rightarrow> bool" for ops env_init c where
  shared_init: "env_init e m \<Longrightarrow> shared_reach ops env_init c (shared_start e m)"
| shared_next: "shared_reach ops env_init c s \<Longrightarrow> shared_step ops c s s' \<Longrightarrow> shared_reach ops env_init c s'"

section \<open>Ownership\<close>

text \<open>Every allocation of \<open>M\<close> is owned by exactly one thread, and nothing else is owned.\<close>

definition split_up :: "(nat \<Rightarrow> view) \<Rightarrow> view \<Rightarrow> bool" where
  "split_up own M \<longleftrightarrow> (\<forall>p k. M p = Some k \<longleftrightarrow> (\<exists>t. own t p = Some k)) \<and>
     (\<forall>t u p. own t p \<noteq> None \<longrightarrow> own u p \<noteq> None \<longrightarrow> t = u)"

lemma split_upD:
  assumes "split_up own M"
  shows "own t p = Some k \<Longrightarrow> M p = Some k" "M p = Some k \<Longrightarrow> \<exists>t. own t p = Some k" "M p = None \<Longrightarrow> own t p = None"
    "own t p = Some k \<Longrightarrow> u \<noteq> t \<Longrightarrow> own u p = None"
  using assms unfolding split_up_def by (blast, blast, metis not_Some_eq, metis not_Some_eq)

text \<open>One thread's allocations change at pointers nobody else has.\<close>

lemma split_up_change:
  assumes o: "split_up own M" and M: "\<And>p. (M' p = M p \<and> v p = own t p) \<or> (M' p = v p \<and> (\<forall>u. u \<noteq> t \<longrightarrow> own u p = None))"
  shows "split_up (own(t := v)) M'"
proof -
  have "(M' p = Some k \<longleftrightarrow> (\<exists>u. (own(t := v)) u p = Some k)) \<and>
      ((own(t := v)) u p \<noteq> None \<longrightarrow> (own(t := v)) w p \<noteq> None \<longrightarrow> u = w)" for p k u w
    using M [of p]
  proof
    assume "M' p = M p \<and> v p = own t p"
    then have "M' p = M p" "(own(t := v)) x p = own x p" for x by simp_all
    then show ?thesis using o unfolding split_up_def by metis
  next
    assume "M' p = v p \<and> (\<forall>u. u \<noteq> t \<longrightarrow> own u p = None)"
    then show ?thesis by auto
  qed
  then show ?thesis unfolding split_up_def by blast
qed

lemma split_up_give:
  assumes o: "split_up own M" and p: "own t p = Some k"
  shows "split_up ((own(t := (own t)(p := None)))(u := ((own(t := (own t)(p := None))) u)(p \<mapsto> k))) M"
proof -
  let ?own = "(own(t := (own t)(p := None)))(u := ((own(t := (own t)(p := None))) u)(p \<mapsto> k))"
  have at_p: "?own w p = (if w = u then Some k else None)" for w using split_upD(4) [OF o p] by auto
  have rest: "?own w q = own w q" if "q \<noteq> p" for w q using that by auto
  have "(M q = Some j \<longleftrightarrow> (\<exists>w. ?own w q = Some j)) \<and> (?own w q \<noteq> None \<longrightarrow> ?own x q \<noteq> None \<longrightarrow> w = x)" for q j w x
  proof (cases "q = p")
    case True
    then show ?thesis using split_upD(1) [OF o p] at_p by (auto split: if_splits)
  next
    case False
    show ?thesis unfolding rest [OF False] using o unfolding split_up_def by blast
  qed
  then show ?thesis unfolding split_up_def by blast
qed

fun call_argument :: "call \<Rightarrow> Pointer option" where
  "call_argument (Free p) = Some p"
| "call_argument (Shrink_inplace p n) = Some p"
| "call_argument (Grow_inplace p n) = Some p"
| "call_argument (Realloc p a n) = Some p"
| "call_argument _ = None"

lemma legal_argument: "legal c M call \<Longrightarrow> call_argument call = Some p \<Longrightarrow> M p \<noteq> None"
  by (cases call) (auto split: option.splits)

lemma legal_same_argument:
  "legal c M call \<Longrightarrow> (\<And>p. call_argument call = Some p \<Longrightarrow> M' p = M p) \<Longrightarrow> legal c M' call"
  by (cases call) auto

lemma legal_held:
  assumes o: "split_up own M" and l: "legal c (own t) call"
  shows "legal c M call"
  using l
proof (rule legal_same_argument)
  fix p assume "call_argument call = Some p"
  then obtain k where "own t p = Some k" using legal_argument [OF l] by blast
  then show "M p = own t p" using split_upD(1) [OF o] by simp
qed

lemma moved_from_argument: "p \<in> moved_from call \<Longrightarrow> call_argument call = Some p"
  by (cases call) auto

text \<open>A call touches its argument, and otherwise only what nobody held.\<close>

lemma view_after_other:
  assumes "answer_ok M m m' call r" "call_argument call \<noteq> Some p" "M p \<noteq> None"
  shows "view_after M call r p = M p"
proof (cases "(M, call, r)" rule: view_after.cases)
  case (6 M' q a n q')
  then show ?thesis using assms by auto
qed (use assms in auto)

lemma split_up_call:
  assumes o: "split_up own M" and l: "legal c (own t) call" and a: "answer_ok M m m' call r"
  shows "split_up (own(t := view_after (own t) call r)) (view_after M call r)"
proof (rule split_up_change [OF o])
  fix p
  have arg: "own t q = M q \<and> (\<forall>u. u \<noteq> t \<longrightarrow> own u q = None)" if q: "call_argument call = Some q" for q
  proof -
    obtain k where "own t q = Some k" using legal_argument [OF l q] by blast
    then show ?thesis using split_upD(1,4) [OF o] by simp
  qed
  have free: "\<forall>u. own u q = None" if "M q = None" for q using split_upD(3) [OF o that] by blast
  show "view_after M call r p = M p \<and> view_after (own t) call r p = own t p \<or>
      view_after M call r p = view_after (own t) call r p \<and> (\<forall>u. u \<noteq> t \<longrightarrow> own u p = None)"
    using a arg free by (cases "(M, call, r)" rule: view_after.cases) (auto split: if_splits)
qed

section \<open>The invariant\<close>

lemma landed_simps:
  "landed h h' h = h'" "mem h a \<noteq> mem h' a \<Longrightarrow> landed h h' (cur\<lparr>mem := (mem cur)(a := v)\<rparr>) = landed h h' cur"
  "mem h a = mem h' a \<Longrightarrow> landed h h' (cur\<lparr>mem := (mem cur)(a := v)\<rparr>) =
     (landed h h' cur)\<lparr>mem := (mem (landed h h' cur))(a := v)\<rparr>"
  by (cases h'; auto simp: landed_def fun_eq_iff)+

text \<open>
  While a call runs, what it is to leave is a history with the record after it, and it does not
  change the bytes of the allocations that are not its argument.
\<close>

definition running ::
    "'e env_ops \<Rightarrow> ('e \<Rightarrow> memory \<Rightarrow> bool) \<Rightarrow> build \<Rightarrow> view \<Rightarrow> 'e machine \<Rightarrow> call \<Rightarrow> answer \<Rightarrow> 'e machine \<Rightarrow> 'e machine \<Rightarrow> bool" where
  "running ops env_init c M cur call r h h' \<longleftrightarrow> history ops env_init c h M \<and> answer_ok M (mem h) (mem h') call r \<and>
     contents_kept (M |` (- moved_from call)) (view_after M call r) (mem h) (mem h') \<and>
     history ops env_init c (landed h h' cur) (view_after M call r)"

fun inside_ok :: "'e env_ops \<Rightarrow> ('e \<Rightarrow> memory \<Rightarrow> bool) \<Rightarrow> build \<Rightarrow> view \<Rightarrow> 'e machine \<Rightarrow> view \<Rightarrow> 'e in_call \<Rightarrow> bool" where
  "inside_ok ops env_init c M cur own (To_call call) \<longleftrightarrow> legal c own call \<and> history ops env_init c cur M"
| "inside_ok ops env_init c M cur own (Calling call r h h') \<longleftrightarrow> legal c own call \<and> running ops env_init c M cur call r h h'"
| "inside_ok ops env_init c M cur own Call_over \<longleftrightarrow> history ops env_init c cur M"

definition shared_inv :: "'e env_ops \<Rightarrow> ('e \<Rightarrow> memory \<Rightarrow> bool) \<Rightarrow> build \<Rightarrow> view \<Rightarrow> 'e shared \<Rightarrow> bool" where
  "shared_inv ops env_init c M s \<longleftrightarrow> split_up (owned s) M \<and>
     (\<forall>t x. callers s t = Locking x \<longrightarrow> (\<exists>call. x = To_call call \<and> legal c (owned s t) call)) \<and>
     (if mutex_flag (allocator_mutex s)
      then \<exists>t x. (\<forall>u y. callers s u = Inside y \<longleftrightarrow> u = t \<and> y = x) \<and>
        inside_ok ops env_init c M (mutex_value (allocator_mutex s)) (owned s t) x
      else (\<forall>u y. callers s u \<noteq> Inside y) \<and> history ops env_init c (mutex_value (allocator_mutex s)) M)"

text \<open>Who is inside, and what holds of the allocator then.\<close>

lemma inv_inside:
  assumes i: "shared_inv ops env_init c M s" and t: "callers s t = Inside x"
  shows "mutex_flag (allocator_mutex s)" "callers s u = Inside y \<longleftrightarrow> u = t \<and> y = x"
    "inside_ok ops env_init c M (mutex_value (allocator_mutex s)) (owned s t) x"
proof -
  show f: "mutex_flag (allocator_mutex s)" using i t unfolding shared_inv_def by (meson t)
  then obtain t' x' where w: "\<forall>u y. callers s u = Inside y \<longleftrightarrow> u = t' \<and> y = x'"
    "inside_ok ops env_init c M (mutex_value (allocator_mutex s)) (owned s t') x'"
    using i unfolding shared_inv_def by auto
  then have "t = t'" "x = x'" using t by blast+
  then show "callers s u = Inside y \<longleftrightarrow> u = t \<and> y = x"
    "inside_ok ops env_init c M (mutex_value (allocator_mutex s)) (owned s t) x" using w by simp_all
qed

lemma inv_cases:
  assumes "shared_inv ops env_init c M s"
  obtains (free) "\<not> mutex_flag (allocator_mutex s)" "\<And>u y. callers s u \<noteq> Inside y"
      "history ops env_init c (mutex_value (allocator_mutex s)) M"
  | (taken) t x where "mutex_flag (allocator_mutex s)" "callers s t = Inside x"
      "inside_ok ops env_init c M (mutex_value (allocator_mutex s)) (owned s t) x"
  using assms unfolding shared_inv_def by (auto split: if_splits)

lemma inv_insideI:
  assumes "split_up (owned s) M" "\<And>u y. callers s u = Locking y \<Longrightarrow> \<exists>call. y = To_call call \<and> legal c (owned s u) call"
    "mutex_flag (allocator_mutex s)" "\<And>u y. callers s u = Inside y \<longleftrightarrow> u = t \<and> y = x"
    "inside_ok ops env_init c M (mutex_value (allocator_mutex s)) (owned s t) x"
  shows "shared_inv ops env_init c M s"
  using assms unfolding shared_inv_def by auto

lemma inv_freeI:
  assumes "split_up (owned s) M" "\<And>u y. callers s u = Locking y \<Longrightarrow> \<exists>call. y = To_call call \<and> legal c (owned s u) call"
    "\<not> mutex_flag (allocator_mutex s)" "\<And>u y. callers s u \<noteq> Inside y"
    "history ops env_init c (mutex_value (allocator_mutex s)) M"
  shows "shared_inv ops env_init c M s"
  using assms unfolding shared_inv_def by auto

lemma inv_split: "shared_inv ops env_init c M s \<Longrightarrow> split_up (owned s) M"
  by (simp add: shared_inv_def)

lemma inv_waiting:
  "shared_inv ops env_init c M s \<Longrightarrow> callers s t = Locking x \<Longrightarrow> \<exists>call. x = To_call call \<and> legal c (owned s t) call"
  by (simp add: shared_inv_def)

text \<open>In every state the allocations held are those of a history.\<close>

lemma inv_some_history:
  assumes "shared_inv ops env_init c M s"
  shows "\<exists>h. history ops env_init c h M"
  using assms
proof (cases rule: inv_cases)
  case (taken t x)
  then show ?thesis by (cases x) (auto simp: running_def)
qed blast

section \<open>Every interleaving is a history\<close>

text \<open>What a thread writes to its own allocation while another one's call runs.\<close>

lemma running_store:
  assumes r: "running ops env_init c M cur call r h h'" and p: "M p = Some k" "call_argument call \<noteq> Some p" and i: "i < 32 * k"
  shows "running ops env_init c M (cur\<lparr>mem := (mem cur)(address p + of_nat i \<mapsto> v)\<rparr>) call r h h'"
proof -
  note d = r [unfolded running_def]
  have M': "view_after M call r p = Some k" using view_after_other [of M "mem h" "mem h'" call r p] d p by simp
  have "(M |` (- moved_from call)) p = Some k" using p moved_from_argument [of p call] by (auto simp: restrict_map_def)
  then have "data_byte (mem h') p i = data_byte (mem h) p i" using d M' i unfolding contents_kept_def by force
  then have eq: "mem h (address p + of_nat i) = mem h' (address p + of_nat i)" by (simp add: data_byte_def)
  have "history ops env_init c (landed h h' (cur\<lparr>mem := (mem cur)(address p + of_nat i \<mapsto> v)\<rparr>)) (view_after M call r)"
    unfolding landed_simps(3) [OF eq] by (rule history_store [where p = p and k = k and i = i and M = "view_after M call r", OF _ M' i]) (use d in blast)
  then show ?thesis using d unfolding running_def by blast
qed

lemma inside_store:
  assumes k: "inside_ok ops env_init c M cur own x" and p: "M p = Some k" "own p = None" and i: "i < 32 * k"
  shows "inside_ok ops env_init c M (cur\<lparr>mem := (mem cur)(address p + of_nat i \<mapsto> v)\<rparr>) own x"
proof (cases x)
  case (Calling call r h h')
  then have "call_argument call \<noteq> Some p" using legal_argument [of c own call p] k p(2) by auto
  moreover have "running ops env_init c M cur call r h h'" using k Calling by simp
  ultimately have "running ops env_init c M (cur\<lparr>mem := (mem cur)(address p + of_nat i \<mapsto> v)\<rparr>) call r h h'"
    by (intro running_store [where k = k and p = p and i = i and M = M, OF _ p(1) _ i])
  then show ?thesis using k Calling by simp
qed (use k history_store [where p = p and i = i and M = M, OF _ p(1) i] in auto)

context env_contract
begin

lemma running_begin:
  assumes h: "history ops env_init c h M" and l: "legal c M call" and r: "run_call ops c h call = Some (r, h')"
  shows "running ops env_init c M h call r h h'"
  using client_step [OF history_ok [OF h] l] history_call [OF h l r] h r unfolding running_def by (auto simp: landed_simps)

lemma shared_step_inv: "shared_step ops c s s' \<Longrightarrow> shared_inv ops env_init c M s \<Longrightarrow> \<exists>M'. shared_inv ops env_init c M' s'"
proof (induction rule: shared_step.induct)
  case (shared_call s t call)
  note i = shared_call(3)
  from i have "shared_inv ops env_init c M (s\<lparr>callers := (callers s)(t := Locking (To_call call))\<rparr>)"
  proof (cases rule: inv_cases)
    case free
    then show ?thesis using inv_split [OF i] inv_waiting [OF i] shared_call(2) by (intro inv_freeI) (auto split: if_splits)
  next
    case (taken u x)
    then show ?thesis using inv_split [OF i] inv_waiting [OF i] shared_call(1,2) inv_inside(2) [OF i taken(2)]
      by (cases "u = t", simp, intro inv_insideI [where t = u and x = x]) (auto split: if_splits)
  qed
  then show ?case by blast
next
  case (shared_spin s t x spurious flag)
  then have f: "flag = mutex_flag (allocator_mutex s)" by (simp add: exchange_simps)
  show ?case using shared_spin(3) unfolding shared_inv_def f by (intro exI [of _ M]) simp
next
  case (shared_acquire s t x spurious flag)
  note i = shared_acquire(3)
  have f: "flag" "\<not> mutex_flag (allocator_mutex s)" using shared_acquire(2) by (simp_all add: exchange_simps)
  obtain call where x: "x = To_call call" "legal c (owned s t) call" using inv_waiting [OF i shared_acquire(1)] by blast
  have "callers s u \<noteq> Inside y" "history ops env_init c (mutex_value (allocator_mutex s)) M" for u y
    using i f(2) unfolding shared_inv_def by auto
  then have "shared_inv ops env_init c M (s\<lparr>allocator_mutex := (allocator_mutex s)\<lparr>mutex_flag := flag\<rparr>, callers := (callers s)(t := Inside x)\<rparr>)"
    using inv_split [OF i] inv_waiting [OF i] f(1) x by (intro inv_insideI [where t = t and x = x]) (auto split: if_splits)
  then show ?case by blast
next
  case (shared_begin s t call h r h')
  note i = shared_begin(4) and n = inv_inside [OF shared_begin(4,1)]
  have k: "legal c (owned s t) call" "history ops env_init c h M" using n(3) shared_begin(2) by (simp_all add: guard_defs)
  note running = running_begin [OF k(2) legal_held [OF inv_split [OF i] k(1)] shared_begin(3)]
  have "shared_inv ops env_init c M (s\<lparr>callers := (callers s)(t := Inside (Calling call r h h'))\<rparr>)"
    using inv_split [OF i] inv_waiting [OF i] n(1,2) k(1) running shared_begin(2)
    by (intro inv_insideI [where t = t and x = "Calling call r h h'"]) (auto simp: guard_defs split: if_splits)
  then show ?case by blast
next
  case (shared_land s t call r h h' a cur)
  note i = shared_land(4) and n = inv_inside [OF shared_land(4,1)]
  have "shared_inv ops env_init c M (s\<lparr>allocator_mutex :=
      MutexGuard_deref_mut (allocator_mutex s) (cur\<lparr>mem := (mem cur)(a := mem h' a)\<rparr>)\<rparr>)"
    using inv_split [OF i] inv_waiting [OF i] n shared_land(2,3)
    by (intro inv_insideI [where t = t and x = "Calling call r h h'"]) (auto simp: guard_defs running_def landed_simps(2))
  then show ?case by blast
next
  case (shared_end s t call r h h' cur)
  note i = shared_end(3) and n = inv_inside [OF shared_end(3,1)]
  have k: "legal c (owned s t) call" "answer_ok M (mem h) (mem h') call r"
    "history ops env_init c (landed h h' cur) (view_after M call r)"
    using n(3) shared_end(2) by (simp_all add: guard_defs running_def)
  have "shared_inv ops env_init c (view_after M call r) (s\<lparr>allocator_mutex := MutexGuard_deref_mut (allocator_mutex s) (landed h h' cur),
      owned := (owned s)(t := view_after (owned s t) call r), callers := (callers s)(t := Inside Call_over)\<rparr>)"
    using split_up_call [OF inv_split [OF i] k(1,2)] inv_waiting [OF i] n(1,2) k(3)
    by (intro inv_insideI [where t = t and x = Call_over]) (auto simp: guard_defs split: if_splits)
  then show ?case by blast
next
  case (shared_release s t)
  note i = shared_release(2) and n = inv_inside [OF shared_release(2,1)]
  have "shared_inv ops env_init c M (s\<lparr>allocator_mutex := MutexGuard_drop (allocator_mutex s), callers := (callers s)(t := Outside)\<rparr>)"
    using inv_split [OF i] inv_waiting [OF i] n by (intro inv_freeI) (auto simp: guard_defs split: if_splits)
  then show ?case by blast
next
  case (shared_store s t p k i cur v)
  note j = shared_store(5)
  note o = split_upD [OF inv_split [OF j]]
  have M: "M p = Some k" by (rule o(1) [OF shared_store(2)])
  let ?s = "s\<lparr>allocator_mutex := (allocator_mutex s)\<lparr>mutex_value := cur\<lparr>mem := (mem cur)(address p + of_nat i \<mapsto> v)\<rparr>\<rparr>\<rparr>"
  from j have "shared_inv ops env_init c M ?s"
  proof (cases rule: inv_cases)
    case free
    then show ?thesis using inv_split [OF j] inv_waiting [OF j] history_store [OF free(3) M shared_store(3)] shared_store(4)
      by (intro inv_freeI) auto
  next
    case (taken u x)
    have "owned s u p = None" using o(4) [OF shared_store(2), of u] taken(2) shared_store(1) by (cases "u = t") auto
    note st = inside_store [OF taken(3) M this shared_store(3)]
    show ?thesis
      by (rule inv_insideI [where t = u and x = x])
        (use inv_split [OF j] inv_waiting [OF j] taken(1) inv_inside(2) [OF j taken(2)] st shared_store(4) in auto)
  qed
  then show ?case by blast
next
  case (shared_give s t p k u)
  note i = shared_give(3)
  let ?own = "((owned s)(t := (owned s t)(p := None)))(u := (((owned s)(t := (owned s t)(p := None))) u)(p \<mapsto> k))"
  have legal: "legal c (?own w) call" if w: "w \<noteq> t" and l: "legal c (owned s w) call" for w call
  proof (rule legal_same_argument [OF l])
    fix q assume q: "call_argument call = Some q"
    have "owned s w q \<noteq> None" by (rule legal_argument [OF l q])
    then have "q \<noteq> p" using split_upD(4) [OF inv_split [OF i] shared_give(2) w] by auto
    then show "?own w q = owned s w q" using w by simp
  qed
  have busy: "w \<noteq> t" if "callers s w = Locking x \<or> callers s w = Inside x" for w x using that shared_give(1) by auto
  have wait: "\<exists>call. x = To_call call \<and> legal c (?own w) call" if "callers s w = Locking x" for w x
    using inv_waiting [OF i that] legal [OF busy] that by blast
  from i have "shared_inv ops env_init c M (s\<lparr>owned := ?own\<rparr>)"
  proof (cases rule: inv_cases)
    case free
    then show ?thesis using split_up_give [OF inv_split [OF i] shared_give(2)] wait by (intro inv_freeI) simp_all
  next
    case (taken w x)
    have "inside_ok ops env_init c M (mutex_value (allocator_mutex s)) (?own w) x"
      using taken(3) legal [OF busy] taken(2) by (cases x) (simp_all del: fun_upd_apply)
    then show ?thesis using split_up_give [OF inv_split [OF i] shared_give(2)] wait taken(1) inv_inside(2) [OF i taken(2)]
      by (intro inv_insideI [where t = w and x = x]) (simp_all del: fun_upd_apply)
  qed
  then show ?case by blast
qed

lemma shared_reach_inv: "shared_reach ops env_init c s \<Longrightarrow> \<exists>M. shared_inv ops env_init c M s"
proof (induction rule: shared_reach.induct)
  case (shared_init e m)
  then have "shared_inv ops env_init c Map.empty (shared_start e m)"
    using history_new [of env_init e m ops c] by (simp add: shared_inv_def shared_start_def Mutex_new_def split_up_def)
  then show ?case by (intro exI [of _ Map.empty])
next
  case (shared_next s s')
  then show ?case using shared_step_inv by blast
qed

text \<open>What different threads own, or one thread owns twice, is apart.\<close>

lemma shared_separate:
  assumes i: "shared_inv ops env_init c M s" and p: "owned s t p = Some k" and q: "owned s u q = Some l" and tu: "t \<noteq> u \<or> p \<noteq> q"
  shows "separate p k q l"
proof -
  note o = split_upD [OF inv_split [OF i]]
  obtain h where h: "history ops env_init c h M" using inv_some_history [OF i] by blast
  have "p \<noteq> q" using o(4) [OF p, of u] q tu by auto
  then show ?thesis using live_separate [OF history_ok [OF h] o(1) [OF p] o(1) [OF q]] by blast
qed

lemma shared_value:
  assumes i: "shared_inv ops env_init c M s"
  shows "(\<And>t call a h h'. callers s t \<noteq> Inside (Calling call a h h')) \<Longrightarrow> history ops env_init c (mutex_value (allocator_mutex s)) M"
    and "callers s t = Inside (Calling call a h h') \<Longrightarrow>
      history ops env_init c (landed h h' (mutex_value (allocator_mutex s))) (view_after M call a)"
proof -
  assume n: "\<And>t call a h h'. callers s t \<noteq> Inside (Calling call a h h')"
  from i show "history ops env_init c (mutex_value (allocator_mutex s)) M"
  proof (cases rule: inv_cases)
    case (taken t x)
    then show ?thesis using n [of t] by (cases x) auto
  qed
next
  assume "callers s t = Inside (Calling call a h h')"
  then show "history ops env_init c (landed h h' (mutex_value (allocator_mutex s))) (view_after M call a)"
    using inv_inside(3) [OF i] by (fastforce simp: running_def)
qed

section \<open>Progress\<close>

lemma shared_reach_steps: "(shared_step ops c)\<^sup>*\<^sup>* s s' \<Longrightarrow> shared_reach ops env_init c s \<Longrightarrow> shared_reach ops env_init c s'"
  by (induction rule: rtranclp_induct) (auto intro: shared_next)

text \<open>A thread inside the mutex can always make its call and leave, and then any other thread can enter.\<close>

lemma shared_leave:
  assumes "callers s t = Inside Call_over"
  shows "\<exists>s'. (shared_step ops c)\<^sup>*\<^sup>* s s' \<and> \<not> mutex_flag (allocator_mutex s') \<and> callers s' = (callers s)(t := Outside)"
  using shared_release [OF assms, of ops c]
  by (intro exI [of _ "s\<lparr>allocator_mutex := MutexGuard_drop (allocator_mutex s), callers := (callers s)(t := Outside)\<rparr>"])
    (auto simp: guard_defs)

lemma shared_complete:
  assumes "callers s t = Inside (Calling call r h h')"
  shows "\<exists>s'. (shared_step ops c)\<^sup>*\<^sup>* s s' \<and> \<not> mutex_flag (allocator_mutex s') \<and> callers s' = (callers s)(t := Outside)"
proof -
  note e = shared_end [OF assms refl, of ops c]
  let ?u = "s\<lparr>allocator_mutex := MutexGuard_deref_mut (allocator_mutex s) (landed h h' (MutexGuard_deref (allocator_mutex s))),
    owned := (owned s)(t := view_after (owned s t) call r), callers := (callers s)(t := Inside Call_over)\<rparr>"
  obtain s' where "(shared_step ops c)\<^sup>*\<^sup>* ?u s'" "\<not> mutex_flag (allocator_mutex s')" "callers s' = (callers ?u)(t := Outside)"
    using shared_leave [of ?u t c] by auto
  then show ?thesis using e by (intro exI [of _ s']) (auto intro: converse_rtranclp_into_rtranclp)
qed

lemma shared_finish:
  assumes r: "shared_reach ops env_init c s" and t: "callers s t = Inside x"
  shows "\<exists>s'. (shared_step ops c)\<^sup>*\<^sup>* s s' \<and> \<not> mutex_flag (allocator_mutex s') \<and> callers s' = (callers s)(t := Outside)"
proof (cases x)
  case (To_call call)
  obtain M where i: "shared_inv ops env_init c M s" using shared_reach_inv [OF r] by blast
  have k: "legal c (owned s t) call" "history ops env_init c (mutex_value (allocator_mutex s)) M"
    using inv_inside(3) [OF i t] To_call by simp_all
  obtain a h where "run_call ops c (mutex_value (allocator_mutex s)) call = Some (a, h)"
    using client_step [OF history_ok [OF k(2)] legal_held [OF inv_split [OF i] k(1)]] by blast
  then have "run_call ops c (MutexGuard_deref (allocator_mutex s)) call = Some (a, h)" by (simp add: guard_defs)
  note b = shared_begin [OF t [unfolded To_call] refl this]
  let ?u = "s\<lparr>callers := (callers s)(t := Inside (Calling call a (MutexGuard_deref (allocator_mutex s)) h))\<rparr>"
  obtain s' where "(shared_step ops c)\<^sup>*\<^sup>* ?u s'" "\<not> mutex_flag (allocator_mutex s')" "callers s' = (callers ?u)(t := Outside)"
    using shared_complete [of ?u t call a _ h c] by auto
  then show ?thesis using b by (intro exI [of _ s']) (auto intro: converse_rtranclp_into_rtranclp)
qed (use shared_complete shared_leave t in blast)+

lemma shared_served:
  assumes r: "shared_reach ops env_init c s" and t: "callers s t = Locking x"
  shows "\<exists>s'. (shared_step ops c)\<^sup>*\<^sup>* s s' \<and> callers s' t = Inside x"
proof -
  have take_it: "\<exists>s'. shared_step ops c u s' \<and> callers s' t = Inside x"
    if "\<not> mutex_flag (allocator_mutex u)" "callers u t = Locking x" for u
  proof -
    have "compare_exchange_weak False (mutex_flag (allocator_mutex u)) False True = (False, True)"
      using that(1) by (simp add: exchange_simps)
    from shared_acquire [OF that(2) this] show ?thesis by (intro exI conjI) (assumption, simp)
  qed
  obtain M where "shared_inv ops env_init c M s" using shared_reach_inv [OF r] by blast
  then show ?thesis
  proof (cases rule: inv_cases)
    case free
    then show ?thesis using take_it t by blast
  next
    case (taken u y)
    obtain s' where s': "(shared_step ops c)\<^sup>*\<^sup>* s s'" "\<not> mutex_flag (allocator_mutex s')" "callers s' = (callers s)(u := Outside)"
      using shared_finish [OF r taken(2)] by blast
    moreover have "u \<noteq> t" using taken(2) t by auto
    ultimately have "callers s' t = Locking x" using t by simp
    then show ?thesis using take_it [OF s'(2)] s'(1) by (meson rtranclp.rtrancl_into_rtrancl)
  qed
qed

end

section \<open>Schedules\<close>

text \<open>A whole call by one thread while the others do nothing, and one during which another thread writes to what it owns.\<close>

abbreviation shared_state :: "'e machine \<Rightarrow> bool \<Rightarrow> (nat \<Rightarrow> view) \<Rightarrow> (nat \<Rightarrow> 'e in_call pc) \<Rightarrow> 'e shared" where
  "shared_state h f own k \<equiv> \<lparr>allocator_mutex = \<lparr>mutex_value = h, mutex_flag = f\<rparr>, owned = own, callers = k\<rparr>"

lemma shared_enter:
  assumes s: "shared_reach ops env_init c (shared_state h False own (\<lambda>t. Outside))"
    and l: "legal c (own t) call" and r: "run_call ops c h call = Some (r, h')"
  shows "shared_reach ops env_init c (shared_state h True own ((\<lambda>u. Outside)(t := Inside (Calling call r h h'))))"
proof -
  let ?k = "\<lambda>x. (\<lambda>u. Outside)(t := x)"
  have "shared_step ops c (shared_state h False own (\<lambda>t. Outside)) (shared_state h False own (?k (Locking (To_call call))))"
    using shared_call [of "shared_state h False own (\<lambda>t. Outside)" t c call ops] l by simp
  moreover have "shared_step ops c (shared_state h False own (?k (Locking (To_call call)))) (shared_state h True own (?k (Inside (To_call call))))"
    using shared_acquire [of "shared_state h False own (?k (Locking (To_call call)))" t "To_call call" False True ops c]
    by (simp add: exchange_simps)
  moreover have "shared_step ops c (shared_state h True own (?k (Inside (To_call call)))) (shared_state h True own (?k (Inside (Calling call r h h'))))"
    using shared_begin [of "shared_state h True own (?k (Inside (To_call call)))" t call h ops c r h'] r by (simp add: guard_defs)
  ultimately show ?thesis using s by (meson shared_next)
qed

lemma shared_exit:
  assumes s: "shared_reach ops env_init c (shared_state cur True own ((\<lambda>u. Outside)(t := Inside (Calling call r h h'))))"
  shows "shared_reach ops env_init c (shared_state (landed h h' cur) False (own(t := view_after (own t) call r)) (\<lambda>t. Outside))"
proof -
  let ?k = "\<lambda>x. (\<lambda>u. Outside)(t := x)"
  let ?own = "own(t := view_after (own t) call r)"
  have idle: "?k Outside = (\<lambda>u. Outside)" by (simp add: fun_upd_idem)
  have "shared_step ops c (shared_state cur True own (?k (Inside (Calling call r h h'))))
      (shared_state (landed h h' cur) True ?own (?k (Inside Call_over)))"
    using shared_end [of "shared_state cur True own (?k (Inside (Calling call r h h')))" t call r h h' cur ops c] by (simp add: guard_defs)
  moreover have "shared_step ops c (shared_state (landed h h' cur) True ?own (?k (Inside Call_over)))
      (shared_state (landed h h' cur) False ?own (\<lambda>u. Outside))"
    using shared_release [of "shared_state (landed h h' cur) True ?own (?k (Inside Call_over))" t ops c] by (simp add: guard_defs idle)
  ultimately show ?thesis using s by (meson shared_next)
qed

lemma shared_whole_call:
  assumes "shared_reach ops env_init c (shared_state h False own (\<lambda>t. Outside))"
    and "legal c (own t) call" "run_call ops c h call = Some (r, h')"
  shows "shared_reach ops env_init c (shared_state h' False (own(t := view_after (own t) call r)) (\<lambda>t. Outside))"
  using shared_exit [OF shared_enter [OF assms]] by (simp only: landed_simps(1))

lemma shared_written_call:
  assumes s: "shared_reach ops env_init c (shared_state h False own (\<lambda>t. Outside))"
    and l: "legal c (own t) call" and r: "run_call ops c h call = Some (r, h')"
    and p: "u \<noteq> t" "own u p = Some k" "i < 32 * k"
  shows "shared_reach ops env_init c (shared_state (landed h h' (h\<lparr>mem := (mem h)(address p + of_nat i \<mapsto> v)\<rparr>)) False
    (own(t := view_after (own t) call r)) (\<lambda>t. Outside))"
proof (rule shared_exit)
  let ?s = "shared_state h True own ((\<lambda>u. Outside)(t := Inside (Calling call r h h')))"
  have "shared_step ops c ?s (shared_state (h\<lparr>mem := (mem h)(address p + of_nat i \<mapsto> v)\<rparr>) True own
      ((\<lambda>u. Outside)(t := Inside (Calling call r h h'))))"
    using shared_store [of ?s u p k i h ops c v] p by simp
  then show "shared_reach ops env_init c (shared_state (h\<lparr>mem := (mem h)(address p + of_nat i \<mapsto> v)\<rparr>) True own
      ((\<lambda>u. Outside)(t := Inside (Calling call r h h'))))" by (rule shared_next [OF shared_enter [OF s l r]])
qed

end
