(* ===== verification/Global_Alloc.thy ===== *)
theory Global_Alloc
  imports Safety Mutexes
begin

text \<open>
  The implementation of the trait \<^verbatim>\<open>GlobalAlloc\<close> for \<^verbatim>\<open>Mutex<Allocator<E>>\<close> in
  \<^verbatim>\<open>src/allocator.rs\<close>: sizes and alignments arrive in bytes, pointers are raw, null is the error. The
  contract \<open>global_ok\<close> says that the mutex is free and that the allocator in it has a history with the
  given allocations; every operation keeps it.
\<close>

section \<open>The trait\<close>

text \<open>
  \<^verbatim>\<open>core::alloc::Layout\<close>: its alignment is a power of two. The schedule \<open>sp\<close> of every operation tells
  which attempts to take the lock fail spuriously.
\<close>

record Layout =
  layout_size :: usize
  layout_align :: usize

definition pointer_or_null :: "Pointer option \<Rightarrow> u64" where
  "pointer_or_null r = (case r of Some p \<Rightarrow> address p | None \<Rightarrow> 0)"

definition GlobalAlloc_alloc ::
    "(nat \<Rightarrow> bool) \<Rightarrow> 'e env_ops \<Rightarrow> build \<Rightarrow> 'e machine Mutex \<Rightarrow> Layout \<Rightarrow> (u64 \<times> 'e machine Mutex) option" where
  "GlobalAlloc_alloc sp ops c x l =
     (case from_bytes_usize (layout_align l) of
        None \<Rightarrow> Some (0, x)
      | Some align \<Rightarrow>
          (case from_bytes_usize (layout_size l) of
             None \<Rightarrow> Some (0, x)
           | Some layout_units \<Rightarrow> do {
               (r, x) \<leftarrow> with_lock sp (\<lambda>s. alloc ops c s align layout_units) x;
               Some (pointer_or_null r, x)
             }))"

definition GlobalAlloc_alloc_zeroed ::
    "(nat \<Rightarrow> bool) \<Rightarrow> 'e env_ops \<Rightarrow> build \<Rightarrow> 'e machine Mutex \<Rightarrow> Layout \<Rightarrow> (u64 \<times> 'e machine Mutex) option" where
  "GlobalAlloc_alloc_zeroed sp ops c x l =
     (case from_bytes_usize (layout_align l) of
        None \<Rightarrow> Some (0, x)
      | Some align \<Rightarrow>
          (case from_bytes_usize (layout_size l) of
             None \<Rightarrow> Some (0, x)
           | Some layout_units \<Rightarrow> do {
               (r, x) \<leftarrow> with_lock sp (\<lambda>s. alloc_zeroed ops c s align layout_units) x;
               Some (pointer_or_null r, x)
             }))"

definition GlobalAlloc_realloc ::
    "(nat \<Rightarrow> bool) \<Rightarrow> 'e env_ops \<Rightarrow> build \<Rightarrow> 'e machine Mutex \<Rightarrow> u64 \<Rightarrow> Layout \<Rightarrow> usize \<Rightarrow>
     (u64 \<times> 'e machine Mutex) option" where
  "GlobalAlloc_realloc sp ops c x pointer l new_size =
     (if pointer = 0 then Some (0, x)
      else case from_bytes_usize (layout_align l) of
        None \<Rightarrow> Some (0, x)
      | Some align \<Rightarrow>
          (case from_bytes_usize new_size of
             None \<Rightarrow> Some (0, x)
           | Some new_size \<Rightarrow> do {
               (r, x) \<leftarrow> with_lock sp (\<lambda>s. realloc ops c s (Pointer pointer) align new_size) x;
               Some (pointer_or_null r, x)
             }))"

definition GlobalAlloc_dealloc ::
    "(nat \<Rightarrow> bool) \<Rightarrow> 'e env_ops \<Rightarrow> build \<Rightarrow> 'e machine Mutex \<Rightarrow> u64 \<Rightarrow> Layout \<Rightarrow> 'e machine Mutex option" where
  "GlobalAlloc_dealloc sp ops c x pointer l =
     (if pointer = 0 then Some x
      else do { (r, x) \<leftarrow> with_lock sp (\<lambda>s. map_option (Pair ()) (free ops c s (Pointer pointer))) x; Some x })"

section \<open>Bytes and units\<close>

definition units_of_bytes :: "usize \<Rightarrow> nat" where
  "units_of_bytes n = (unat n + 31) div 32"

lemma from_bytes_units: "from_bytes_usize n = Some s \<Longrightarrow> units s = units_of_bytes n \<and> unat n \<le> 32 * units s \<and> 32 * units s < unat n + 32"
proof -
  assume a: "from_bytes_usize n = Some s"
  then have s: "s = sz (units_of_bytes n)" "units_of_bytes n < 2 ^ 32"
    unfolding from_bytes_usize_eq units_of_bytes_def by (simp_all split: if_splits)
  then have u: "units s = units_of_bytes n" by (simp add: units_sz)
  have "unat n \<le> 32 * units_of_bytes n \<and> 32 * units_of_bytes n < unat n + 32" unfolding units_of_bytes_def by presburger
  then show ?thesis using u by simp
qed

lemma from_bytes_empty: "from_bytes_usize n = Some s \<Longrightarrow> Size_is_empty s \<longleftrightarrow> n = 0"
proof -
  assume a: "from_bytes_usize n = Some s"
  have "units s = 0 \<longleftrightarrow> unat n = 0" using from_bytes_units [OF a] by presburger
  then show ?thesis by (simp add: Size_is_empty_def units_def unat_eq_0)
qed

text \<open>An alignment in bytes is a divisor of the alignment in units it is rounded up to.\<close>

lemma align_units:
  assumes a: "is_power_of_two n" and s: "from_bytes_usize n = Some s"
  shows "is_power_of_two (raw_units s)" "unat n dvd 32 * units s"
proof -
  obtain j where j: "j < 64" "unat n = 2 ^ j" using a by (auto simp: is_power_of_two_iff)
  have u: "units s = (2 ^ j + 31) div 32" using from_bytes_units [OF s] by (simp add: units_of_bytes_def j(2))
  have b: "units s < 2 ^ 32" by (rule units_less)
  show "is_power_of_two (raw_units s)" "unat n dvd 32 * units s"
  proof (atomize (full), cases "j \<le> 5")
    case True
    then have "(2 :: nat) ^ j \<le> 2 ^ 5" by (intro power_increasing) simp_all
    moreover have "0 < (2 :: nat) ^ j" by simp
    ultimately have "units s = 1" unfolding u by (simp add: div_nat_eqI)
    moreover have "(2 :: nat) ^ j dvd 2 ^ 5" using True by (rule le_imp_power_dvd)
    ultimately show "is_power_of_two (raw_units s) \<and> unat n dvd 32 * units s"
      by (auto simp: is_power_of_two_iff units_def j(2) intro: exI [of _ 0])
  next
    case False
    then obtain i where i: "j = 5 + i" using le_Suc_ex by (metis nat_le_linear)
    have "units s = 2 ^ i" unfolding u i by (simp add: power_add)
    moreover have "i < 32" using b calculation by (simp only: power_strict_increasing_iff [of 2] one_less_numeral_iff semiring_norm)
    ultimately show "is_power_of_two (raw_units s) \<and> unat n dvd 32 * units s"
      by (auto simp: is_power_of_two_iff units_def j(2) i power_add)
  qed
qed

section \<open>The contract\<close>

definition global_ok :: "'e env_ops \<Rightarrow> ('e \<Rightarrow> memory \<Rightarrow> bool) \<Rightarrow> build \<Rightarrow> 'e machine Mutex \<Rightarrow> view \<Rightarrow> bool" where
  "global_ok ops env_init c x M \<longleftrightarrow> \<not> mutex_flag x \<and> history ops env_init c (mutex_value x) M"

text \<open>A schedule under which the lock can be taken.\<close>

definition fair :: "(nat \<Rightarrow> bool) \<Rightarrow> bool" where
  "fair sp \<longleftrightarrow> (\<exists>i. \<not> sp i)"

lemma global_okD: "global_ok ops env_init c x M \<Longrightarrow> history ops env_init c (mutex_value x) M"
  by (simp add: global_ok_def)

lemma mutex_new_value [simp]: "mutex_value (Mutex_new v) = v" "\<not> mutex_flag (Mutex_new v)"
  by (simp_all add: Mutex_new_def)

abbreviation global_mem :: "'e machine Mutex \<Rightarrow> memory" where
  "global_mem x \<equiv> mem (mutex_value x)"

lemma with_lock_global:
  "global_ok ops env_init c x M \<Longrightarrow> fair sp \<Longrightarrow>
   with_lock sp h x = map_option (\<lambda>(r, v). (r, Mutex_new v)) (h (mutex_value x))"
  by (intro with_lock_eq) (simp_all add: global_ok_def fair_def)

text \<open>What an allocation of \<open>k\<close> units at a multiple of \<open>a\<close> does to the allocations there are; null is a failure.\<close>

definition given :: "view \<Rightarrow> u64 \<Rightarrow> nat \<Rightarrow> nat \<Rightarrow> view \<Rightarrow> bool" where
  "given M q k a M' \<longleftrightarrow> (if q = 0 then M' = M else M (Pointer q) = None \<and> M' = M(Pointer q \<mapsto> k) \<and> a dvd unat q)"

lemma given_dvd: "given M q k a M' \<Longrightarrow> a' dvd a \<Longrightarrow> given M q k a' M'"
  using dvd_trans [of a' a "unat q"] by (simp add: given_def split: if_splits)

context env_contract
begin

text \<open>A legal call under the lock.\<close>

lemma locked_call:
  assumes g: "global_ok ops env_init c x M" and f: "fair sp" and l: "legal c M call"
  obtains r s where "run_call ops c (mutex_value x) call = Some (r, s)"
    "global_ok ops env_init c (Mutex_new s) (view_after M call r)"
    "contents_kept (M |` (- moved_from call)) (view_after M call r) (global_mem x) (mem s)"
    "answer_ok M (global_mem x) (mem s) call r"
proof -
  note h = global_okD [OF g]
  obtain r s where r: "run_call ops c (mutex_value x) call = Some (r, s)"
    "contents_kept (M |` (- moved_from call)) (view_after M call r) (global_mem x) (mem s)"
    "answer_ok M (global_mem x) (mem s) call r"
    using client_step [OF history_ok [OF h] l] by blast
  have "global_ok ops env_init c (Mutex_new s) (view_after M call r)"
    using history_call [OF h l r(1)] by (simp add: global_ok_def)
  then show thesis using that r by blast
qed

lemma live_pointer:
  assumes "global_ok ops env_init c x M" "M p = Some k"
  shows "address p \<noteq> 0"
  using live_sound(1) [OF history_ok [OF global_okD [OF assms(1)]] assms(2)] by (simp add: sound_pointer_def)

text \<open>Allocation, under the lock, for the trait and for the C library.\<close>

lemma locked_alloc:
  assumes g: "global_ok ops env_init c x M" and f: "fair sp"
  shows "\<exists>r x' M'. with_lock sp (\<lambda>s. if z then alloc_zeroed ops c s a n else alloc ops c s a n) x = Some (r, x') \<and>
    run_call ops c (mutex_value x) (if z then Alloc_zeroed a n else Alloc a n) = Some (Allocated r, mutex_value x') \<and>
    global_ok ops env_init c x' M' \<and> given M (pointer_or_null r) (units n) (32 * units a) M' \<and>
    (r = None \<longleftrightarrow> pointer_or_null r = 0)"
proof -
  let ?call = "if z then Alloc_zeroed a n else Alloc a n"
  let ?op = "\<lambda>s. if z then alloc_zeroed ops c s a n else alloc ops c s a n"
  have l: "legal c M ?call" by simp
  obtain r s where r: "run_call ops c (mutex_value x) ?call = Some (r, s)"
    "global_ok ops env_init c (Mutex_new s) (view_after M ?call r)" "answer_ok M (global_mem x) (mem s) ?call r"
    using locked_call [OF g f l] by metis
  obtain q where q: "r = Allocated q" "?op (mutex_value x) = Some (q, s)" using r(1) by (cases z) auto
  have w: "with_lock sp ?op x = Some (q, Mutex_new s)" unfolding with_lock_global [OF g f] q(2) by simp
  have run: "run_call ops c (mutex_value x) ?call = Some (Allocated q, s)" using r(1) q(1) by simp
  show ?thesis
  proof (cases q)
    case None
    have "given M (pointer_or_null q) (units n) (32 * units a) (view_after M ?call r)"
      using None by (cases z) (simp_all add: q(1) given_def pointer_or_null_def)
    then show ?thesis using w run r(2) None by (intro exI conjI) (auto simp: pointer_or_null_def)
  next
    case (Some p)
    have p: "address p \<noteq> 0" by (rule live_pointer [OF r(2)]) (cases z; simp add: q(1) Some)
    then have "given M (pointer_or_null q) (units n) (32 * units a) (view_after M ?call r)"
      using r(3) Some by (cases z) (simp_all add: q(1) given_def pointer_or_null_def)
    then show ?thesis using w run r(2) p Some by (intro exI conjI) (auto simp: pointer_or_null_def)
  qed
qed

lemma locked_free:
  assumes g: "global_ok ops env_init c x M" and f: "fair sp" and p: "M p \<noteq> None"
  shows "\<exists>x'. with_lock sp (\<lambda>s. map_option (Pair ()) (free ops c s p)) x = Some ((), x') \<and>
    global_ok ops env_init c x' (M(p := None)) \<and>
    contents_kept (M(p := None)) (M(p := None)) (global_mem x) (global_mem x')"
proof -
  have l: "legal c M (Free p)" using p by simp
  obtain r s where r: "run_call ops c (mutex_value x) (Free p) = Some (r, s)"
    "global_ok ops env_init c (Mutex_new s) (view_after M (Free p) r)"
    "contents_kept (M |` (- moved_from (Free p))) (view_after M (Free p) r) (global_mem x) (mem s)"
    using locked_call [OF g f l] by metis
  have fr: "free ops c (mutex_value x) p = Some s" using r(1) by auto
  have "contents_kept (M(p := None)) (M(p := None)) (global_mem x) (mem s)"
    using r(3) unfolding contents_kept_def by (auto split: if_splits)
  then show ?thesis unfolding with_lock_global [OF g f] fr using r(2) by simp
qed

end

text \<open>What a reallocation to \<open>n\<close> units does: null leaves everything as it was.\<close>

definition regiven :: "view \<Rightarrow> memory \<Rightarrow> Pointer \<Rightarrow> u64 \<Rightarrow> nat \<Rightarrow> nat \<Rightarrow> view \<Rightarrow> memory \<Rightarrow> bool" where
  "regiven M m p q n a M' m' \<longleftrightarrow>
     (if q = 0 then M' = M \<and> contents_kept M M m m'
      else (Pointer q = p \<or> M (Pointer q) = None \<and> a dvd unat q) \<and> M' = M(p := None, Pointer q \<mapsto> n) \<and>
        contents_kept (M(p := None)) M' m m' \<and>
        (\<exists>k. M p = Some k \<and> (\<forall>i < 32 * min k n. data_byte m' (Pointer q) i = data_byte m p i)))"

lemma regiven_dvd: "regiven M m p q n a M' m' \<Longrightarrow> a' dvd a \<Longrightarrow> regiven M m p q n a' M' m'"
  using dvd_trans [of a' a "unat q"] unfolding regiven_def by (cases "q = 0") (simp_all, blast)

context env_contract
begin

lemma locked_realloc:
  assumes g: "global_ok ops env_init c x M" and f: "fair sp" and l: "legal c M (Realloc p a n)" and n: "\<not> Size_is_empty n"
  shows "\<exists>r x' M'. with_lock sp (\<lambda>s. realloc ops c s p a n) x = Some (r, x') \<and> global_ok ops env_init c x' M' \<and>
    regiven M (global_mem x) p (pointer_or_null r) (units n) (32 * units a) M' (global_mem x') \<and>
    (r = None \<longleftrightarrow> pointer_or_null r = 0)"
proof -
  obtain r s where r: "run_call ops c (mutex_value x) (Realloc p a n) = Some (r, s)"
    "global_ok ops env_init c (Mutex_new s) (view_after M (Realloc p a n) r)"
    "contents_kept (M |` (- moved_from (Realloc p a n))) (view_after M (Realloc p a n) r) (global_mem x) (mem s)"
    "answer_ok M (global_mem x) (mem s) (Realloc p a n) r"
    using locked_call [OF g f l] by metis
  obtain q where q: "r = Allocated q" "realloc ops c (mutex_value x) p a n = Some (q, s)" using r(1) by auto
  have w: "with_lock sp (\<lambda>s. realloc ops c s p a n) x = Some (q, Mutex_new s)"
    unfolding with_lock_global [OF g f] q(2) by simp
  show ?thesis
  proof (cases q)
    case None
    then have "regiven M (global_mem x) p (pointer_or_null q) (units n) (32 * units a) (view_after M (Realloc p a n) r) (mem s)"
      using r(4) n by (simp add: q(1) regiven_def pointer_or_null_def)
    then show ?thesis using w r(2) None by (intro exI conjI) (auto simp: pointer_or_null_def)
  next
    case (Some p')
    have p': "address p' \<noteq> 0" by (rule live_pointer [OF r(2)]) (simp add: q(1) Some)
    have "M |` (- {p}) = M(p := None)" by (auto simp: restrict_map_def)
    then have "regiven M (global_mem x) p (pointer_or_null q) (units n) (32 * units a) (view_after M (Realloc p a n) r) (mem s)"
      using r(3,4) p' Some by (simp add: q(1) regiven_def pointer_or_null_def)
    then show ?thesis using w r(2) p' Some by (intro exI conjI) (auto simp: pointer_or_null_def)
  qed
qed

section \<open>The operations of the trait\<close>

lemma global_alloc:
  assumes g: "global_ok ops env_init c x M" and f: "fair sp" and a: "is_power_of_two (layout_align l)"
  shows "\<exists>q x' M'. (if z then GlobalAlloc_alloc_zeroed else GlobalAlloc_alloc) sp ops c x l = Some (q, x') \<and>
    global_ok ops env_init c x' M' \<and> given M q (units_of_bytes (layout_size l)) (unat (layout_align l)) M' \<and>
    (z \<longrightarrow> q \<noteq> 0 \<longrightarrow> (\<exists>a n. unat (layout_size l) \<le> 32 * units n \<and>
      run_call ops c (mutex_value x) (Alloc_zeroed a n) = Some (Allocated (Some (Pointer q)), mutex_value x')))"
proof (cases "from_bytes_usize (layout_align l) = None \<or> from_bytes_usize (layout_size l) = None")
  case True
  then have "(if z then GlobalAlloc_alloc_zeroed else GlobalAlloc_alloc) sp ops c x l = Some (0, x)"
    by (auto simp: GlobalAlloc_alloc_def GlobalAlloc_alloc_zeroed_def split: option.split)
  moreover have "given M 0 (units_of_bytes (layout_size l)) (unat (layout_align l)) M" by (simp add: given_def)
  ultimately show ?thesis using g by blast
next
  case False
  then obtain al n where al: "from_bytes_usize (layout_align l) = Some al" "from_bytes_usize (layout_size l) = Some n" by auto
  obtain r x' M' where r: "with_lock sp (\<lambda>s. if z then alloc_zeroed ops c s al n else alloc ops c s al n) x = Some (r, x')"
    "run_call ops c (mutex_value x) (if z then Alloc_zeroed al n else Alloc al n) = Some (Allocated r, mutex_value x')"
    "global_ok ops env_init c x' M'" "given M (pointer_or_null r) (units n) (32 * units al) M'"
    "r = None \<longleftrightarrow> pointer_or_null r = 0"
    using locked_alloc [OF g f] by blast
  note u = from_bytes_units [OF al(2)]
  have run: "(if z then GlobalAlloc_alloc_zeroed else GlobalAlloc_alloc) sp ops c x l = Some (pointer_or_null r, x')"
    using r(1) by (cases z) (simp_all add: GlobalAlloc_alloc_def GlobalAlloc_alloc_zeroed_def al)
  have gv: "given M (pointer_or_null r) (units_of_bytes (layout_size l)) (unat (layout_align l)) M'"
    using given_dvd [OF r(4) align_units(2) [OF a al(1)]] u by simp
  have "r = Some (Pointer (pointer_or_null r))" if "pointer_or_null r \<noteq> 0"
    using that by (cases r) (simp_all add: pointer_or_null_def)
  then have "\<exists>a n. unat (layout_size l) \<le> 32 * units n \<and>
      run_call ops c (mutex_value x) (Alloc_zeroed a n) = Some (Allocated (Some (Pointer (pointer_or_null r))), mutex_value x')"
    if "z" "pointer_or_null r \<noteq> 0"
    using r(2) u that by auto
  then show ?thesis using run r(3) gv by blast
qed

lemma global_realloc:
  assumes g: "global_ok ops env_init c x M" and f: "fair sp" and a: "is_power_of_two (layout_align l)"
    and p: "M (Pointer p) = Some k" and n: "new_size \<noteq> 0" "realloc_inplace c \<or> k \<le> units_of_bytes new_size"
  shows "\<exists>q x' M'. GlobalAlloc_realloc sp ops c x p l new_size = Some (q, x') \<and> global_ok ops env_init c x' M' \<and>
    regiven M (global_mem x) (Pointer p) q (units_of_bytes new_size) (unat (layout_align l)) M' (global_mem x')"
proof (cases "from_bytes_usize (layout_align l) = None \<or> from_bytes_usize new_size = None")
  case True
  then have "GlobalAlloc_realloc sp ops c x p l new_size = Some (0, x)"
    by (auto simp: GlobalAlloc_realloc_def split: option.split)
  moreover have "regiven M (global_mem x) (Pointer p) 0 (units_of_bytes new_size) (unat (layout_align l)) M (global_mem x)"
    by (simp add: regiven_def contents_kept_def)
  ultimately show ?thesis using g by blast
next
  case False
  then obtain al s where al: "from_bytes_usize (layout_align l) = Some al" "from_bytes_usize new_size = Some s" by auto
  note u = from_bytes_units [OF al(2)]
  have nz: "p \<noteq> 0" using live_pointer [OF g p] by simp
  have l: "legal c M (Realloc (Pointer p) al s)" using p n(2) u align_units(1) [OF a al(1)] by auto
  have e: "\<not> Size_is_empty s" using from_bytes_empty [OF al(2)] n(1) by simp
  obtain r x' M' where r: "with_lock sp (\<lambda>m. realloc ops c m (Pointer p) al s) x = Some (r, x')" "global_ok ops env_init c x' M'"
    "regiven M (global_mem x) (Pointer p) (pointer_or_null r) (units s) (32 * units al) M' (global_mem x')"
    using locked_realloc [OF g f l e] by blast
  have "GlobalAlloc_realloc sp ops c x p l new_size = Some (pointer_or_null r, x')"
    using r(1) nz by (simp add: GlobalAlloc_realloc_def al)
  moreover have "regiven M (global_mem x) (Pointer p) (pointer_or_null r) (units_of_bytes new_size) (unat (layout_align l)) M' (global_mem x')"
    using regiven_dvd [OF r(3) align_units(2) [OF a al(1)]] u by simp
  ultimately show ?thesis using r(2) by blast
qed

lemma global_dealloc:
  assumes g: "global_ok ops env_init c x M" and f: "fair sp" and p: "p = 0 \<or> M (Pointer p) \<noteq> None"
  shows "\<exists>x'. GlobalAlloc_dealloc sp ops c x p l = Some x' \<and>
    global_ok ops env_init c x' (if p = 0 then M else M(Pointer p := None))"
proof (cases "p = 0")
  case True
  then show ?thesis using g by (simp add: GlobalAlloc_dealloc_def)
next
  case False
  then show ?thesis using locked_free [OF g f, of "Pointer p"] p by (auto simp: GlobalAlloc_dealloc_def)
qed

end

end
