(* ===== verification/Libc.thy ===== *)
theory Libc
  imports Global_Alloc Linux_Env
begin

text \<open>
  The C allocation functions of \<^verbatim>\<open>src/global_allocator_libc.rs\<close> over \<^verbatim>\<open>GLOBAL_ALLOCATOR\<close> of
  \<^verbatim>\<open>src/lib.rs\<close>. The state is the global mutex and the thread's \<^verbatim>\<open>errno\<close>, to which
  \<^verbatim>\<open>__errno_location\<close> of the C library points. \<^verbatim>\<open>free\<close> and \<^verbatim>\<open>realloc\<close> of C are \<open>c_free\<close> and
  \<open>c_realloc\<close>; the aliases \<^verbatim>\<open>__libc_malloc\<close> and so on are \<open>libc_malloc\<close> and so on.
\<close>

section \<open>The functions\<close>

type_synonym c_int = "32 word"

record 'e libc =
  global :: "'e machine Mutex"
  errno :: c_int

definition ENOMEM :: c_int where "ENOMEM = 12"
definition EINVAL :: c_int where "EINVAL = 22"

text \<open>The system allocator, and the state of the static before any call.\<close>

definition SystemAllocator :: "'k kernel \<Rightarrow> 'k env_ops" where
  "SystemAllocator K = Linux_env K (1024 * 1024 * 1024)"

definition GLOBAL_ALLOCATOR :: "'e \<Rightarrow> memory \<Rightarrow> 'e machine Mutex" where
  "GLOBAL_ALLOCATOR e m = Mutex_new (Allocator_new e m)"

definition set_errno :: "c_int \<Rightarrow> 'e libc \<Rightarrow> 'e libc" where
  "set_errno v L = L\<lparr>errno := v\<rparr>"

definition SIZEOF_pointer :: usize where
  "SIZEOF_pointer = 8"

text \<open>
  The place \<^verbatim>\<open>result\<close> points to is passed as its value, and returned with what it holds afterwards.
\<close>

definition posix_memalign ::
    "(nat \<Rightarrow> bool) \<Rightarrow> 'e env_ops \<Rightarrow> build \<Rightarrow> 'e libc \<Rightarrow> u64 \<Rightarrow> usize \<Rightarrow> usize \<Rightarrow> (c_int \<times> u64 \<times> 'e libc) option" where
  "posix_memalign sp ops c L result align len =
     (if \<not> is_power_of_two align \<or> align < SIZEOF_pointer then Some (EINVAL, result, L)
      else case from_bytes_usize len of
        None \<Rightarrow> Some (ENOMEM, result, L)
      | Some n \<Rightarrow>
          (case from_bytes_usize align of
             None \<Rightarrow> Some (ENOMEM, result, L)
           | Some a \<Rightarrow> do {
               (r, x) \<leftarrow> with_lock sp (\<lambda>s. alloc ops c s a n) (global L);
               case r of
                 Some p \<Rightarrow> Some (0, address p, L\<lparr>global := x\<rparr>)
               | None \<Rightarrow> Some (ENOMEM, result, L\<lparr>global := x\<rparr>)
             }))"

definition aligned_alloc ::
    "(nat \<Rightarrow> bool) \<Rightarrow> 'e env_ops \<Rightarrow> build \<Rightarrow> 'e libc \<Rightarrow> usize \<Rightarrow> usize \<Rightarrow> (u64 \<times> 'e libc) option" where
  "aligned_alloc sp ops c L align len = do {
     (e, result, L) \<leftarrow> posix_memalign sp ops c L 0 align len;
     Some (result, if e \<noteq> 0 then set_errno e L else L)
   }"

definition memalign ::
    "(nat \<Rightarrow> bool) \<Rightarrow> 'e env_ops \<Rightarrow> build \<Rightarrow> 'e libc \<Rightarrow> usize \<Rightarrow> usize \<Rightarrow> (u64 \<times> 'e libc) option" where
  "memalign sp ops c L align len = aligned_alloc sp ops c L align len"

definition malloc :: "(nat \<Rightarrow> bool) \<Rightarrow> 'e env_ops \<Rightarrow> build \<Rightarrow> 'e libc \<Rightarrow> usize \<Rightarrow> (u64 \<times> 'e libc) option" where
  "malloc sp ops c L len = aligned_alloc sp ops c L SIZEOF_pointer len"

definition calloc ::
    "(nat \<Rightarrow> bool) \<Rightarrow> 'e env_ops \<Rightarrow> build \<Rightarrow> 'e libc \<Rightarrow> usize \<Rightarrow> usize \<Rightarrow> (u64 \<times> 'e libc) option" where
  "calloc sp ops c L count len =
     (case checked_mul_word count len of
        None \<Rightarrow> Some (0, set_errno ENOMEM L)
      | Some total_size \<Rightarrow>
          (case from_bytes_usize total_size of
             None \<Rightarrow> Some (0, set_errno ENOMEM L)
           | Some n \<Rightarrow> do {
               (r, x) \<leftarrow> with_lock sp (\<lambda>s. alloc_zeroed ops c s (const_size 16) n) (global L);
               case r of
                 Some p \<Rightarrow> Some (address p, L\<lparr>global := x\<rparr>)
               | None \<Rightarrow> Some (0, set_errno ENOMEM (L\<lparr>global := x\<rparr>))
             }))"

definition c_free :: "(nat \<Rightarrow> bool) \<Rightarrow> 'e env_ops \<Rightarrow> build \<Rightarrow> 'e libc \<Rightarrow> u64 \<Rightarrow> 'e libc option" where
  "c_free sp ops c L pointer =
     (if pointer = 0 then Some L
      else do {
        (r, x) \<leftarrow> with_lock sp (\<lambda>s. map_option (Pair ()) (free ops c s (Pointer pointer))) (global L);
        Some (L\<lparr>global := x\<rparr>)
      })"

definition c_realloc ::
    "(nat \<Rightarrow> bool) \<Rightarrow> 'e env_ops \<Rightarrow> build \<Rightarrow> 'e libc \<Rightarrow> u64 \<Rightarrow> usize \<Rightarrow> (u64 \<times> 'e libc) option" where
  "c_realloc sp ops c L pointer len =
     (if pointer = 0 then malloc sp ops c L len
      else if len = 0 then do { L \<leftarrow> c_free sp ops c L pointer; Some (0, L) }
      else case from_bytes_usize len of
        None \<Rightarrow> Some (0, set_errno ENOMEM L)
      | Some n \<Rightarrow> do {
          (r, x) \<leftarrow> with_lock sp (\<lambda>s. realloc ops c s (Pointer pointer) (const_size 1) n) (global L);
          case r of
            Some p \<Rightarrow> Some (address p, L\<lparr>global := x\<rparr>)
          | None \<Rightarrow> Some (0, set_errno ENOMEM (L\<lparr>global := x\<rparr>))
        })"

definition reallocarray ::
    "(nat \<Rightarrow> bool) \<Rightarrow> 'e env_ops \<Rightarrow> build \<Rightarrow> 'e libc \<Rightarrow> u64 \<Rightarrow> usize \<Rightarrow> usize \<Rightarrow> (u64 \<times> 'e libc) option" where
  "reallocarray sp ops c L pointer count len =
     (case checked_mul_word count len of
        None \<Rightarrow> Some (0, set_errno ENOMEM L)
      | Some total_size \<Rightarrow> c_realloc sp ops c L pointer total_size)"

definition malloc_usable_size :: "build \<Rightarrow> 'e libc \<Rightarrow> u64 \<Rightarrow> usize option" where
  "malloc_usable_size c L pointer =
     (if pointer = 0 then Some 0 else usable_size c (global_mem (global L)) (Pointer pointer))"

definition libc_malloc :: "(nat \<Rightarrow> bool) \<Rightarrow> 'e env_ops \<Rightarrow> build \<Rightarrow> 'e libc \<Rightarrow> usize \<Rightarrow> (u64 \<times> 'e libc) option" where
  "libc_malloc sp ops c L len = malloc sp ops c L len"

definition libc_calloc ::
    "(nat \<Rightarrow> bool) \<Rightarrow> 'e env_ops \<Rightarrow> build \<Rightarrow> 'e libc \<Rightarrow> usize \<Rightarrow> usize \<Rightarrow> (u64 \<times> 'e libc) option" where
  "libc_calloc sp ops c L count len = calloc sp ops c L count len"

definition libc_realloc ::
    "(nat \<Rightarrow> bool) \<Rightarrow> 'e env_ops \<Rightarrow> build \<Rightarrow> 'e libc \<Rightarrow> u64 \<Rightarrow> usize \<Rightarrow> (u64 \<times> 'e libc) option" where
  "libc_realloc sp ops c L pointer len = c_realloc sp ops c L pointer len"

definition libc_free :: "(nat \<Rightarrow> bool) \<Rightarrow> 'e env_ops \<Rightarrow> build \<Rightarrow> 'e libc \<Rightarrow> u64 \<Rightarrow> 'e libc option" where
  "libc_free sp ops c L pointer = c_free sp ops c L pointer"

section \<open>Constants\<close>

lemma const_small [simp]: "const_size 16 = sz 1" "const_size 1 = sz 1"
  by (simp_all add: const_size_def from_bytes_usize_eq)

lemma pointer_size_alignment [simp]: "is_power_of_two SIZEOF_pointer" "unat SIZEOF_pointer = 8"
proof -
  show "unat SIZEOF_pointer = 8" by (simp add: SIZEOF_pointer_def)
  then show "is_power_of_two SIZEOF_pointer" unfolding is_power_of_two_iff by (intro exI [of _ 3]) simp
qed

lemma raw_units_1 [simp]: "is_power_of_two (raw_units (sz 1))" "units (sz 1) = 1"
  by (simp_all add: sz_def is_power_of_two_iff units_def exI [of _ 0])

lemma set_errno_simps [simp]: "global (set_errno v L) = global L" "errno (set_errno v L) = v"
  by (simp_all add: set_errno_def)

lemma errors_nonzero [simp]: "ENOMEM \<noteq> 0" "EINVAL \<noteq> 0" "ENOMEM \<noteq> EINVAL" "EINVAL \<noteq> ENOMEM"
  by (simp_all add: ENOMEM_def EINVAL_def)

section \<open>What the functions promise\<close>

definition libc_ok :: "'e env_ops \<Rightarrow> ('e \<Rightarrow> memory \<Rightarrow> bool) \<Rightarrow> build \<Rightarrow> 'e libc \<Rightarrow> view \<Rightarrow> bool" where
  "libc_ok ops env_init c L M \<longleftrightarrow> global_ok ops env_init c (global L) M"

text \<open>
  An allocating function returns null with \<^verbatim>\<open>errno\<close> set, and the allocations are what they were, or it
  returns a new allocation, and \<^verbatim>\<open>errno\<close> is untouched.
\<close>

definition allocated_or_errno :: "view \<Rightarrow> 'e libc \<Rightarrow> u64 \<Rightarrow> nat \<Rightarrow> nat \<Rightarrow> c_int set \<Rightarrow> view \<Rightarrow> 'e libc \<Rightarrow> bool" where
  "allocated_or_errno M L q k a es M' L' \<longleftrightarrow> given M q k a M' \<and>
     (if q = 0 then errno L' \<in> es else errno L' = errno L)"

context env_contract
begin

lemma posix_memalign_error:
  "\<not> is_power_of_two align \<or> align < SIZEOF_pointer \<Longrightarrow> posix_memalign sp ops c L result align n = Some (EINVAL, result, L)"
  by (simp add: posix_memalign_def)

lemma posix_memalign_ok:
  assumes g: "libc_ok ops env_init c L M" and f: "fair sp" and a: "is_power_of_two align" "SIZEOF_pointer \<le> align"
  shows "\<exists>e q L' M'. posix_memalign sp ops c L result align n = Some (e, q, L') \<and> libc_ok ops env_init c L' M' \<and>
    errno L' = errno L \<and> (e = 0 \<or> e = ENOMEM) \<and>
    (if e = 0 then q \<noteq> 0 \<and> given M q (units_of_bytes n) (unat align) M' else q = result \<and> M' = M)"
proof (cases "from_bytes_usize n = None \<or> from_bytes_usize align = None")
  case True
  then have "posix_memalign sp ops c L result align n = Some (ENOMEM, result, L)"
    using a by (auto simp: posix_memalign_def split: option.split)
  then show ?thesis using g by auto
next
  case False
  then obtain n' a' where u: "from_bytes_usize n = Some n'" "from_bytes_usize align = Some a'" by auto
  have gl: "global_ok ops env_init c (global L) M" using g by (simp add: libc_ok_def)
  obtain r x' M' where r: "with_lock sp (\<lambda>s. alloc ops c s a' n') (global L) = Some (r, x')" "global_ok ops env_init c x' M'"
    "given M (pointer_or_null r) (units n') (32 * units a') M'" "r = None \<longleftrightarrow> pointer_or_null r = 0"
    using locked_alloc [OF gl f, where z = False] unfolding if_False by blast
  have gv: "given M (pointer_or_null r) (units_of_bytes n) (unat align) M'"
    using given_dvd [OF r(3) align_units(2) [OF a(1) u(2)]] from_bytes_units [OF u(1)] by simp
  show ?thesis
  proof (cases r)
    case None
    then have "posix_memalign sp ops c L result align n = Some (ENOMEM, result, L\<lparr>global := x'\<rparr>)"
      using a u r(1) by (simp add: posix_memalign_def)
    moreover have "M' = M" using gv None by (simp add: given_def pointer_or_null_def)
    ultimately show ?thesis using r(2) by (auto simp: libc_ok_def)
  next
    case (Some p)
    then have "posix_memalign sp ops c L result align n = Some (0, address p, L\<lparr>global := x'\<rparr>)"
      using a u r(1) by (simp add: posix_memalign_def)
    then show ?thesis using r(2,4) gv Some by (auto simp: libc_ok_def pointer_or_null_def)
  qed
qed

lemma aligned_alloc_error:
  "\<not> is_power_of_two align \<or> align < SIZEOF_pointer \<Longrightarrow> aligned_alloc sp ops c L align n = Some (0, set_errno EINVAL L)"
  by (simp add: aligned_alloc_def posix_memalign_error)

lemma aligned_alloc_ok:
  assumes g: "libc_ok ops env_init c L M" and f: "fair sp" and a: "is_power_of_two align" "SIZEOF_pointer \<le> align"
  shows "\<exists>q L' M'. aligned_alloc sp ops c L align n = Some (q, L') \<and> libc_ok ops env_init c L' M' \<and>
    allocated_or_errno M L q (units_of_bytes n) (unat align) {ENOMEM} M' L'"
proof -
  obtain e q L' M' where r: "posix_memalign sp ops c L 0 align n = Some (e, q, L')" "libc_ok ops env_init c L' M'"
    "errno L' = errno L" "e = 0 \<or> e = ENOMEM"
    "if e = 0 then q \<noteq> 0 \<and> given M q (units_of_bytes n) (unat align) M' else q = 0 \<and> M' = M"
    using posix_memalign_ok [OF g f a, of 0 n] by blast
  show ?thesis
  proof (cases "e = 0")
    case True
    then show ?thesis using r by (auto simp: aligned_alloc_def allocated_or_errno_def)
  next
    case False
    then have "e = ENOMEM" "q = 0" "M' = M" using r(4,5) by simp_all
    then show ?thesis using r(1,2)
      by (auto simp: aligned_alloc_def allocated_or_errno_def given_def libc_ok_def)
  qed
qed

lemma malloc_ok:
  assumes "libc_ok ops env_init c L M" "fair sp"
  shows "\<exists>q L' M'. malloc sp ops c L n = Some (q, L') \<and> libc_ok ops env_init c L' M' \<and>
    allocated_or_errno M L q (units_of_bytes n) 8 {ENOMEM} M' L'"
  using aligned_alloc_ok [OF assms, of SIZEOF_pointer n] unfolding malloc_def by simp

lemma calloc_ok:
  assumes g: "libc_ok ops env_init c L M" and f: "fair sp"
  shows "\<exists>q L' M'. calloc sp ops c L count n = Some (q, L') \<and> libc_ok ops env_init c L' M' \<and>
    allocated_or_errno M L q (units_of_bytes (count * n)) 16 {ENOMEM} M' L' \<and>
    (q \<noteq> 0 \<longrightarrow> unat count * unat n < 2 ^ 64 \<and> (\<exists>a k. unat (count * n) \<le> 32 * units k \<and>
      run_call ops c (mutex_value (global L)) (Alloc_zeroed a k) = Some (Allocated (Some (Pointer q)), mutex_value (global L'))))"
proof (cases "checked_mul_word count n = None \<or> from_bytes_usize (count * n) = None")
  case True
  then have "calloc sp ops c L count n = Some (0, set_errno ENOMEM L)"
    by (auto simp: calloc_def checked_mul_word_def split: option.split)
  then show ?thesis using g by (auto simp: allocated_or_errno_def given_def libc_ok_def)
next
  case False
  then obtain k where u: "checked_mul_word count n = Some (count * n)" "from_bytes_usize (count * n) = Some k"
    "unat count * unat n < 2 ^ 64" by (auto simp: checked_mul_word_def split: if_splits)
  have gl: "global_ok ops env_init c (global L) M" using g by (simp add: libc_ok_def)
  note b = from_bytes_units [OF u(2)]
  obtain r x' M' where r: "with_lock sp (\<lambda>s. alloc_zeroed ops c s (sz 1) k) (global L) = Some (r, x')"
    "run_call ops c (mutex_value (global L)) (Alloc_zeroed (sz 1) k) = Some (Allocated r, mutex_value x')"
    "global_ok ops env_init c x' M'" "given M (pointer_or_null r) (units k) (32 * units (sz 1)) M'"
    "r = None \<longleftrightarrow> pointer_or_null r = 0"
    using locked_alloc [OF gl f, where z = True] unfolding if_True by blast
  have gv: "given M (pointer_or_null r) (units_of_bytes (count * n)) 16 M'"
    using given_dvd [OF r(4), of 16] b by simp
  show ?thesis
  proof (cases r)
    case None
    then have "calloc sp ops c L count n = Some (0, set_errno ENOMEM (L\<lparr>global := x'\<rparr>))"
      using u r(1) by (simp add: calloc_def)
    then show ?thesis using r(3) gv None by (auto simp: allocated_or_errno_def libc_ok_def pointer_or_null_def)
  next
    case (Some p)
    then have q: "calloc sp ops c L count n = Some (address p, L\<lparr>global := x'\<rparr>)" "address p \<noteq> 0"
      using u r(1,5) by (simp_all add: calloc_def pointer_or_null_def)
    have "run_call ops c (mutex_value (global L)) (Alloc_zeroed (sz 1) k) = Some (Allocated (Some (Pointer (address p))), mutex_value x')"
      using r(2) Some by simp
    then show ?thesis using r(3) gv Some q u(3) b
      by (intro exI [of _ "address p"] exI [of _ "L\<lparr>global := x'\<rparr>"] exI [of _ M'] conjI)
        (auto simp: allocated_or_errno_def libc_ok_def pointer_or_null_def)
  qed
qed

lemma free_null: "c_free sp ops c L 0 = Some L"
  by (simp add: c_free_def)

lemma free_ok_libc:
  assumes g: "libc_ok ops env_init c L M" and f: "fair sp" and p: "M (Pointer p) \<noteq> None"
  shows "\<exists>L'. c_free sp ops c L p = Some L' \<and> libc_ok ops env_init c L' (M(Pointer p := None)) \<and> errno L' = errno L"
proof -
  have gl: "global_ok ops env_init c (global L) M" using g by (simp add: libc_ok_def)
  have "p \<noteq> 0" using live_pointer [OF gl, of "Pointer p"] p by auto
  then show ?thesis using locked_free [OF gl f p] by (auto simp: c_free_def libc_ok_def)
qed

lemma realloc_null: "c_realloc sp ops c L 0 n = malloc sp ops c L n"
  by (simp add: c_realloc_def)

lemma realloc_zero:
  assumes "libc_ok ops env_init c L M" "fair sp" "M (Pointer p) \<noteq> None"
  shows "\<exists>L'. c_realloc sp ops c L p 0 = Some (0, L') \<and> libc_ok ops env_init c L' (M(Pointer p := None)) \<and> errno L' = errno L"
proof -
  have "p \<noteq> 0" using live_pointer [of c "global L" M "Pointer p"] assms(1,3) by (auto simp: libc_ok_def)
  then show ?thesis using free_ok_libc [OF assms] by (auto simp: c_realloc_def)
qed

lemma realloc_ok_libc:
  assumes g: "libc_ok ops env_init c L M" and f: "fair sp" and p: "M (Pointer p) = Some k"
    and n: "n \<noteq> 0" "realloc_inplace c \<or> k \<le> units_of_bytes n"
  shows "\<exists>q L' M'. c_realloc sp ops c L p n = Some (q, L') \<and> libc_ok ops env_init c L' M' \<and>
    regiven M (global_mem (global L)) (Pointer p) q (units_of_bytes n) 32 M' (global_mem (global L')) \<and>
    errno L' = (if q = 0 then ENOMEM else errno L)"
proof -
  have gl: "global_ok ops env_init c (global L) M" using g by (simp add: libc_ok_def)
  have nz: "p \<noteq> 0" using live_pointer [OF gl p] by simp
  show ?thesis
  proof (cases "from_bytes_usize n")
    case None
    then have "c_realloc sp ops c L p n = Some (0, set_errno ENOMEM L)" using nz n(1) by (simp add: c_realloc_def)
    then show ?thesis using g by (auto simp: regiven_def contents_kept_def libc_ok_def)
  next
    case (Some s)
    note u = from_bytes_units [OF Some]
    have l: "legal c M (Realloc (Pointer p) (sz 1) s)" using p n(2) u raw_units_1(1) by (auto simp del: raw_units_sz)
    have e: "\<not> Size_is_empty s" using from_bytes_empty [OF Some] n(1) by simp
    obtain r x' M' where r: "with_lock sp (\<lambda>m. realloc ops c m (Pointer p) (sz 1) s) (global L) = Some (r, x')"
      "global_ok ops env_init c x' M'"
      "regiven M (global_mem (global L)) (Pointer p) (pointer_or_null r) (units s) (32 * units (sz 1)) M' (global_mem x')"
      "r = None \<longleftrightarrow> pointer_or_null r = 0"
      using locked_realloc [OF gl f l e] by blast
    show ?thesis
    proof (cases r)
      case None
      then have "c_realloc sp ops c L p n = Some (0, set_errno ENOMEM (L\<lparr>global := x'\<rparr>))"
        using r(1) nz n(1) Some by (simp add: c_realloc_def)
      then show ?thesis using r(2,3) u None
        by (intro exI [of _ 0] exI [of _ "set_errno ENOMEM (L\<lparr>global := x'\<rparr>)"] exI [of _ M'])
          (simp add: libc_ok_def pointer_or_null_def)
    next
      case p': (Some p')
      then have "c_realloc sp ops c L p n = Some (address p', L\<lparr>global := x'\<rparr>)" "address p' \<noteq> 0"
        using r(1,4) nz n(1) Some by (simp_all add: c_realloc_def pointer_or_null_def)
      then show ?thesis using r(2,3) u p'
        by (intro exI [of _ "address p'"] exI [of _ "L\<lparr>global := x'\<rparr>"] exI [of _ M'])
          (simp add: libc_ok_def pointer_or_null_def)
    qed
  qed
qed

lemma usable_size_libc:
  assumes g: "libc_ok ops env_init c L M" and p: "M (Pointer p) = Some k"
  shows "malloc_usable_size c L p = Some (of_nat (32 * k))"
proof -
  have gl: "global_ok ops env_init c (global L) M" using g by (simp add: libc_ok_def)
  have "p \<noteq> 0" using live_pointer [OF gl p] by simp
  then show ?thesis
    using live_sound(2) [OF history_ok [OF global_okD [OF gl]] p] by (simp add: malloc_usable_size_def)
qed

end

end
