(* ===== verification/Corevm_Env.thy ===== *)
theory Corevm_Env
  imports Envs
begin

text \<open>
  The environment of \<^verbatim>\<open>src/env/corevm.rs\<close>: the host's \<^verbatim>\<open>alloc\<close> and \<^verbatim>\<open>free\<close> are parameters, with the
  host's state; what the two safety comments of the source say of them is part of \<open>corevm_init\<close> and
  \<open>corevm_ok\<close>, for which the contract of environments is shown.
\<close>

section \<open>The program\<close>

record 'k corevm_host =
  host_alloc :: "u64 \<Rightarrow> 'k \<Rightarrow> memory \<Rightarrow> u64 \<times> 'k \<times> memory"
  host_free :: "u64 \<Rightarrow> u64 \<Rightarrow> 'k \<Rightarrow> memory \<Rightarrow> 'k \<times> memory"

definition Corevm_total_space :: "usize \<Rightarrow> 'k \<Rightarrow> Size" where
  "Corevm_total_space SIZE k = const_size SIZE"

definition Corevm_allocate_address_space ::
    "'k corevm_host \<Rightarrow> usize \<Rightarrow> 'k \<Rightarrow> memory \<Rightarrow> (u64 \<times> 'k \<times> memory) option" where
  "Corevm_allocate_address_space H SIZE k m = Some (host_alloc H (ucast (bytes (Corevm_total_space SIZE k))) k m)"

definition Corevm_expand_memory_until :: "'k \<Rightarrow> memory \<Rightarrow> u64 \<Rightarrow> Size \<Rightarrow> (bool \<times> 'k \<times> memory) option" where
  "Corevm_expand_memory_until k m base n = Some (True, k, m)"

definition Corevm_free_address_space :: "'k corevm_host \<Rightarrow> usize \<Rightarrow> 'k \<Rightarrow> memory \<Rightarrow> u64 \<Rightarrow> ('k \<times> memory) option" where
  "Corevm_free_address_space H SIZE k m base = Some (host_free H base (ucast (bytes (Corevm_total_space SIZE k))) k m)"

definition Corevm_env :: "'k corevm_host \<Rightarrow> usize \<Rightarrow> 'k env_ops" where
  "Corevm_env H SIZE =
     \<lparr>total_space = Corevm_total_space SIZE,
      allocate_address_space = Corevm_allocate_address_space H SIZE,
      expand_memory_until = Corevm_expand_memory_until,
      free_address_space = Corevm_free_address_space H SIZE\<rparr>"

lemmas Corevm_defs = Corevm_env_def Corevm_total_space_def Corevm_allocate_address_space_def
  Corevm_expand_memory_until_def Corevm_free_address_space_def

section \<open>The host\<close>

text \<open>
  "\<^verbatim>\<open>alloc\<close> always returns a valid pointer or zero on error": memory of the asked size that was not in
  use, aligned for the allocator.
\<close>

definition alloc_law :: "'k corevm_host \<Rightarrow> u64 \<Rightarrow> bool" where
  "alloc_law H len \<longleftrightarrow> (\<forall>k m r k' m'. host_alloc H len k m = (r, k', m') \<longrightarrow>
     (if r = 0 then m \<subseteq>\<^sub>m m'
      else 32 dvd unat r \<and> unat r + unat len < 2 ^ 64 \<and>
        (\<forall>i < unat len. m (r + of_nat i) = None \<and> m' (r + of_nat i) \<noteq> None) \<and>
        (\<forall>x. unat len \<le> unat (x - r) \<longrightarrow> m' x = m x)))"

text \<open>"\<^verbatim>\<open>free\<close> always succeeds", and takes memory away only.\<close>

definition free_law :: "'k corevm_host \<Rightarrow> u64 \<Rightarrow> bool" where
  "free_law H len \<longleftrightarrow> (\<forall>k m b k' m'. host_free H b len k m = (k', m') \<longrightarrow> m' \<subseteq>\<^sub>m m)"

definition corevm_laws :: "'k corevm_host \<Rightarrow> usize \<Rightarrow> bool" where
  "corevm_laws H SIZE \<longleftrightarrow> 0 < space SIZE \<and> space SIZE < 2 ^ 27 \<and>
     alloc_law H (of_nat (32 * space SIZE)) \<and> free_law H (of_nat (32 * space SIZE))"

definition corevm_init :: "'k corevm_host \<Rightarrow> usize \<Rightarrow> 'k \<Rightarrow> memory \<Rightarrow> bool" where
  "corevm_init H SIZE k m \<longleftrightarrow> corevm_laws H SIZE"

definition corevm_ok :: "'k corevm_host \<Rightarrow> usize \<Rightarrow> 'k \<Rightarrow> memory \<Rightarrow> u64 \<Rightarrow> bool" where
  "corevm_ok H SIZE k m b \<longleftrightarrow> corevm_laws H SIZE \<and> region_ok b (space SIZE) \<and> mapped_until m b (space SIZE)"

lemma corevm_len: "space SIZE < 2 ^ 27 \<Longrightarrow> ucast (bytes (const_size SIZE)) = (of_nat (32 * space SIZE) :: u64)"
  unfolding const_size_sz by (rule ucast_bytes)

lemma corevm_allocate:
  assumes l: "corevm_laws H SIZE" and a: "Corevm_allocate_address_space H SIZE k m = Some (b, k', m')"
  shows "m \<subseteq>\<^sub>m m'" "b \<noteq> 0 \<Longrightarrow> corevm_ok H SIZE k' m' b"
proof -
  let ?len = "of_nat (32 * space SIZE) :: u64"
  have T: "0 < space SIZE" "space SIZE < 2 ^ 27" "alloc_law H ?len" using l by (simp_all add: corevm_laws_def)
  have len: "unat ?len = 32 * space SIZE" using T(2) by (intro unat_of_nat_small) simp
  have r: "host_alloc H ?len k m = (b, k', m')" using a corevm_len [OF T(2)] by (simp add: Corevm_defs)
  note law = T(3) [unfolded alloc_law_def, THEN spec, THEN spec, THEN spec, THEN spec, THEN spec, THEN mp, OF r]
  have fresh: "32 dvd unat b \<and> unat b + 32 * space SIZE < 2 ^ 64 \<and>
      (\<forall>i < 32 * space SIZE. m (b + of_nat i) = None \<and> m' (b + of_nat i) \<noteq> None) \<and>
      (\<forall>x. 32 * space SIZE \<le> unat (x - b) \<longrightarrow> m' x = m x)" if "b \<noteq> 0"
    using law unfolding len if_not_P [OF that] .
  show "m \<subseteq>\<^sub>m m'"
  proof (cases "b = 0")
    case True
    then show ?thesis using law by (simp only: if_True)
  next
    case False
    then show ?thesis using fresh map_le_fresh_region [of "32 * space SIZE" m b m'] by blast
  qed
  show "corevm_ok H SIZE k' m' b" if "b \<noteq> 0"
    using fresh [OF that] that l T unfolding corevm_ok_def region_ok_def mapped_until_def byte_at_def by auto
qed

interpretation corevm: env_contract "Corevm_env H SIZE" "corevm_init H SIZE" "corevm_ok H SIZE" "space SIZE"
  for H :: "'k corevm_host" and SIZE
proof (unfold_locales, goal_cases)
  case (1 e)
  then show ?case by (simp add: Corevm_env_def Corevm_total_space_def const_size_sz)
next
  case (2 e m b)
  then show ?case by (simp add: corevm_ok_def)
next
  case (3 e m b m')
  then show ?case using mapped_until_dom unfolding corevm_ok_def by blast
next
  case (4 e m)
  then have l: "corevm_laws H SIZE" by (simp add: corevm_init_def)
  obtain b e' m' where a: "Corevm_allocate_address_space H SIZE e m = Some (b, e', m')"
    unfolding Corevm_allocate_address_space_def by (metis prod_cases3)
  show ?case using corevm_allocate [OF l a] a l by (simp add: Corevm_env_def corevm_init_def)
next
  case (5 e m b n)
  then show ?case using mapped_until_mono by (fastforce simp: corevm_ok_def Corevm_env_def Corevm_expand_memory_until_def)
next
  case (6 e m b)
  then have T: "space SIZE < 2 ^ 27" "free_law H (of_nat (32 * space SIZE))" by (simp_all add: corevm_ok_def corevm_laws_def)
  obtain e' m' where f: "host_free H b (of_nat (32 * space SIZE)) e m = (e', m')" by fastforce
  then have "m' \<subseteq>\<^sub>m m" using T(2) unfolding free_law_def by blast
  then show ?case using f corevm_len [OF T(1)] by (simp add: Corevm_env_def Corevm_free_address_space_def Corevm_total_space_def)
next
  case (7 e m b e1 m1 e2 m2 e3 m3)
  then show ?case by (simp add: Corevm_env_def Corevm_expand_memory_until_def)
qed

end
