(* ===== verification/Polkavm_Env.thy ===== *)
theory Polkavm_Env
  imports Envs
begin

text \<open>
  The environment of \<^verbatim>\<open>src/env/polkavm.rs\<close>: the heap starts at the heap base of the virtual machine
  and is expanded by its instruction \<^verbatim>\<open>sbrk\<close>. Both instructions are parameters; that \<^verbatim>\<open>sbrk\<close> moves the
  top of the heap, and that the memory below it is mapped, is part of \<open>polkavm_init\<close> and \<open>polkavm_ok\<close>.
\<close>

section \<open>The program\<close>

record 'k polkavm =
  vm_heap_base :: "'k \<Rightarrow> usize"
  sbrk :: "usize \<Rightarrow> 'k \<Rightarrow> memory \<Rightarrow> usize \<times> 'k \<times> memory"

definition Polkavm_total_space :: "usize \<Rightarrow> 'k \<Rightarrow> Size" where
  "Polkavm_total_space SIZE k = const_size SIZE"

definition Polkavm_allocate_address_space ::
    "'k polkavm \<Rightarrow> build \<Rightarrow> 'k \<Rightarrow> memory \<Rightarrow> (u64 \<times> 'k \<times> memory) option" where
  "Polkavm_allocate_address_space H c k m = do {
     aligned_pointer \<leftarrow> next_multiple_of c (vm_heap_base H k) 32;
     let (sbrk_pointer, k, m) = sbrk H 0 k m;
     if sbrk_pointer < aligned_pointer
     then do {
       n \<leftarrow> sub_chk c aligned_pointer sbrk_pointer;
       let (r, k, m) = sbrk H n k m;
       Some (if r = 0 then 0 else aligned_pointer, k, m)
     }
     else Some (aligned_pointer, k, m)
   }"

definition Polkavm_expand_memory_until ::
    "'k polkavm \<Rightarrow> build \<Rightarrow> 'k \<Rightarrow> memory \<Rightarrow> u64 \<Rightarrow> Size \<Rightarrow> (bool \<times> 'k \<times> memory) option" where
  "Polkavm_expand_memory_until H c k m base n = do {
     let (top, k, m) = sbrk H 0 k m;
     have \<leftarrow> sub_chk c top base;
     if have \<ge> ucast (bytes n) then Some (True, k, m)
     else do {
       missing \<leftarrow> sub_chk c (ucast (bytes n)) have;
       let (r, k, m) = sbrk H missing k m;
       Some (r \<noteq> 0, k, m)
     }
   }"

definition Polkavm_free_address_space :: "'k \<Rightarrow> memory \<Rightarrow> u64 \<Rightarrow> ('k \<times> memory) option" where
  "Polkavm_free_address_space k m base = Some (k, m)"

definition Polkavm_env :: "'k polkavm \<Rightarrow> build \<Rightarrow> usize \<Rightarrow> 'k env_ops" where
  "Polkavm_env H c SIZE =
     \<lparr>total_space = Polkavm_total_space SIZE,
      allocate_address_space = Polkavm_allocate_address_space H c,
      expand_memory_until = Polkavm_expand_memory_until H c,
      free_address_space = Polkavm_free_address_space\<rparr>"

section \<open>The virtual machine\<close>

text \<open>
  \<^verbatim>\<open>sbrk\<close> of nothing tells the top of the heap. Otherwise it fails with null and changes nothing, or moves
  the top up and maps the memory in between, filled with zeros. The heap base never moves.
\<close>

definition heap_top :: "'k polkavm \<Rightarrow> 'k \<Rightarrow> usize" where
  "heap_top H k = fst (sbrk H 0 k Map.empty)"

definition sbrk_law :: "'k polkavm \<Rightarrow> bool" where
  "sbrk_law H \<longleftrightarrow> (\<forall>k m. sbrk H 0 k m = (heap_top H k, k, m)) \<and>
     (\<forall>n k m r k' m'. n \<noteq> 0 \<longrightarrow> sbrk H n k m = (r, k', m') \<longrightarrow>
       (if r = 0 then k' = k \<and> m' = m
        else vm_heap_base H k' = vm_heap_base H k \<and> heap_top H k' = heap_top H k + n \<and> unat (heap_top H k) + unat n < 2 ^ 64 \<and>
          (\<forall>i < unat n. m (heap_top H k + of_nat i) = None \<and> m' (heap_top H k + of_nat i) = Some 0) \<and>
          (\<forall>x. unat n \<le> unat (x - heap_top H k) \<longrightarrow> m' x = m x)))"

definition heap_mapped :: "'k polkavm \<Rightarrow> 'k \<Rightarrow> memory \<Rightarrow> u64 \<Rightarrow> bool" where
  "heap_mapped H k m b \<longleftrightarrow> b \<le> heap_top H k \<and> (\<forall>i < unat (heap_top H k - b). m (b + of_nat i) \<noteq> None)"

definition polkavm_init :: "'k polkavm \<Rightarrow> usize \<Rightarrow> 'k \<Rightarrow> memory \<Rightarrow> bool" where
  "polkavm_init H SIZE k m \<longleftrightarrow> sbrk_law H \<and> 0 < space SIZE \<and> space SIZE < 2 ^ 27 \<and> vm_heap_base H k \<noteq> 0 \<and>
     unat (vm_heap_base H k) + 32 + 32 * space SIZE < 2 ^ 64 \<and> heap_mapped H k m (vm_heap_base H k)"

definition polkavm_ok :: "'k polkavm \<Rightarrow> usize \<Rightarrow> 'k \<Rightarrow> memory \<Rightarrow> u64 \<Rightarrow> bool" where
  "polkavm_ok H SIZE k m b \<longleftrightarrow> sbrk_law H \<and> region_ok b (space SIZE) \<and> heap_mapped H k m b"

lemma aligned_heap_base:
  assumes "unat x + 32 < 2 ^ 64"
  obtains y where "next_multiple_of c (x :: u64) 32 = Some y" "unat x \<le> unat y" "unat y < unat x + 32" "unat y mod 32 = 0"
  using assms by (rule_tac next_multiple_of_ok [of x 32 c]) simp_all

text \<open>What \<^verbatim>\<open>sbrk\<close> does to a heap.\<close>

lemma sbrk_grow:
  assumes l: "sbrk_law H" and h: "heap_mapped H k m b" and n: "n \<noteq> 0" and r: "sbrk H n k m = (r, k', m')"
  shows "m \<subseteq>\<^sub>m m'" "heap_mapped H k' m' b" "vm_heap_base H k' = vm_heap_base H k" "r = 0 \<Longrightarrow> k' = k \<and> m' = m"
    "r \<noteq> 0 \<Longrightarrow> heap_top H k' = heap_top H k + n \<and> unat (heap_top H k) + unat n < 2 ^ 64"
    "m x = None \<Longrightarrow> m' x = None \<or> m' x = Some 0"
proof -
  let ?t = "heap_top H k"
  note law = l [unfolded sbrk_law_def, THEN conjunct2, THEN spec, THEN spec, THEN spec, THEN spec, THEN spec, THEN spec, THEN mp, THEN mp, OF n r]
  have fail: "k' = k \<and> m' = m" if "r = 0" using law that by (simp only: if_True)
  have grown: "vm_heap_base H k' = vm_heap_base H k \<and> heap_top H k' = ?t + n \<and> unat ?t + unat n < 2 ^ 64 \<and>
      (\<forall>i < unat n. m (?t + of_nat i) = None \<and> m' (?t + of_nat i) = Some 0) \<and> (\<forall>x. unat n \<le> unat (x - ?t) \<longrightarrow> m' x = m x)"
    if "r \<noteq> 0" using law unfolding if_not_P [OF that] .
  show "r = 0 \<Longrightarrow> k' = k \<and> m' = m" by (rule fail)
  show "r \<noteq> 0 \<Longrightarrow> heap_top H k' = ?t + n \<and> unat ?t + unat n < 2 ^ 64" using grown by blast
  show "vm_heap_base H k' = vm_heap_base H k" using fail grown by blast
  show le: "m \<subseteq>\<^sub>m m'"
  proof (cases "r = 0")
    case True
    then show ?thesis using fail by simp
  next
    case False
    then show ?thesis using grown map_le_fresh_region [of "unat n" m ?t m'] by blast
  qed
  show "m x = None \<Longrightarrow> m' x = None \<or> m' x = Some 0"
  proof -
    assume x: "m x = None"
    show "m' x = None \<or> m' x = Some 0"
    proof (cases "r = 0")
      case True
      then show ?thesis using fail x by simp
    next
      case False
      show ?thesis
      proof (cases "unat (x - ?t) < unat n")
        case True
        then have "m' (?t + of_nat (unat (x - ?t))) = Some 0" using grown [OF False] by blast
        moreover have "?t + of_nat (unat (x - ?t)) = x" by (metis add.commute diff_add_cancel of_nat_unat ucast_id)
        ultimately show ?thesis by metis
      next
        case F: False
        then have "m' x = m x" using grown [OF False] by (simp only: not_less)
        then show ?thesis using x by simp
      qed
    qed
  qed
  show "heap_mapped H k' m' b"
  proof (cases "r = 0")
    case True
    then show ?thesis using fail h by simp
  next
    case False
    have b: "b \<le> ?t" and mp: "\<And>i. i < unat (?t - b) \<Longrightarrow> m (b + of_nat i) \<noteq> None" using h by (simp_all add: heap_mapped_def)
    have t': "heap_top H k' = ?t + n" "unat (heap_top H k') = unat ?t + unat n"
      using grown [OF False] by (simp_all add: unat_add_small)
    have b': "b \<le> heap_top H k'" using b t'(2) by (simp add: word_le_nat_alt)
    have d: "unat (?t - b) = unat ?t - unat b" "unat (heap_top H k' - b) = unat ?t + unat n - unat b"
      using b b' t'(2) by (simp_all add: unat_sub)
    have "m' (b + of_nat i) \<noteq> None" if i: "i < unat (heap_top H k' - b)" for i
    proof (cases "i < unat (?t - b)")
      case True
      then show ?thesis using mp le unfolding map_le_def by (metis domIff)
    next
      case F: False
      let ?j = "i - unat (?t - b)"
      have "?j < unat n" using i F d b by (simp add: word_le_nat_alt)
      then have "m' (?t + of_nat ?j) \<noteq> None" using grown [OF False] by simp
      moreover have "?t + of_nat ?j = b + of_nat i"
      proof -
        have "of_nat i = (of_nat (unat (?t - b)) + of_nat ?j :: u64)" using F by (simp only: of_nat_add [symmetric]) simp
        also have "of_nat (unat (?t - b)) = ?t - b" by (metis of_nat_unat ucast_id)
        finally show ?thesis by simp
      qed
      ultimately show ?thesis by simp
    qed
    then show ?thesis using b' by (simp add: heap_mapped_def)
  qed
qed

section \<open>The contract\<close>

lemma heap_mapped_from:
  assumes h: "heap_mapped H k m b" and y: "b \<le> y" "y \<le> heap_top H k"
  shows "heap_mapped H k m y"
proof -
  have d: "unat (heap_top H k - b) = unat (heap_top H k) - unat b" "unat (heap_top H k - y) = unat (heap_top H k) - unat y"
    "unat (y - b) = unat y - unat b"
    using y h by (simp_all add: heap_mapped_def unat_sub)
  have "m (y + of_nat i) \<noteq> None" if i: "i < unat (heap_top H k - y)" for i
  proof -
    have "unat (y - b) + i < unat (heap_top H k - b)" using i d y by (simp add: word_le_nat_alt)
    then have "m (b + of_nat (unat (y - b) + i)) \<noteq> None" using h unfolding heap_mapped_def by blast
    moreover have "b + of_nat (unat (y - b) + i) = y + of_nat i"
    proof -
      have "of_nat (unat (y - b)) = y - b" by (metis of_nat_unat ucast_id)
      then show ?thesis by simp
    qed
    ultimately show ?thesis by simp
  qed
  then show ?thesis using y by (simp add: heap_mapped_def)
qed

lemma heap_mapped_until:
  "heap_mapped H k m b \<Longrightarrow> 32 * n \<le> unat (heap_top H k - b) \<Longrightarrow> mapped_until m b n"
  by (simp add: heap_mapped_def mapped_until_def byte_at_def)

lemma polkavm_allocate:
  assumes i: "polkavm_init H SIZE k m"
  shows "\<exists>b k' m'. Polkavm_allocate_address_space H c k m = Some (b, k', m') \<and> m \<subseteq>\<^sub>m m' \<and> polkavm_init H SIZE k' m' \<and>
    (b \<noteq> 0 \<longrightarrow> polkavm_ok H SIZE k' m' b) \<and> (\<forall>x. m x = None \<longrightarrow> m' x = None \<or> m' x = Some 0)"
proof -
  let ?h = "vm_heap_base H k"
  have l: "sbrk_law H" and T: "0 < space SIZE" "space SIZE < 2 ^ 27" "?h \<noteq> 0" "unat ?h + 32 + 32 * space SIZE < 2 ^ 64"
    and hm: "heap_mapped H k m ?h" using i by (simp_all add: polkavm_init_def)
  have s0: "sbrk H 0 k m = (heap_top H k, k, m)" using l by (simp add: sbrk_law_def)
  have "unat ?h + 32 < 2 ^ 64" using T(4) by simp
  then obtain y where y: "next_multiple_of c ?h 32 = Some y" "unat ?h \<le> unat y" "unat y < unat ?h + 32" "unat y mod 32 = 0"
    using aligned_heap_base [of ?h c] by metis
  have "y \<noteq> 0" using y(2) T(3) by (metis le_zero_eq unat_eq_0 unsigned_0)
  then have reg: "region_ok y (space SIZE)" using y(3,4) T by (simp add: region_ok_def)
  have hy: "?h \<le> y" using y(2) by (simp add: word_le_nat_alt)
  show ?thesis
  proof (cases "heap_top H k < y")
    case False
    then have "heap_mapped H k m y" using heap_mapped_from [OF hm hy] by simp
    then have "polkavm_ok H SIZE k m y" using l reg by (simp add: polkavm_ok_def)
    moreover have "Polkavm_allocate_address_space H c k m = Some (y, k, m)"
      using y(1) s0 False by (simp add: Polkavm_allocate_address_space_def)
    ultimately show ?thesis using i by auto
  next
    case True
    let ?n = "y - heap_top H k"
    have n: "?n \<noteq> 0" using True by auto
    obtain r k' m' where r: "sbrk H ?n k m = (r, k', m')" by (metis prod_cases3)
    note g = sbrk_grow [OF l hm n r]
    have run: "Polkavm_allocate_address_space H c k m = Some (if r = 0 then 0 else y, k', m')"
      using y(1) s0 True r by (simp add: Polkavm_allocate_address_space_def sub_chk_ok)
    have ini: "polkavm_init H SIZE k' m'" using i g(2,3) by (simp add: polkavm_init_def)
    have "polkavm_ok H SIZE k' m' y" if "r \<noteq> 0"
      using heap_mapped_from [OF g(2) hy] g(5) [OF that] l reg by (simp add: polkavm_ok_def)
    then show ?thesis using run g(1,6) ini by auto
  qed
qed

lemma polkavm_expand:
  assumes h: "polkavm_ok H SIZE k m b" and n: "n \<le> space SIZE"
  shows "\<exists>r k' m'. Polkavm_expand_memory_until H c k m b (sz n) = Some (r, k', m') \<and> m \<subseteq>\<^sub>m m' \<and> polkavm_ok H SIZE k' m' b \<and>
    (r \<longrightarrow> mapped_until m' b n) \<and> (\<not> r \<longrightarrow> k' = k \<and> m' = m) \<and> (\<forall>x. m x = None \<longrightarrow> m' x = None \<or> m' x = Some 0)"
proof -
  let ?t = "heap_top H k"
  have l: "sbrk_law H" and reg: "region_ok b (space SIZE)" and hm: "heap_mapped H k m b" using h by (simp_all add: polkavm_ok_def)
  have T: "space SIZE < 2 ^ 27" using reg by (simp add: region_ok_def)
  have bt: "b \<le> ?t" using hm by (simp add: heap_mapped_def)
  have s0: "sbrk H 0 k m = (?t, k, m)" using l by (simp add: sbrk_law_def)
  have w: "ucast (bytes (sz n)) = (of_nat (32 * n) :: u64)" using n T by (intro ucast_bytes) simp
  have u: "unat (of_nat (32 * n) :: u64) = 32 * n" using n T by (intro unat_of_nat_small) simp
  show ?thesis
  proof (cases "of_nat (32 * n) \<le> ?t - b")
    case True
    then have "mapped_until m b n" using heap_mapped_until [OF hm] unfolding word_le_nat_alt u by blast
    then show ?thesis using True s0 bt h
      by (intro exI [of _ True] exI [of _ k] exI [of _ m])
        (simp add: Polkavm_expand_memory_until_def sub_chk_ok w del: of_nat_mult)
  next
    case False
    let ?n = "of_nat (32 * n) - (?t - b)"
    have lt: "?t - b < of_nat (32 * n)" using False by simp
    then have n0: "?n \<noteq> 0" by auto
    obtain r k' m' where r: "sbrk H ?n k m = (r, k', m')" by (metis prod_cases3)
    note g = sbrk_grow [OF l hm n0 r]
    have run: "Polkavm_expand_memory_until H c k m b (sz n) = Some (r \<noteq> 0, k', m')"
      using False s0 bt r lt by (simp add: Polkavm_expand_memory_until_def sub_chk_ok w del: of_nat_mult)
    have "mapped_until m' b n" if "r \<noteq> 0"
    proof (rule heap_mapped_until [OF g(2)])
      have "heap_top H k' - b = of_nat (32 * n)" using g(5) [OF that] by (simp del: of_nat_mult)
      then show "32 * n \<le> unat (heap_top H k' - b)" by (simp only: u order_refl)
    qed
    moreover have "polkavm_ok H SIZE k' m' b" using l reg g(2) by (simp add: polkavm_ok_def)
    ultimately show ?thesis using run g(1,4,6) by auto
  qed
qed

lemma heap_mapped_dom: "dom m' = dom m \<Longrightarrow> heap_mapped H k m' b = heap_mapped H k m b"
  unfolding heap_mapped_def domIff [symmetric] by simp

lemma polkavm_undo:
  assumes i: "polkavm_init H SIZE k m" and a: "Polkavm_allocate_address_space H c k m = Some (b, k1, m1)" "b \<noteq> 0"
    and x: "Polkavm_expand_memory_until H c k1 m1 b (sz 1) = Some (False, k2, m2)"
  shows "k2 = k1" "m2 = m1"
proof -
  have o: "polkavm_init H SIZE k1 m1" "polkavm_ok H SIZE k1 m1 b"
    using polkavm_allocate [OF i, of c] a(2) unfolding a(1) by simp_all
  then have "(1 :: nat) \<le> space SIZE" by (simp add: polkavm_init_def)
  from polkavm_expand [OF o(2) this, of c] show "k2 = k1" "m2 = m1" unfolding x by auto
qed

interpretation polkavm: env_contract "Polkavm_env H c SIZE" "polkavm_init H SIZE" "polkavm_ok H SIZE" "space SIZE"
  for H :: "'k polkavm" and c SIZE
proof (unfold_locales, goal_cases)
  case (1 e)
  then show ?case by (simp add: Polkavm_env_def Polkavm_total_space_def const_size_sz)
next
  case (2 e m b)
  then show ?case by (simp add: polkavm_ok_def)
next
  case (3 e m b m')
  then show ?case unfolding polkavm_ok_def using heap_mapped_dom [OF 3(2), of H e b] by metis
next
  case (4 e m)
  obtain b k' m' where "Polkavm_allocate_address_space H c e m = Some (b, k', m')" "m \<subseteq>\<^sub>m m'"
    "polkavm_init H SIZE k' m'" "b \<noteq> 0 \<longrightarrow> polkavm_ok H SIZE k' m' b"
    using polkavm_allocate [OF 4, of c] by blast
  then show ?case by (simp add: Polkavm_env_def)
next
  case (5 e m b n)
  obtain r k' m' where "Polkavm_expand_memory_until H c e m b (sz n) = Some (r, k', m')" "m \<subseteq>\<^sub>m m'"
    "polkavm_ok H SIZE k' m' b" "r \<longrightarrow> mapped_until m' b n"
    using polkavm_expand [OF 5, of c] by blast
  then show ?case by (simp add: Polkavm_env_def)
next
  case (6 e m b)
  then show ?case by (simp add: Polkavm_env_def Polkavm_free_address_space_def)
next
  case (7 e m b e1 m1 e2 m2 e3 m3)
  have al: "Polkavm_allocate_address_space H c e m = Some (b, e1, m1)" using 7(2) by (simp add: Polkavm_env_def)
  have ex: "Polkavm_expand_memory_until H c e1 m1 b (sz 1) = Some (False, e2, m2)" using 7(4) by (simp add: Polkavm_env_def)
  note u = polkavm_undo [OF 7(1) al 7(3) ex]
  have "polkavm_init H SIZE e1 m1" using polkavm_allocate [OF 7(1), of c] unfolding al by simp
  then show ?case using 7(5) u by (simp add: Polkavm_env_def Polkavm_free_address_space_def)
qed

lemma polkavm_heap_base:
  assumes i: "polkavm_init H SIZE k m" and a: "Polkavm_allocate_address_space H c k m = Some (b, k', m')"
  shows "vm_heap_base H k' = vm_heap_base H k \<and> (b \<noteq> 0 \<longrightarrow> vm_heap_base H k \<le> b)"
proof -
  let ?h = "vm_heap_base H k"
  have l: "sbrk_law H" and hm: "heap_mapped H k m ?h" and T: "unat ?h + 32 + 32 * space SIZE < 2 ^ 64"
    using i by (simp_all add: polkavm_init_def)
  have s0: "sbrk H 0 k m = (heap_top H k, k, m)" using l by (simp add: sbrk_law_def)
  have "unat ?h + 32 < 2 ^ 64" using T by simp
  then obtain y where y: "next_multiple_of c ?h 32 = Some y" "unat ?h \<le> unat y"
    using aligned_heap_base [of ?h c] by metis
  show ?thesis
  proof (cases "heap_top H k < y")
    case False
    then show ?thesis using a y s0 by (simp add: Polkavm_allocate_address_space_def word_le_nat_alt)
  next
    case True
    then have n: "y - heap_top H k \<noteq> 0" by auto
    obtain r k1 m1 where r: "sbrk H (y - heap_top H k) k m = (r, k1, m1)" by (metis prod_cases3)
    have "b = (if r = 0 then 0 else y)" "k' = k1"
      using a y s0 True r by (simp_all add: Polkavm_allocate_address_space_def sub_chk_ok)
    then show ?thesis using y(2) sbrk_grow(3) [OF l hm n r] by (simp add: word_le_nat_alt)
  qed
qed

text \<open>With a heap that has not been written to, the contract of zeroed memory holds as well.\<close>

definition polkavm_zero_init :: "'k polkavm \<Rightarrow> usize \<Rightarrow> 'k \<Rightarrow> memory \<Rightarrow> bool" where
  "polkavm_zero_init H SIZE k m \<longleftrightarrow> polkavm_init H SIZE k m \<and> (\<forall>x. vm_heap_base H k \<le> x \<longrightarrow> m x = None \<or> m x = Some 0)"

lemma polkavm_zero_allocate:
  assumes i: "polkavm_zero_init H SIZE k m" and a: "Polkavm_allocate_address_space H c k m = Some (b, k', m')"
  shows "polkavm_zero_init H SIZE k' m'" "b \<noteq> 0 \<Longrightarrow> zero_from m' b 0 (space SIZE)"
proof -
  have p: "polkavm_init H SIZE k m" and z: "\<And>x. vm_heap_base H k \<le> x \<Longrightarrow> m x = None \<or> m x = Some 0"
    using i by (simp_all add: polkavm_zero_init_def)
  have al: "m \<subseteq>\<^sub>m m'" "polkavm_init H SIZE k' m'" "b \<noteq> 0 \<Longrightarrow> region_ok b (space SIZE)"
    "\<And>x. m x = None \<Longrightarrow> m' x = None \<or> m' x = Some 0"
    using polkavm_allocate [OF p, of c] unfolding a by (auto simp: polkavm_ok_def)
  have z': "m' x = None \<or> m' x = Some 0" if "vm_heap_base H k \<le> x" for x
    using z [OF that] al(1,4) unfolding map_le_def by (metis domI)
  have hb: "vm_heap_base H k' = vm_heap_base H k" "b \<noteq> 0 \<Longrightarrow> vm_heap_base H k \<le> b"
    using polkavm_heap_base [OF p a] by simp_all
  show "polkavm_zero_init H SIZE k' m'" using al(2) z' hb(1) by (simp add: polkavm_zero_init_def)
  show "zero_from m' b 0 (space SIZE)" if b: "b \<noteq> 0"
    unfolding zero_from_def byte_at_def
  proof (intro allI impI)
    fix j assume j: "32 * 0 \<le> j \<and> j < 32 * space SIZE"
    have r: "unat b + 32 * space SIZE < 2 ^ 64" using al(3) [OF b] by (simp add: region_ok_def)
    then have "unat (b + of_nat j) = unat b + j" using j by (subst unat_add_small) (simp_all add: unat_of_nat)
    then have "vm_heap_base H k \<le> b + of_nat j" using hb(2) [OF b] by (simp add: word_le_nat_alt)
    then show "m' (b + of_nat j) = None \<or> m' (b + of_nat j) = Some 0" by (rule z')
  qed
qed

interpretation polkavm_zero: zeroed_env "Polkavm_env H c SIZE" "polkavm_zero_init H SIZE" "polkavm_ok H SIZE" "space SIZE"
  for H :: "'k polkavm" and c SIZE
proof (unfold_locales, goal_cases)
  case 1
  then show ?case by (rule polkavm.total_space_ok)
next
  case 2
  then show ?case by (rule polkavm.env_ok_region)
next
  case 3
  then show ?case by (rule polkavm.env_ok_dom)
next
  case 5
  then show ?case by (rule polkavm.expand_ok)
next
  case 6
  then show ?case by (rule polkavm.free_ok)
next
  case (4 e m)
  have p: "polkavm_init H SIZE e m" using 4 by (simp add: polkavm_zero_init_def)
  obtain b k' m' where a: "Polkavm_allocate_address_space H c e m = Some (b, k', m')" "m \<subseteq>\<^sub>m m'"
    "b \<noteq> 0 \<longrightarrow> polkavm_ok H SIZE k' m' b" using polkavm_allocate [OF p, of c] by blast
  then show ?case using polkavm_zero_allocate(1) [OF 4 a(1)] by (simp add: Polkavm_env_def)
next
  case (7 e m b e1 m1 e2 m2 e3 m3)
  have p: "polkavm_init H SIZE e m" using 7(1) by (simp add: polkavm_zero_init_def)
  have al: "Polkavm_allocate_address_space H c e m = Some (b, e1, m1)" using 7(2) by (simp add: Polkavm_env_def)
  have ex: "Polkavm_expand_memory_until H c e1 m1 b (sz 1) = Some (False, e2, m2)" using 7(4) by (simp add: Polkavm_env_def)
  show ?case using polkavm_zero_allocate(1) [OF 7(1) al] polkavm_undo [OF p al 7(3) ex] 7(5)
    by (simp add: Polkavm_env_def Polkavm_free_address_space_def)
next
  case (8 e m b e' m')
  then show ?case using polkavm_zero_allocate(2) [OF 8(1)] by (simp add: Polkavm_env_def)
next
  case (9 e m b n r e' m' x)
  then show ?case using polkavm_expand [OF 9(1,2), of c] by (auto simp: Polkavm_env_def)
qed

end
