(* ===== verification/Wasm_Env.thy ===== *)
theory Wasm_Env
  imports Envs
begin

text \<open>
  The environment of \<^verbatim>\<open>src/env/wasm.rs\<close>: the heap starts at the linker's symbol \<^verbatim>\<open>__heap_base\<close> and
  the linear memory grows in pages. The symbol and the instructions \<^verbatim>\<open>memory.size\<close> and
  \<^verbatim>\<open>memory.grow\<close> are parameters. An address and a \<^verbatim>\<open>usize\<close> of this target have 32 bits; the memory
  of the model is the low part of the 64-bit one.
\<close>

section \<open>The program\<close>

record 'k wasm =
  heap_base_symbol :: u32
  memory_size :: "'k \<Rightarrow> u32"
  memory_grow :: "u32 \<Rightarrow> 'k \<Rightarrow> memory \<Rightarrow> u32 \<times> 'k \<times> memory"

definition PAGE_SIZE :: u32 where
  "PAGE_SIZE = 64 * 1024"

definition heap_base :: "'k wasm \<Rightarrow> build \<Rightarrow> u32 option" where
  "heap_base W c = next_multiple_of c (heap_base_symbol W) 32"

definition Wasm_total_space :: "u32 \<Rightarrow> 'k \<Rightarrow> Size" where
  "Wasm_total_space SIZE k = const_size (ucast SIZE)"

definition Wasm_allocate_address_space ::
    "'k wasm \<Rightarrow> build \<Rightarrow> 'k \<Rightarrow> memory \<Rightarrow> (u64 \<times> 'k \<times> memory) option" where
  "Wasm_allocate_address_space W c k m = do { p \<leftarrow> heap_base W c; Some (ucast p, k, m) }"

definition Wasm_expand_memory_until ::
    "'k wasm \<Rightarrow> build \<Rightarrow> 'k \<Rightarrow> memory \<Rightarrow> u64 \<Rightarrow> Size \<Rightarrow> (bool \<times> 'k \<times> memory) option" where
  "Wasm_expand_memory_until W c k m base n = do {
     current_size \<leftarrow> mul_chk c (memory_size W k) PAGE_SIZE;
     required_size \<leftarrow> add_chk c (ucast base) (bytes n);
     if current_size \<ge> required_size then Some (True, k, m)
     else do {
       missing \<leftarrow> sub_chk c required_size current_size;
       delta \<leftarrow> next_multiple_of c missing PAGE_SIZE;
       let (r, k, m) = memory_grow W (delta div PAGE_SIZE) k m;
       Some (r \<noteq> - 1, k, m)
     }
   }"

definition Wasm_free_address_space :: "'k \<Rightarrow> memory \<Rightarrow> u64 \<Rightarrow> ('k \<times> memory) option" where
  "Wasm_free_address_space k m base = Some (k, m)"

definition Wasm_env :: "'k wasm \<Rightarrow> build \<Rightarrow> u32 \<Rightarrow> 'k env_ops" where
  "Wasm_env W c SIZE =
     \<lparr>total_space = Wasm_total_space SIZE,
      allocate_address_space = Wasm_allocate_address_space W c,
      expand_memory_until = Wasm_expand_memory_until W c,
      free_address_space = Wasm_free_address_space\<rparr>"

section \<open>The linear memory\<close>

text \<open>
  \<^verbatim>\<open>memory.grow\<close> answers \<^verbatim>\<open>usize::MAX\<close> and changes nothing, or adds pages of zeros after the memory there is.
\<close>

definition memory_top :: "'k wasm \<Rightarrow> 'k \<Rightarrow> nat" where
  "memory_top W k = 65536 * unat (memory_size W k)"

definition grow_law :: "'k wasm \<Rightarrow> bool" where
  "grow_law W \<longleftrightarrow> (\<forall>n k m r k' m'. memory_grow W n k m = (r, k', m') \<longrightarrow>
     (if r = - 1 then k' = k \<and> m' = m
      else memory_top W k' = memory_top W k + 65536 * unat n \<and>
        (\<forall>a. if memory_top W k \<le> unat a \<and> unat a < memory_top W k' then m a = None \<and> m' a = Some 0 else m' a = m a)))"

definition linear_mapped :: "'k wasm \<Rightarrow> 'k \<Rightarrow> memory \<Rightarrow> nat \<Rightarrow> bool" where
  "linear_mapped W k m b \<longleftrightarrow> (\<forall>a. b \<le> unat a \<and> unat a < memory_top W k \<longrightarrow> m a \<noteq> None)"

text \<open>
  The heap has to end below the last page of the address space: with all 65536 pages the byte size of
  the memory does not fit a \<^verbatim>\<open>usize\<close>.
\<close>

definition wasm_bounds :: "'k wasm \<Rightarrow> u32 \<Rightarrow> 'k \<Rightarrow> nat \<Rightarrow> bool" where
  "wasm_bounds W SIZE k b \<longleftrightarrow> grow_law W \<and> unat (memory_size W k) < 65536 \<and>
     0 < space (ucast SIZE) \<and> space (ucast SIZE) < 2 ^ 27 \<and> b + 32 * space (ucast SIZE) \<le> 2 ^ 32 - 65536"

definition wasm_init :: "'k wasm \<Rightarrow> u32 \<Rightarrow> 'k \<Rightarrow> memory \<Rightarrow> bool" where
  "wasm_init W SIZE k m \<longleftrightarrow> heap_base_symbol W \<noteq> 0 \<and> wasm_bounds W SIZE k (unat (heap_base_symbol W) + 32) \<and>
     linear_mapped W k m (unat (heap_base_symbol W))"

definition wasm_ok :: "'k wasm \<Rightarrow> u32 \<Rightarrow> 'k \<Rightarrow> memory \<Rightarrow> u64 \<Rightarrow> bool" where
  "wasm_ok W SIZE k m b \<longleftrightarrow> region_ok b (space (ucast SIZE)) \<and> wasm_bounds W SIZE k (unat b) \<and> linear_mapped W k m (unat b)"

lemma unat_PAGE_SIZE [simp]: "unat PAGE_SIZE = 65536"
  by (simp add: PAGE_SIZE_def)

lemma linear_mapped_from: "linear_mapped W k m b \<Longrightarrow> b \<le> b' \<Longrightarrow> linear_mapped W k m b'"
  unfolding linear_mapped_def by (meson order_trans)

lemma linear_mapped_dom: "dom m' = dom m \<Longrightarrow> linear_mapped W k m' b = linear_mapped W k m b"
  unfolding linear_mapped_def domIff [symmetric] by simp

lemma linear_mapped_until:
  assumes "linear_mapped W k m (unat b)" "unat b + 32 * n \<le> memory_top W k" "unat b + 32 * n < 2 ^ 64"
  shows "mapped_until m b n"
  unfolding mapped_until_def byte_at_def
proof (intro allI impI)
  fix j assume j: "j < 32 * n"
  have "unat (b + of_nat j) = unat b + j" using j assms(3) by (subst unat_add_small) (simp_all add: unat_of_nat)
  then show "m (b + of_nat j) \<noteq> None" using assms(1,2) j unfolding linear_mapped_def by simp
qed

text \<open>What \<^verbatim>\<open>memory.grow\<close> does to a heap.\<close>

lemma memory_grow_ok:
  assumes l: "grow_law W" and g: "memory_grow W n k m = (r, k', m')" and h: "linear_mapped W k m b"
  shows "m \<subseteq>\<^sub>m m'" "linear_mapped W k' m' b" "r = - 1 \<Longrightarrow> k' = k \<and> m' = m"
    "r \<noteq> - 1 \<Longrightarrow> memory_top W k' = memory_top W k + 65536 * unat n" "m x = None \<Longrightarrow> m' x = None \<or> m' x = Some 0"
proof -
  note law = l [unfolded grow_law_def, THEN spec, THEN spec, THEN spec, THEN spec, THEN spec, THEN spec, THEN mp, OF g]
  show fail: "r = - 1 \<Longrightarrow> k' = k \<and> m' = m" using law by (simp only: if_True)
  show t: "r \<noteq> - 1 \<Longrightarrow> memory_top W k' = memory_top W k + 65536 * unat n" using law by (simp only: if_False)
  have at: "if memory_top W k \<le> unat a \<and> unat a < memory_top W k' then m a = None \<and> m' a = Some 0 else m' a = m a" if "r \<noteq> - 1" for a
    using law [unfolded if_not_P [OF that], THEN conjunct2, THEN spec] .
  have at': "m' a = m a \<or> m a = None \<and> m' a = Some 0" for a
    using fail at [of a] by (cases "r = - 1") (simp_all split: if_splits)
  show "m \<subseteq>\<^sub>m m'" unfolding map_le_def using at' by (metis domIff)
  show "m x = None \<Longrightarrow> m' x = None \<or> m' x = Some 0" using at' [of x] by auto
  show "linear_mapped W k' m' b"
  proof (cases "r = - 1")
    case True
    then show ?thesis using fail h by simp
  next
    case False
    show ?thesis unfolding linear_mapped_def
    proof (intro allI impI)
      fix a :: u64 assume a: "b \<le> unat a \<and> unat a < memory_top W k'"
      show "m' a \<noteq> None"
      proof (cases "memory_top W k \<le> unat a")
        case True
        then show ?thesis using at [OF False, of a] a by simp
      next
        case F: False
        then have "m a \<noteq> None" using h a unfolding linear_mapped_def by simp
        then show ?thesis using at [OF False, of a] F by simp
      qed
    qed
  qed
qed

section \<open>The contract\<close>

lemma heap_base_ok:
  assumes "wasm_bounds W SIZE k (unat (heap_base_symbol W) + 32)"
  obtains p where "heap_base W c = Some p" "unat (heap_base_symbol W) \<le> unat p" "unat p < unat (heap_base_symbol W) + 32"
    "unat p mod 32 = 0"
  using assms unfolding heap_base_def wasm_bounds_def
  by (rule_tac next_multiple_of_ok [of "heap_base_symbol W" 32 c]) simp_all

lemma wasm_bounds_le: "wasm_bounds W SIZE k b \<Longrightarrow> b' \<le> b \<Longrightarrow> wasm_bounds W SIZE k b'"
  by (simp add: wasm_bounds_def)

lemma wasm_allocate:
  assumes i: "wasm_init W SIZE k m"
  shows "\<exists>p :: u32. Wasm_allocate_address_space W c k m = Some (ucast p, k, m) \<and> wasm_ok W SIZE k m (ucast p) \<and>
    unat (heap_base_symbol W) \<le> unat p"
proof -
  have b: "wasm_bounds W SIZE k (unat (heap_base_symbol W) + 32)" using i by (simp add: wasm_init_def)
  from heap_base_ok [OF this, of c] obtain p where p: "heap_base W c = Some p" "unat (heap_base_symbol W) \<le> unat p"
    "unat p < unat (heap_base_symbol W) + 32" "unat p mod 32 = 0" .
  have u: "unat (ucast p :: u64) = unat p" by (simp add: unat_ucast_up)
  have b': "wasm_bounds W SIZE k (unat p)" using wasm_bounds_le [OF b] p(3) by simp
  have "0 < unat (heap_base_symbol W)" using i by (simp add: wasm_init_def unat_gt_0)
  then have "(ucast p :: u64) \<noteq> 0" using p(2) u by (metis le_zero_eq not_gr0 unsigned_0)
  then have "region_ok (ucast p) (space (ucast SIZE))" using b' p(4) u by (simp add: region_ok_def wasm_bounds_def)
  moreover have "linear_mapped W k m (unat (heap_base_symbol W))" using i by (simp add: wasm_init_def)
  then have "linear_mapped W k m (unat p)" by (rule linear_mapped_from [OF _ p(2)])
  ultimately show ?thesis using b' p(1,2)
    by (intro exI [of _ p]) (simp add: wasm_ok_def Wasm_allocate_address_space_def u)
qed

lemma wasm_expand:
  assumes h: "wasm_ok W SIZE k m b" and n: "n \<le> space (ucast SIZE)"
  shows "\<exists>r k' m'. Wasm_expand_memory_until W c k m b (sz n) = Some (r, k', m') \<and> m \<subseteq>\<^sub>m m' \<and> wasm_ok W SIZE k' m' b \<and>
    (r \<longrightarrow> mapped_until m' b n) \<and> (\<not> r \<longrightarrow> k' = k \<and> m' = m) \<and> (\<forall>x. m x = None \<longrightarrow> m' x = None \<or> m' x = Some 0)"
proof -
  let ?T = "space (ucast SIZE)"
  have reg: "region_ok b ?T" and hm: "linear_mapped W k m (unat b)" and l: "grow_law W"
    and pg: "unat (memory_size W k) < 65536" and T: "?T < 2 ^ 27" "unat b + 32 * ?T \<le> 2 ^ 32 - 65536" "0 < ?T"
    using h by (simp_all add: wasm_ok_def wasm_bounds_def)
  have need: "unat b + 32 * n \<le> 2 ^ 32 - 65536" using T(2) n by linarith
  have cur: "mul_chk c (memory_size W k) PAGE_SIZE = Some (memory_size W k * PAGE_SIZE)" "unat (memory_size W k * PAGE_SIZE) = memory_top W k"
    using pg by (simp_all add: mul_chk_ok unat_word_ariths memory_top_def)
  have ub: "unat (ucast b :: u32) = unat b" using need by (simp add: unsigned_ucast_eq take_bit_nat_eq_self)
  have un: "unat (bytes (sz n)) = 32 * n" using n T(1) by (simp add: unat_bytes)
  have req: "add_chk c (ucast b) (bytes (sz n)) = Some (ucast b + bytes (sz n))" "unat (ucast b + bytes (sz n)) = unat b + 32 * n"
    using need by (simp_all add: add_chk_ok unat_add_small ub un)
  show ?thesis
  proof (cases "memory_size W k * PAGE_SIZE \<ge> ucast b + bytes (sz n)")
    case True
    then have le: "unat b + 32 * n \<le> memory_top W k" by (simp only: word_le_nat_alt cur(2) req(2))
    have "mapped_until m b n" using linear_mapped_until [OF hm le] need by simp
    moreover have "Wasm_expand_memory_until W c k m b (sz n) = Some (True, k, m)"
      using True by (simp add: Wasm_expand_memory_until_def cur(1) req(1))
    ultimately show ?thesis using h by (intro exI [of _ True] exI [of _ k] exI [of _ m]) simp
  next
    case False
    then have lt: "memory_top W k < unat b + 32 * n" by (simp only: word_le_nat_alt cur(2) req(2) not_le)
    let ?d = "ucast b + bytes (sz n) - memory_size W k * PAGE_SIZE"
    have le: "memory_size W k * PAGE_SIZE \<le> ucast b + bytes (sz n)" using False by simp
    have d: "unat ?d = unat b + 32 * n - memory_top W k" using unat_sub [OF le] by (simp only: cur(2) req(2))
    have "unat ?d + unat PAGE_SIZE \<le> 2 ^ LENGTH(32)" "0 < unat PAGE_SIZE" using d need by simp_all
    then obtain z where z: "next_multiple_of c ?d PAGE_SIZE = Some z"
      "unat ?d \<le> unat z" "unat z < unat ?d + 65536" "unat z mod 65536 = 0"
      by (rule next_multiple_of_ok [of ?d PAGE_SIZE c]) (simp only: unat_PAGE_SIZE)
    have q: "65536 * unat (z div PAGE_SIZE) = unat z" using mult_div_mod_eq [of 65536 "unat z"] z(4) by (simp add: unat_div)
    obtain r k' m' where r: "memory_grow W (z div PAGE_SIZE) k m = (r, k', m')" by (metis prod_cases3)
    note g = memory_grow_ok [OF l r hm]
    have run: "Wasm_expand_memory_until W c k m b (sz n) = Some (r \<noteq> - 1, k', m')"
      using False z(1) r by (simp add: Wasm_expand_memory_until_def cur(1) req(1) sub_chk_ok [OF le])
    have t: "unat b + 32 * n \<le> memory_top W k'" "memory_top W k' < 2 ^ 32" if "r \<noteq> - 1"
      using g(4) [OF that] z(2,3) lt need unfolding q d by linarith+
    have "unat (memory_size W k') < 65536" using t(2) g(3) pg by (cases "r = - 1") (simp_all add: memory_top_def)
    then have ok: "wasm_ok W SIZE k' m' b" using h g(2) by (simp add: wasm_ok_def wasm_bounds_def)
    have "mapped_until m' b n" if "r \<noteq> - 1" using linear_mapped_until [OF g(2) t(1) [OF that]] need by simp
    then show ?thesis using run g(1,3,5) ok by (intro exI [of _ "r \<noteq> - 1"] exI [of _ k'] exI [of _ m']) simp
  qed
qed

lemma wasm_undo:
  assumes i: "wasm_init W SIZE k m" and a: "Wasm_allocate_address_space W c k m = Some (b, k1, m1)"
    and x: "Wasm_expand_memory_until W c k1 m1 b (sz 1) = Some (False, k2, m2)"
  shows "k2 = k" "m2 = m"
proof -
  have o: "k1 = k" "m1 = m" "wasm_ok W SIZE k m b" using wasm_allocate [OF i, of c] unfolding a by auto
  then have "1 \<le> space (ucast SIZE)" by (simp add: wasm_ok_def wasm_bounds_def)
  from wasm_expand [OF o(3) this, of c] show "k2 = k" "m2 = m" using x unfolding o(1,2) by auto
qed

interpretation wasm: env_contract "Wasm_env W c SIZE" "wasm_init W SIZE" "wasm_ok W SIZE" "space (ucast SIZE)"
  for W :: "'k wasm" and c SIZE
proof (unfold_locales, goal_cases)
  case (1 e)
  then show ?case by (simp add: Wasm_env_def Wasm_total_space_def const_size_sz)
next
  case (2 e m b)
  then show ?case by (simp add: wasm_ok_def)
next
  case (3 e m b m')
  then show ?case unfolding wasm_ok_def using linear_mapped_dom [OF 3(2), of W e "unat b"] by metis
next
  case (4 e m)
  obtain p :: u32 where p: "Wasm_allocate_address_space W c e m = Some (ucast p, e, m)" "wasm_ok W SIZE e m (ucast p)"
    using wasm_allocate [OF 4, of c] by blast
  then have "(ucast p :: u64) \<noteq> 0" unfolding wasm_ok_def region_ok_def by blast
  then show ?case using p by (simp add: Wasm_env_def)
next
  case (5 e m b n)
  obtain r k' m' where "Wasm_expand_memory_until W c e m b (sz n) = Some (r, k', m')" "m \<subseteq>\<^sub>m m'"
    "wasm_ok W SIZE k' m' b" "r \<longrightarrow> mapped_until m' b n"
    using wasm_expand [OF 5, of c] by blast
  then show ?case by (simp add: Wasm_env_def)
next
  case (6 e m b)
  then show ?case by (simp add: Wasm_env_def Wasm_free_address_space_def)
next
  case (7 e m b e1 m1 e2 m2 e3 m3)
  have "e2 = e" "m2 = m" using 7(2,4) wasm_undo [OF 7(1)] by (simp_all add: Wasm_env_def)
  then show ?case using 7(1,5) by (simp add: Wasm_env_def Wasm_free_address_space_def)
qed

text \<open>With a heap that has not been written to, the contract of zeroed memory holds as well.\<close>

definition wasm_zero_init :: "'k wasm \<Rightarrow> u32 \<Rightarrow> 'k \<Rightarrow> memory \<Rightarrow> bool" where
  "wasm_zero_init W SIZE k m \<longleftrightarrow> wasm_init W SIZE k m \<and>
     (\<forall>x. unat (heap_base_symbol W) \<le> unat x \<longrightarrow> m x = None \<or> m x = Some 0)"

lemma wasm_zero_from:
  assumes i: "wasm_zero_init W SIZE k m" and a: "Wasm_allocate_address_space W c k m = Some (b, k', m')"
  shows "zero_from m' b 0 (space (ucast SIZE))"
proof -
  have w: "wasm_init W SIZE k m" using i by (simp add: wasm_zero_init_def)
  obtain p :: u32 where p: "Wasm_allocate_address_space W c k m = Some (ucast p, k, m)" "wasm_ok W SIZE k m (ucast p)"
    "unat (heap_base_symbol W) \<le> unat p" using wasm_allocate [OF w, of c] by blast
  have b: "b = ucast p" "m' = m" using a p(1) by simp_all
  have r: "unat b + 32 * space (ucast SIZE) < 2 ^ 64" using p(2) by (simp add: b wasm_ok_def region_ok_def)
  show ?thesis unfolding zero_from_def byte_at_def
  proof (intro allI impI)
    fix j assume j: "32 * 0 \<le> j \<and> j < 32 * space (ucast SIZE)"
    have "unat (b + of_nat j) = unat b + j" using j r by (subst unat_add_small) (simp_all add: unat_of_nat)
    then have "unat (heap_base_symbol W) \<le> unat (b + of_nat j)" using p(3) by (simp add: b unat_ucast_up)
    then show "m' (b + of_nat j) = None \<or> m' (b + of_nat j) = Some 0" using i by (simp add: wasm_zero_init_def b(2))
  qed
qed

interpretation wasm_zero: zeroed_env "Wasm_env W c SIZE" "wasm_zero_init W SIZE" "wasm_ok W SIZE" "space (ucast SIZE)"
  for W :: "'k wasm" and c SIZE
proof (unfold_locales, goal_cases)
  case 1
  then show ?case by (rule wasm.total_space_ok)
next
  case 2
  then show ?case by (rule wasm.env_ok_region)
next
  case 3
  then show ?case by (rule wasm.env_ok_dom)
next
  case (4 e m)
  then have w: "wasm_init W SIZE e m" by (simp add: wasm_zero_init_def)
  obtain p :: u32 where p: "Wasm_allocate_address_space W c e m = Some (ucast p, e, m)" "wasm_ok W SIZE e m (ucast p)"
    using wasm_allocate [OF w, of c] by blast
  then have "(ucast p :: u64) \<noteq> 0" unfolding wasm_ok_def region_ok_def by blast
  then show ?case using p by (simp add: Wasm_env_def)
next
  case 5
  then show ?case by (rule wasm.expand_ok)
next
  case 6
  then show ?case by (rule wasm.free_ok)
next
  case (7 e m b e1 m1 e2 m2 e3 m3)
  then have w: "wasm_init W SIZE e m" by (simp add: wasm_zero_init_def)
  have "e2 = e" "m2 = m" using 7(2,4) wasm_undo [OF w] by (simp_all add: Wasm_env_def)
  then show ?case using 7(1,5) by (simp add: Wasm_env_def Wasm_free_address_space_def)
next
  case (8 e m b e' m')
  then show ?case using wasm_zero_from [OF 8(1)] by (simp add: Wasm_env_def)
next
  case (9 e m b n r e' m' x)
  then show ?case using wasm_expand [OF 9(1,2), of c] by (auto simp: Wasm_env_def)
qed

section \<open>At the end of the address space\<close>

text \<open>
  With all 65536 pages taken the size of the memory wraps around to nothing: without overflow
  checks the heap is then asked to grow, and it cannot, whatever size was asked for; with them the
  expansion panics.
\<close>

lemma wasm_all_pages:
  assumes "memory_size W k = 65536" "unat (ucast b + bytes n :: u32) = unat (ucast b :: u32) + unat (bytes n)" "0 < unat (bytes n)"
  shows "Wasm_expand_memory_until W c k m b n =
    (if overflow_checks c then None else
       do { delta \<leftarrow> next_multiple_of c (ucast b + bytes n) PAGE_SIZE;
            let (r, k, m) = memory_grow W (delta div PAGE_SIZE) k m;
            Some (r \<noteq> - 1, k, m) })"
proof -
  have z: "(65536 :: u32) * PAGE_SIZE = 0" by (simp add: PAGE_SIZE_def)
  have nz: "ucast b + bytes n \<noteq> (0 :: u32)" using assms(2,3) by (metis add_is_0 not_gr0 unsigned_0)
  have a: "add_chk c (ucast b) (bytes n) = Some (ucast b + bytes n)"
  proof (rule add_chk_ok)
    show "unat (ucast b :: u32) + unat (bytes n) < 2 ^ LENGTH(32)" using unsigned_less [of "ucast b + bytes n :: u32"] assms(2) by metis
  qed
  show ?thesis using nz
    by (simp add: Wasm_expand_memory_until_def assms(1) mul_chk_def z a sub_chk_ok)
qed

end
