(* ===== verification/Env_Demos.thy ===== *)
theory Env_Demos
  imports Linux_Env Corevm_Env Polkavm_Env Wasm_Env
begin

text \<open>
  A concrete kernel, host, virtual machine and linear memory that do what the environments rely on: the
  laws of the four environments can hold, and so can their initial states.
\<close>

section \<open>Mapping a range\<close>

definition unmapped_range :: "memory \<Rightarrow> u64 \<Rightarrow> nat \<Rightarrow> bool" where
  "unmapped_range m b n \<longleftrightarrow> (\<forall>i < n. m (b + of_nat i) = None)"

definition map_zeros :: "memory \<Rightarrow> u64 \<Rightarrow> nat \<Rightarrow> memory" where
  "map_zeros m b n = (\<lambda>x. if unat (x - b) < n then Some 0 else m x)"

definition unmap :: "memory \<Rightarrow> u64 \<Rightarrow> nat \<Rightarrow> memory" where
  "unmap m b n = (\<lambda>x. if unat (x - b) < n then None else m x)"

lemma unat_le_64: "unat (n :: u64) \<le> 2 ^ 64"
  using unsigned_less [where ?'a = nat, of n] by simp

lemma map_zeros_in: "i < n \<Longrightarrow> n \<le> 2 ^ 64 \<Longrightarrow> map_zeros m b n (b + of_nat i) = Some 0"
  by (simp add: map_zeros_def unat_of_nat)

lemma map_zeros_out: "n \<le> unat (x - b) \<Longrightarrow> map_zeros m b n x = m x"
  by (simp add: map_zeros_def)

section \<open>Linux\<close>

definition demo_kernel :: "unit kernel" where
  "demo_kernel = \<lparr>
     syscall2 = (\<lambda>nr a len k m. (0, k, unmap m a (unat len))),
     syscall6 = (\<lambda>nr a len prot flags fd offset k m.
       let n = whole_pages (unat len)
       in if 4096 + n < 2 ^ 64 \<and> unmapped_range m 4096 n then (4096, k, map_zeros m 4096 n) else (- 12, k, m))\<rparr>"

lemma demo_mmap: "mmap_law demo_kernel len"
proof -
  have "abort_on_fail (- 12) = None" by (simp add: abort_on_fail_def)
  then show ?thesis
    using map_zeros_in [of _ "whole_pages (unat len)" _ 4096] map_zeros_out [of "whole_pages (unat len)"] unfolding mmap_law_def
    by (auto simp: demo_kernel_def unmapped_range_def Let_def split: if_splits)
qed

lemma demo_munmap: "munmap_law demo_kernel len"
  unfolding munmap_law_def by (auto simp: demo_kernel_def unmap_def map_le_def dom_def)

lemma demo_linux_init:
  assumes "0 < space SIZE" "space SIZE < 2 ^ 27"
  shows "linux_init demo_kernel SIZE () Map.empty"
proof -
  have "4096 + whole_pages (32 * space SIZE) < 2 ^ 64" using whole_pages_le(2) [of "32 * space SIZE"] assms(2) by simp
  then have "Linux_allocate_address_space demo_kernel SIZE () Map.empty \<noteq> None"
    using linux_len [OF assms(2)] unat_linux_len [OF assms(2)]
    by (simp add: Linux_defs demo_kernel_def unmapped_range_def abort_on_fail_def Let_def)
  then show ?thesis using assms demo_mmap demo_munmap by (simp add: linux_init_def linux_laws_def)
qed

section \<open>CoreVM\<close>

definition demo_host :: "unit corevm_host" where
  "demo_host = \<lparr>
     host_alloc = (\<lambda>len k m.
       if 4096 + unat len < 2 ^ 64 \<and> unmapped_range m 4096 (unat len) then (4096, k, map_zeros m 4096 (unat len)) else (0, k, m)),
     host_free = (\<lambda>a len k m. (k, unmap m a (unat len)))\<rparr>"

lemma demo_corevm_init:
  assumes "0 < space SIZE" "space SIZE < 2 ^ 27"
  shows "corevm_init demo_host SIZE () Map.empty"
proof -
  have "alloc_law demo_host len" for len
    using map_zeros_in [of _ "unat len" _ 4096, OF _ unat_le_64] map_zeros_out [of "unat len"] unfolding alloc_law_def
    by (auto simp: demo_host_def unmapped_range_def)
  moreover have "free_law demo_host len" for len
    unfolding free_law_def by (auto simp: demo_host_def unmap_def map_le_def dom_def)
  ultimately show ?thesis using assms by (simp add: corevm_init_def corevm_laws_def)
qed

section \<open>PolkaVM\<close>

definition demo_polkavm :: "u64 polkavm" where
  "demo_polkavm = \<lparr>
     vm_heap_base = (\<lambda>k. 4097),
     sbrk = (\<lambda>n k m.
       if n = 0 then (k, k, m)
       else if unat k + unat n < 2 ^ 64 \<and> unmapped_range m k (unat n) then (k + n, k + n, map_zeros m k (unat n))
       else (0, k, m))\<rparr>"

lemma demo_sbrk: "sbrk_law demo_polkavm"
proof -
  have "k + n \<noteq> 0" if "n \<noteq> 0" "unat k + unat n < 2 ^ 64" for k n :: u64
  proof
    assume "k + n = 0"
    then have "unat k + unat n = 0" using unat_add_small [of k n] that(2) by simp
    then show False using that(1) by (simp add: unat_eq_0)
  qed
  then show ?thesis
    using map_zeros_in [OF _ unat_le_64] map_zeros_out unfolding sbrk_law_def
    by (auto simp: demo_polkavm_def heap_top_def unmapped_range_def split: if_splits)
qed

lemma demo_polkavm_init:
  assumes "0 < space SIZE" "space SIZE < 2 ^ 27"
  shows "polkavm_zero_init demo_polkavm SIZE 4097 Map.empty"
proof -
  have "heap_mapped demo_polkavm 4097 Map.empty (vm_heap_base demo_polkavm 4097)"
    by (simp add: heap_mapped_def heap_top_def demo_polkavm_def)
  moreover have "vm_heap_base demo_polkavm 4097 = 4097" by (simp add: demo_polkavm_def)
  ultimately show ?thesis using assms demo_sbrk by (simp add: polkavm_zero_init_def polkavm_init_def)
qed

section \<open>WebAssembly\<close>

definition demo_wasm :: "u32 wasm" where
  "demo_wasm = \<lparr>
     heap_base_symbol = 65537,
     memory_size = (\<lambda>k. k),
     memory_grow = (\<lambda>n k m.
       if unat k + unat n \<le> 65536 \<and> (\<forall>a. 65536 * unat k \<le> unat a \<longrightarrow> m a = None)
       then (k, k + n, \<lambda>a. if 65536 * unat k \<le> unat a \<and> unat a < 65536 * unat (k + n) then Some 0 else m a)
       else (- 1, k, m))\<rparr>"

lemma demo_memory_grow: "grow_law demo_wasm"
proof -
  have "k \<noteq> - 1 \<and> unat (k + n) = unat k + unat n" if "unat k + unat n \<le> 65536" for k n :: u32
  proof
    show "k \<noteq> - 1" using that by (auto simp: unsigned_minus_1_eq_mask mask_eq_exp_minus_1)
    show "unat (k + n) = unat k + unat n" using that by (intro unat_add_small) simp
  qed
  then show ?thesis unfolding grow_law_def memory_top_def
    by (auto simp: demo_wasm_def split: if_splits)
qed

lemma demo_wasm_init:
  assumes "0 < space (ucast SIZE)" "65569 + 32 * space (ucast SIZE) \<le> 2 ^ 32 - 65536"
  shows "wasm_zero_init demo_wasm SIZE 1 Map.empty"
  using assms demo_memory_grow
  by (simp add: wasm_zero_init_def wasm_init_def wasm_bounds_def linear_mapped_def memory_top_def demo_wasm_def)

end
