(* ===== verification/Fragmentation.thy ===== *)
theory Fragmentation
  imports Generous
begin

text \<open>
  How much fragmentation can cost: free neighbours are merged, so a heap with \<open>j\<close> allocations has at most
  \<open>j + 1\<close> free chunks, and one of them is large when there is much free space. From this follows, in terms
  of the client's record alone, when an allocation must succeed, and when it must fail.
\<close>

section \<open>Free and live chunks of a layout\<close>

definition live_chunks :: "layout \<Rightarrow> nat" where
  "live_chunks ks = length (filter snd ks)"

definition live_extent :: "layout \<Rightarrow> nat" where
  "live_extent ks = sum_list (map fst (filter snd ks))"

definition free_chunks :: "layout \<Rightarrow> nat" where
  "free_chunks ks = length (filter (\<lambda>k. \<not> snd k) ks)"

lemma live_simps [simp]:
  "live_chunks [] = 0" "live_chunks (k # ks) = (if snd k then Suc (live_chunks ks) else live_chunks ks)"
  "live_extent [] = 0" "live_extent (k # ks) = (if snd k then fst k + live_extent ks else live_extent ks)"
  "free_chunks [] = 0" "free_chunks (k # ks) = (if snd k then free_chunks ks else Suc (free_chunks ks))"
  by (simp_all add: live_chunks_def live_extent_def free_chunks_def)

lemma live_extent_le: "live_extent ks \<le> extent ks"
  by (induction ks) auto

lemma few_free_chunks:
  "coalesced ks \<Longrightarrow> free_chunks ks \<le> (if ks \<noteq> [] \<and> snd (hd ks) then live_chunks ks else Suc (live_chunks ks))"
proof (induction ks)
  case (Cons k ks)
  then have "coalesced ks" "ks = [] \<or> snd k \<or> snd (hd ks)" by (simp_all add: coalesced_Cons)
  then show ?case using Cons.IH by (cases ks) (auto split: if_splits)
qed simp

text \<open>If all free chunks are below \<open>R\<close>, the free space is bounded by their number.\<close>

lemma free_space_bound:
  "\<forall>n. (n, False) \<in> set ks \<longrightarrow> n \<le> R \<Longrightarrow> extent ks \<le> live_extent ks + free_chunks ks * R"
proof (induction ks)
  case (Cons k ks)
  then show ?case by (cases k) fastforce
qed simp

lemma large_free_chunk:
  assumes c: "coalesced ks" and f: "live_extent ks + Suc (live_chunks ks) * R < extent ks"
  obtains n where "(n, False) \<in> set ks" "R < n"
proof -
  have "free_chunks ks \<le> Suc (live_chunks ks)" using few_free_chunks [OF c] by (auto split: if_splits)
  then have "free_chunks ks * R \<le> Suc (live_chunks ks) * R" by (intro mult_le_mono1)
  then have "\<not> extent ks \<le> live_extent ks + free_chunks ks * R" using f by linarith
  then have "\<not> (\<forall>n. (n, False) \<in> set ks \<longrightarrow> n \<le> R)" using free_space_bound [of ks R] by blast
  then show thesis using that by (meson not_le)
qed

lemma frees_member: "(n, False) \<in> set ks \<Longrightarrow> sizes_pos ks \<Longrightarrow> \<exists>x. frees 0 ks x = Some n"
proof -
  assume a: "(n, False) \<in> set ks" "sizes_pos ks"
  obtain us vs where ks: "ks = us @ (n, False) # vs" using split_list [OF a(1)] by blast
  then show ?thesis using a(2) by (auto simp: frees_mid_1(1) intro: exI [of _ "extent us"])
qed

section \<open>The client's view of used space\<close>

definition used :: "view \<Rightarrow> nat" where
  "used M = (\<Sum>p \<in> dom M. Suc (the (M p)))"

lemma finite_lives: "finite (dom (lives x ks))"
  by (induction x ks rule: lives.induct) simp_all

lemma lives_count: "sizes_pos ks \<Longrightarrow> card (dom (lives x ks)) = live_chunks ks \<and> (\<Sum>y \<in> dom (lives x ks). the (lives x ks y)) = live_extent ks"
proof (induction x ks rule: lives.induct)
  case (2 x n a ks)
  have n: "0 < n" "sizes_pos ks" using 2(3) by simp_all
  have IH: "card (dom (lives (x + n) ks)) = live_chunks ks" "(\<Sum>y \<in> dom (lives (x + n) ks). the (lives (x + n) ks y)) = live_extent ks"
    using 2(1,2) n(2) by (cases a; simp)+
  have x: "x \<notin> dom (lives (x + n) ks)" using lives_outside [OF n(2), of x "x + n"] n(1) by auto
  then have "(\<Sum>y \<in> dom (lives (x + n) ks). the (((lives (x + n) ks)(x \<mapsto> n)) y)) = live_extent ks"
    using IH(2) by (metis (mono_tags, lifting) fun_upd_apply sum.cong)
  then show ?case using IH x finite_lives [of "x + n" ks] by (cases a) (simp_all del: fun_upd_apply, simp)
qed simp

lemma view_used:
  assumes h: "heap_inv T s ks"
  shows "card (dom (view_of (base_address s) (lives 0 ks))) = live_chunks ks"
    "used (view_of (base_address s) (lives 0 ks)) = live_extent ks" "finite (dom (view_of (base_address s) (lives 0 ks)))"
proof -
  let ?b = "base_address s" and ?L = "lives 0 ks"
  note sp = heap_invD(5) [OF h]
  have lt: "x < 2 ^ 27" if "x \<in> dom ?L" for x using dom_lives_bound [OF h] that by auto
  have d: "dom (view_of ?b ?L) = data_ptr ?b ` dom ?L"
  proof (intro set_eqI iffI)
    fix p assume "p \<in> dom (view_of ?b ?L)"
    then obtain k where "view_of ?b ?L p = Some k" by blast
    then show "p \<in> data_ptr ?b ` dom ?L" by (rule view_of_Some) blast
  next
    fix p assume "p \<in> data_ptr ?b ` dom ?L"
    then obtain x where x: "p = data_ptr ?b x" "x \<in> dom ?L" by blast
    then show "p \<in> dom (view_of ?b ?L)" using view_of_data_ptr [OF lt [OF x(2)], of ?b ?L] by auto
  qed
  have inj: "inj_on (data_ptr ?b) (dom ?L)" using lt data_ptr_index [of _ ?b] by (intro inj_onI) metis
  show "card (dom (view_of ?b ?L)) = live_chunks ks" unfolding d card_image [OF inj] using lives_count [OF sp] by blast
  show "finite (dom (view_of ?b ?L))" unfolding d by (intro finite_imageI finite_lives)
  have "Suc (the (view_of ?b ?L (data_ptr ?b x))) = the (?L x)" if x: "x \<in> dom ?L" for x
    using x lives_pos [OF sp, of x] by (auto simp: view_of_data_ptr [OF lt [OF x]])
  then have "used (view_of ?b ?L) = (\<Sum>x \<in> dom ?L. the (?L x))" unfolding used_def d sum.reindex [OF inj] by simp
  then show "used (view_of ?b ?L) = live_extent ks" using lives_count [OF sp] by simp
qed

lemma used_empty [simp]: "used Map.empty = 0"
  by (simp add: used_def)

lemma used_upd: "finite (dom M) \<Longrightarrow> M p = None \<Longrightarrow> used (M(p \<mapsto> k)) = Suc k + used M"
proof -
  assume a: "finite (dom M)" "M p = None"
  then have "(\<Sum>q \<in> dom M. Suc (the ((M(p \<mapsto> k)) q))) = used M" unfolding used_def by (intro sum.cong) auto
  then show ?thesis using a by (simp add: used_def domIff insert_absorb)
qed

section \<open>Rounding of requests\<close>

text \<open>The bins are exact below 256 units; above, the search may miss chunks up to one part in 128 too large.\<close>

definition padded :: "nat \<Rightarrow> nat" where
  "padded n = n + n div 128"

lemma ceil_div_le: "0 < d \<Longrightarrow> n \<le> d * k \<Longrightarrow> ceil_div n d \<le> k"
proof -
  assume d: "0 < d" "n \<le> d * k"
  show ?thesis
  proof (cases "n mod d = 0")
    case True
    then show ?thesis using d by (auto simp: ceil_div_def)
  next
    case False
    then have "n < d * k" using d by (metis le_neq_implies_less mod_mult_self1_is_0)
    then have "n div d < k" by (simp add: less_mult_imp_div_less mult.commute)
    then show ?thesis by (simp add: ceil_div_def)
  qed
qed

lemma bin_up_padded: "0 < n \<Longrightarrow> bin_up 7 n \<le> bin_down 7 (padded n)"
proof -
  assume n: "0 < n"
  show ?thesis
  proof (cases "n < 2 ^ 7")
    case True
    then have "padded n = n" "bin_shift 7 n = 0" by (simp_all add: padded_def bin_shift_small)
    then show ?thesis by (simp add: bin_up_def bin_down_def ceil_div_def)
  next
    case False
    define t where "t = bin_shift 7 n"
    define d :: nat where "d = 2 ^ t"
    have d: "0 < d" by (simp add: d_def)
    have l: "2 ^ 7 \<le> n" using False by simp
    have dn: "d * 2 ^ 7 \<le> n" using bin_shift_large(1) [OF l] by (simp add: t_def d_def power_add)
    then have dp: "d \<le> n div 128" using d by (simp add: less_eq_div_iff_mult_less_eq)
    define q where "q = ceil_div n d"
    have q: "n \<le> q * d" unfolding q_def by (rule ceil_div_ge [OF d])
    have "q * d \<le> padded n"
    proof (cases "n mod d = 0")
      case True
      then have "q * d = n" unfolding q_def ceil_div_def using div_mult_mod_eq [of n d] by simp
      then show ?thesis by (simp add: padded_def)
    next
      case False
      then have "q * d = n div d * d + d" unfolding q_def ceil_div_def by simp
      then show ?thesis using dp div_times_less_eq_dividend [of n d] unfolding padded_def by linarith
    qed
    then have m: "bin_down 7 (q * d) \<le> bin_down 7 (padded n)" by (rule bin_down_mono)
    have "bin_up 7 n \<le> bin_down 7 (q * d)"
    proof (cases "bin_shift 7 (q * d) = t")
      case True
      then show ?thesis using d by (simp add: bin_up_def bin_down_def t_def [symmetric] d_def [symmetric] q_def)
    next
      case False
      then have lt: "Suc t \<le> bin_shift 7 (q * d)" using bin_shift_mono [OF q, of 7] by (simp add: t_def)
      have lq: "2 ^ 7 \<le> q * d" using l q by linarith
      have "n < d * 2 ^ 8" using bin_shift_large(2) [OF l] by (simp add: t_def d_def power_add)
      then have "q \<le> 2 ^ 8" unfolding q_def by (intro ceil_div_le [OF d]) simp
      then have "bin_up 7 n \<le> t * 2 ^ 7 + 2 ^ 8 - 1" by (simp add: bin_up_def t_def [symmetric] d_def [symmetric] q_def)
      moreover have "(Suc t + 1) * 2 ^ 7 \<le> (bin_shift 7 (q * d) + 1) * 2 ^ 7" using lt by (intro mult_le_mono1) simp
      ultimately show ?thesis using bin_down_range(1) [OF lq] by simp
    qed
    then show ?thesis using m by simp
  qed
qed

lemma room_for:
  assumes k: "frees 0 ks x = Some k" "padded n \<le> k" and n: "0 < n" "n \<le> 2 ^ 25"
  shows "\<not> no_room ks n"
proof -
  have "bin_up 7 n \<le> bin_of k"
  proof (cases "k \<le> 2 ^ 25")
    case True
    then show ?thesis using bin_up_padded [OF n(1)] bin_down_mono [OF k(2), of 7] by (simp add: bin_of_def)
  next
    case False
    have "bin_up 7 n \<le> bin_up 7 (2 ^ 25)"
      using bin_up_range_7 [OF n(2)] bin_up_max by simp
    moreover have "bin_down 7 (2 ^ 25) = bin_up 7 (2 ^ 25)"
    proof -
      have "log2 (2 ^ 25) = 25" by (rule log2_eqI) simp_all
      then show ?thesis by (simp add: bin_down_def bin_up_def ceil_div_def bin_shift_def)
    qed
    ultimately show ?thesis using False by (simp add: bin_of_def)
  qed
  then show ?thesis using k(1) n(2) unfolding no_room_def by (metis not_le)
qed

section \<open>When an allocation must succeed, and when it must fail\<close>

context env_contract
begin

text \<open>What a client holds always fits into the address space.\<close>

lemma used_bound:
  assumes hist: "history ops env_init c s M"
  shows "used M \<le> T" "finite (dom M)"
proof -
  consider (fresh) "M = Map.empty" | (heap) ks where "heap_ok env_ok T s ks" "M = view_of (base_address s) (lives 0 ks)"
    using history_ok [OF hist] unfolding client_ok_def by blast
  then show "used M \<le> T" "finite (dom M)"
  proof (atomize (full), cases)
    case heap
    note inv = heap_ok_inv [OF heap(1)]
    show "used M \<le> T \<and> finite (dom M)"
      unfolding heap(2) using view_used [OF inv] live_extent_le [of ks] heap_invD(4) [OF inv] by simp
  qed simp
qed

lemma full_alloc_fails:
  assumes hist: "history ops env_init c s M" and n: "T < used M + Suc (units n)"
  shows "\<exists>s'. alloc_impl ops c s a n z = Some (None, s') \<and> history ops env_init c s' M"
proof -
  let ?call = "if z then Alloc_zeroed a n else Alloc a n"
  have l: "legal c M ?call" by simp
  obtain r s' where r: "run_call ops c s ?call = Some (r, s')" "answer_ok M (mem s) (mem s') ?call r"
    using client_step [OF history_ok [OF hist] l] by blast
  note hist' = history_call [OF hist l r(1)]
  obtain r' where r': "alloc_impl ops c s a n z = Some (r', s')" "r = Allocated r'"
    using r(1) by (cases z) (auto simp: alloc_def alloc_zeroed_def)
  have "r' = None"
  proof (rule ccontr)
    assume "r' \<noteq> None"
    then obtain p where p: "r' = Some p" by blast
    have v: "view_after M ?call r = M(p \<mapsto> units n)" "M p = None" using r(2) r'(2) p by (cases z; simp)+
    have "used (M(p \<mapsto> units n)) \<le> T" using used_bound(1) [OF hist'] unfolding v(1) by simp
    then show False using used_upd [OF used_bound(2) [OF hist] v(2), of "units n"] n by simp
  qed
  then show ?thesis using r' hist' by (cases z) simp_all
qed

end

context generous_env
begin

lemma served_despite_fragmentation:
  assumes hist: "history ops env_init c s M" and a: "is_power_of_two (raw_units a)"
    and n: "units n + units a \<le> 2 ^ 25" and f: "used M + Suc (card (dom M)) * (padded (units n + units a) - 1) < T"
  shows "\<exists>p s'. alloc_impl ops c s a n z = Some (Some p, s')"
proof -
  let ?r = "units n + units a"
  have r0: "0 < ?r" using a by (auto simp: is_power_of_two_iff units_def)
  have p0: "0 < padded ?r" using r0 by (simp add: padded_def)
  consider (fresh) "fresh_ok env_init s" "M = Map.empty"
    | (heap) ks where "heap_ok env_ok T s ks" "M = view_of (base_address s) (lives 0 ks)"
    using history_ok [OF hist] unfolding client_ok_def by blast
  then show ?thesis
  proof cases
    case fresh
    obtain s0 where s0: "heap_ok env_ok T s0 [(T, False)]" "alloc_impl ops c s a n z = alloc_impl ops c s0 a n z"
      using fresh_started [OF fresh(1), of c] a by metis
    have "padded ?r \<le> T" using f p0 fresh(2) by simp
    then have "\<not> no_room [(T, False)] ?r" using room_for [of "[(T, False)]" 0 T ?r] r0 n by simp
    then show ?thesis unfolding s0(2) by (rule alloc_served [OF s0(1) a])
  next
    case heap
    note inv = heap_ok_inv [OF heap(1)]
    note i = heap_invD [OF inv]
    have "live_extent ks + Suc (live_chunks ks) * (padded ?r - 1) < extent ks"
      using f view_used(1,2) [OF inv] i(4) unfolding heap(2) by simp
    then obtain k where k: "(k, False) \<in> set ks" "padded ?r - 1 < k" by (rule large_free_chunk [OF i(6)])
    obtain x where x: "frees 0 ks x = Some k" using frees_member [OF k(1) i(5)] by blast
    have "\<not> no_room ks ?r" by (rule room_for [OF x _ r0 n]) (use k(2) in simp)
    then show ?thesis by (rule alloc_served [OF heap(1) a])
  qed
qed

end

end
