(* ===== verification/Exact_Layouts.thy ===== *)
theory Exact_Layouts
  imports Fragmentation
begin

text \<open>
  The layout after an operation, exactly, when there is one free chunk only: an allocation is then carved from its
  left end, and fails precisely when the chunk is too small for it and its header.
\<close>

lemma single_split:
  assumes "us @ (n, False) # vs = us' @ (n', False) # vs'" "\<forall>k \<in> set (us @ vs). snd k"
  shows "us' = us \<and> n' = n \<and> vs' = vs"
  using assms
proof (induction us arbitrary: us')
  case Nil
  then show ?case by (cases us') auto
next
  case (Cons k us)
  then show ?case by (cases us') auto
qed

lemma live_extent_append [simp]: "live_extent (us @ vs) = live_extent us + live_extent vs"
  by (simp add: live_extent_def)

lemma live_extent_all: "\<forall>k \<in> set ks. snd k \<Longrightarrow> live_extent ks = extent ks"
  by (induction ks) auto

context env_contract
begin

text \<open>An allocation that does not fit next to the others fails, and leaves the layout as it was.\<close>

lemma alloc_no_space:
  assumes h: "heap_ok env_ok T s ks" and q: "T < live_extent ks + Suc q" "q < 2 ^ 32"
  obtains s' where "alloc ops c s (sz 1) (sz q) = Some (None, s')" "heap_ok env_ok T s' ks" "base_address s' = base_address s"
proof -
  have j: "(0 :: nat) < 32" by simp
  obtain res s1 s' where r: "alloc_impl ops c s (sz (2 ^ 0)) (sz q) False = Some (res, s')" "expanded s s1" "heap_ok env_ok T s1 ks"
    "res = None \<and> s' = s1 \<and> (s1 = s \<and> no_room ks (q + 2 ^ 0) \<or> ensured ops T s False s1) \<or>
     ensured ops T s True s1 \<and>
     (\<exists>us n vs l r. ks = us @ (n, False) # vs \<and> res = Some (data_ptr (base_address s) (extent us + l)) \<and>
       served env_ok T (units (allocated_space s)) us n vs (2 ^ 0) q False l r s1 s')"
    using alloc_impl_heap_ok [OF h j q(2), of c False] by (elim exE conjE) (rule that; assumption)
  have "res = None \<and> s' = s1"
  proof (rule ccontr)
    assume "\<not> (res = None \<and> s' = s1)"
    then obtain us n vs l r where ks: "ks = us @ (n, False) # vs" "n = l + Suc q + r" using r(4) unfolding served_def by blast
    have "live_extent us + live_extent vs + n \<le> extent ks"
      using live_extent_le [of us] live_extent_le [of vs] unfolding ks(1) by simp
    then show False using q(1) ks heap_invD(4) [OF heap_ok_inv [OF h]] by simp
  qed
  then show thesis using that r expandedD(2) [OF r(2)] by (simp add: alloc_def)
qed

lemma exact_free:
  assumes h: "heap_ok env_ok T s (us @ (n, True) # vs)"
  obtains s' where "free ops c s (data_ptr (base_address s) (extent us)) = Some s'" "heap_ok env_ok T s' (freed us n vs)"
    "base_address s' = base_address s"
proof -
  obtain s' where s': "free ops c s (data_ptr (base_address s) (extent us)) = Some s'" "heap_inv T s' (freed us n vs)"
    "same_env s s'" "framed (base_address s) (starts 0 (us @ (n, True) # vs)) (mem s) (mem s')"
    using free_chunk_ok [OF heap_ok_inv [OF h] total_space_ok] by blast
  then show thesis using that heap_ok_moved [OF h s'(2-4)] same_envD [OF s'(3)] by blast
qed

lemma exact_shrink:
  assumes h: "heap_ok env_ok T s (us @ (n, True) # vs)" and k: "0 < k" "Suc k < n"
  obtains s' where "shrink_inplace ops c s (data_ptr (base_address s) (extent us)) (sz k) = Some s'"
    "heap_ok env_ok T s' (shrunk us n k vs)" "base_address s' = base_address s"
proof -
  obtain s' where s': "shrink_inplace ops c s (data_ptr (base_address s) (extent us)) (sz k) = Some s'"
    "heap_inv T s' (shrunk us n k vs)" "same_env s s'"
    "framed (base_address s) (starts 0 (us @ (n, True) # vs) \<union> starts 0 (shrunk us n k vs)) (mem s) (mem s')"
    using shrink_inplace_ok [OF heap_ok_inv [OF h] total_space_ok k] by blast
  then show thesis using that heap_ok_moved [OF h s'(2-4)] same_envD [OF s'(3)] by blast
qed

lemma exact_usable:
  assumes h: "heap_ok env_ok T s (us @ (n, True) # vs)"
  shows "usable_size c (mem s) (data_ptr (base_address s) (extent us)) = Some (of_nat (32 * (n - 1)))"
proof -
  note i = heap_ok_inv [OF h]
  have "lives 0 (us @ (n, True) # vs) (extent us) = Some n"
    using heap_invD(5) [OF i] by (simp add: lives_at)
  then show ?thesis by (rule usable_size_ok [OF i])
qed

lemma exact_drop:
  assumes "heap_ok env_ok T s ks"
  obtains s' where "Allocator_drop ops s = Some s'"
  using assms free_ok unfolding heap_ok_def Allocator_drop_def by fastforce

end

context generous_env
begin

text \<open>With one free chunk, an allocation that fits is carved from its left end.\<close>

lemma exact_alloc:
  assumes h: "heap_ok env_ok T s (us @ (n, False) # vs)" and all: "\<forall>k \<in> set (us @ vs). snd k"
    and q: "padded (Suc q) \<le> n" "Suc q \<le> 2 ^ 25"
  obtains s' where "alloc ops c s (sz 1) (sz q) = Some (Some (data_ptr (base_address s) (extent us)), s')"
    "heap_ok env_ok T s' (us @ (Suc q, True) # left_over (n - Suc q) @ vs)" "base_address s' = base_address s"
proof -
  note i = heap_invD [OF heap_ok_inv [OF h]]
  have a: "is_power_of_two (raw_units (sz 1))" using power_two_size [of 0] by simp
  have u: "units (sz q) = q" "units (sz 1) = 1" using q(2) by (simp_all add: units_sz)
  have x: "frees 0 (us @ (n, False) # vs) (extent us) = Some n" using i(5) by (simp add: frees_mid_1)
  have "\<not> no_room (us @ (n, False) # vs) (Suc q)" by (rule room_for [OF x q(1) _ q(2)]) simp
  then obtain p s' where ps: "alloc_impl ops c s (sz 1) (sz q) False = Some (Some p, s')"
    using alloc_served [OF h a, of "sz q" c False] unfolding u by auto
  obtain s1 us' n' vs' l r where r: "expanded s s1" "us @ (n, False) # vs = us' @ (n', False) # vs'"
    "p = data_ptr (base_address s) (extent us' + l)" "served env_ok T (units (allocated_space s)) us' n' vs' (2 ^ 0) q False l r s1 s'"
    using alloc_impl_heap_ok [OF h, of 0 q c False] ps q(2) by auto
  have e: "us' = us" "n' = n" "vs' = vs" using single_split [OF r(2) all] by simp_all
  have lr: "l = 0" "r = n - Suc q" using r(4) unfolding served_def e by auto
  have "carved us 0 q (n - Suc q) vs = us @ (Suc q, True) # left_over (n - Suc q) @ vs" by (simp add: carved_def left_over_def)
  then have "heap_ok env_ok T s' (us @ (Suc q, True) # left_over (n - Suc q) @ vs)" "base_address s' = base_address s"
    using r(4) expandedD(2) [OF r(1)] same_envD(1) [of s1 s'] unfolding served_def e lr by auto
  then show thesis using that ps r(3) unfolding e lr by (simp add: alloc_def)
qed

text \<open>A free chunk behind an allocation is there to grow into.\<close>

lemma exact_grow:
  assumes h: "heap_ok env_ok T s (us @ (n, True) # (r, False) # ws)" and k: "n < Suc k" "Suc k \<le> n + r"
  obtains s' where "grow_inplace ops c s (data_ptr (base_address s) (extent us)) (sz k) = Some (Some (sz k), s')"
    "heap_ok env_ok T s' (us @ (Suc k, True) # left_over (n + r - Suc k) @ ws)" "base_address s' = base_address s"
proof -
  obtain g s1 s' where g: "grow_inplace ops c s (data_ptr (base_address s) (extent us)) (sz k) = Some (g, s')" "expanded s s1"
    "g = None \<and> s' = s1 \<and> ensured ops T s False s1 \<or>
     g = Some (sz k) \<and> heap_ok env_ok T s' (us @ (Suc k, True) # left_over (n + r - Suc k) @ ws) \<and> same_env s1 s'"
    using grow_inplace_grows [OF h k, of c] by blast
  then show thesis using that never_refuses [OF h] expandedD(2) [OF g(2)] same_envD [of s1 s'] by metis
qed

end

end
