(* ===== verification/Confinement.thy ===== *)
theory Confinement
  imports Generous
begin

text \<open>
  Over an environment that does not touch memory itself, the allocator and a client that keeps to its
  allocations never write outside the address space. An array is such an environment.
\<close>

section \<open>The interface\<close>

locale still_env = env_contract +
  assumes allocate_still: "env_init e m \<Longrightarrow> allocate_address_space ops e m = Some (b, e', m') \<Longrightarrow> m' = m"
    and expand_still: "env_ok e m b \<Longrightarrow> n \<le> T \<Longrightarrow> expand_memory_until ops e m b (sz n) = Some (r, e', m') \<Longrightarrow> m' = m"

lemma framed_outside:
  assumes "framed b G m m'" "G \<subseteq> {..<T}" "32 * T \<le> unat (x - b)" "region_ok b T"
  shows "m' x = m x"
proof -
  have "32 \<le> unat (x - gaddr b g)" if "g \<in> G" for g
  proof -
    have gT: "g < T" "32 * T < 2 ^ 64" using that assms(2,4) by (auto simp: region_ok_def)
    have u: "unat (of_nat (32 * g) :: u64) = 32 * g" using gT by (intro unat_of_nat_small) simp
    have "(of_nat (32 * g) :: u64) \<le> x - b" unfolding word_le_nat_alt u using assms(3) gT(1) by linarith
    then have "unat (x - b - of_nat (32 * g)) = unat (x - b) - 32 * g" by (simp only: unat_sub u)
    moreover have "x - gaddr b g = x - b - of_nat (32 * g)" by (simp add: gaddr_def)
    ultimately have "unat (x - gaddr b g) = unat (x - b) - 32 * g" by (simp only:)
    then show ?thesis using assms(3) gT(1) by linarith
  qed
  then show ?thesis using assms(1) unfolding framed_def by blast
qed

lemma inside_outside:
  assumes "inside s s'" "region_ok (base_address s) T" "units (allocated_space s) \<le> T" "32 * T \<le> unat (x - base_address s)"
  shows "mem s' x = mem s x"
proof -
  obtain G where G: "G \<subseteq> {..<units (allocated_space s)}" "framed (base_address s) G (mem s) (mem s')"
    using assms(1) unfolding inside_def by blast
  have "G \<subseteq> {..<T}" using G(1) assms(3) by auto
  then show ?thesis using framed_outside [OF G(2) _ assms(4,2)] by blast
qed

context still_env
begin

lemma evolves_outside:
  assumes "evolves ops env_ok T s s'" "region_ok (base_address s) T" "units (allocated_space s) \<le> T" "32 * T \<le> unat (x - base_address s)"
  shows "mem s' x = mem s x \<and> base_address s' = base_address s \<and> units (allocated_space s') \<le> T"
  using assms
proof (induction rule: evolves.induct)
  case (evolves_expand s s' ks r s'')
  then have IH: "mem s' x = mem s x" "base_address s' = base_address s" by simp_all
  obtain n where n: "n \<le> T" "ensure_space ops s' (sz n) = Some (r, s'')" using evolves_expand(3) unfolding ensured_def by blast
  have ok: "env_ok (env s') (mem s') (base_address s')" using evolves_expand(2) by (simp add: heap_ok_def)
  have h: "heap_ok env_ok T s'' ks" "expanded s' s''" using ensure_space_ok [OF evolves_expand(2) n(1)] n(2) by auto
  have "mem s'' = mem s'"
    using n(2) expand_still [OF ok n(1)] by (auto simp: ensure_space_def bind_eq_Some_conv Let_def split: if_splits)
  then show ?case using IH expandedD(2) [OF h(2)] heap_invD(2) [OF heap_ok_inv [OF h(1)]] by simp
next
  case (evolves_write s s' s'')
  then have IH: "mem s' x = mem s x" "base_address s' = base_address s" "units (allocated_space s') \<le> T" by simp_all
  then show ?case using inside_outside [OF evolves_write(2), of T x] evolves_write(4-6) insideD [OF evolves_write(2)] by simp
qed simp

text \<open>A byte that lies outside of every address space the environment may deliver keeps its initial value.\<close>

lemma history_outside:
  assumes hist: "history ops env_init c s M"
    and init: "\<And>e m. env_init e m \<Longrightarrow> m x = v"
    and out: "\<And>e m b. env_ok e m b \<Longrightarrow> 32 * T \<le> unat (x - b)"
  shows "mem s x = v"
  using hist
proof (induction rule: history.induct)
  case (history_new e m)
  then show ?case using init by (simp add: Allocator_new_def)
next
  case (history_call s M call r s')
  have h: "client_ok env_init env_ok T s M" by (rule history_ok [OF history_call(1)])
  have go: "mem s' x = mem s1 x" if "heap_ok env_ok T s1 ks" "step_ok ops env_ok T c s1 ks call r s' ks'" for s1 ks ks'
  proof -
    have e: "evolves ops env_ok T s1 s'" using that(2) unfolding step_ok_def Let_def by blast
    have "32 * T \<le> unat (x - base_address s1)" using that(1) out by (auto simp: heap_ok_def)
    then show ?thesis using evolves_outside [OF e] heap_invD(1,2) [OF heap_ok_inv [OF that(1)]] by blast
  qed
  show ?case
  proof (cases "fresh_ok env_init s \<and> M = Map.empty")
    case True
    then have le: "legal c Map.empty call" using history_call(2) by simp
    from True [THEN conjunct1] le show ?thesis
    proof (cases rule: fresh_call)
      case (refused s'')
      then have "s'' = s'" using history_call(3) by simp
      then show ?thesis using refused(2) init by (auto simp: fresh_ok_def)
    next
      case (started s1 r' s'' ks')
      then have eq: "r' = r" "s'' = s'" using history_call(3) by simp_all
      obtain b e m e' m' where a: "allocate_address_space ops (env s) (mem s) = Some (b, e, m)" "env_ok e m b"
        "expand_memory_until ops e m b (sz 1) = Some (True, e', m')" "base_address s1 = b" "framed b {0} m' (mem s1)"
        using initialize_impl_ok [OF True [THEN conjunct1], of c] started(1) by auto
      have ini: "env_init (env s) (mem s)" using True by (simp add: fresh_ok_def)
      have rg: "region_ok b T" by (rule env_ok_region [OF a(2)])
      have T1: "1 \<le> T" using region_okD(2) [OF rg] by simp
      have m: "m' = mem s" using allocate_still [OF ini a(1)] expand_still [OF a(2) T1 a(3)] by simp
      have "{0} \<subseteq> {..<T}" using T1 by simp
      then have "mem s1 x = mem s x" using framed_outside [OF a(5) _ out [OF a(2)] rg] m by simp
      then show ?thesis using go [OF started(2)] started(4) eq init [OF ini] by simp
    qed
  next
    case False
    then obtain ks where ks: "heap_ok env_ok T s ks" "M = view_of (base_address s) (lives 0 ks)"
      using h unfolding client_ok_def by blast
    obtain r' s'' ks' where st: "step_ok ops env_ok T c s ks call r' s'' ks'"
      using step_legal [OF ks(1)] history_call(2) ks(2) by blast
    then have "run_call ops c s call = Some (r', s'')" by (simp add: step_ok_def Let_def)
    then have "r' = r" "s'' = s'" using history_call(3) by simp_all
    then show ?thesis using go [OF ks(1)] st history_call.IH by simp
  qed
next
  case (history_store s M p k i w)
  have h: "client_ok env_init env_ok T s M" by (rule history_ok [OF history_store(1)])
  obtain ks y where ks: "heap_ok env_ok T s ks" "p = data_ptr (base_address s) y" "lives 0 ks y = Some (Suc k)"
    using client_ok_live [OF h history_store(2)] by blast
  note inv = heap_ok_inv [OF ks(1)]
  have o: "32 * T \<le> unat (x - base_address s)" using ks(1) out by (auto simp: heap_ok_def)
  have "mem (s\<lparr>mem := (mem s)(address p + of_nat i \<mapsto> w)\<rparr>) x = mem s x"
    using inside_outside [OF store_heap_ok(2) [OF inv ks(3) history_store(3), of w] heap_invD(1,2) [OF inv] o] unfolding ks(2) .
  then show ?case using history_store.IH by simp
qed

end

section \<open>A given array\<close>

definition array_start_at :: "usize \<Rightarrow> u64 \<Rightarrow> memory \<Rightarrow> ArrayPointer \<Rightarrow> memory \<Rightarrow> bool" where
  "array_start_at SIZE a m0 e m \<longleftrightarrow> array_ready SIZE e m \<and> array e = a \<and> m = m0"

definition array_ok_at :: "usize \<Rightarrow> u64 \<Rightarrow> ArrayPointer \<Rightarrow> memory \<Rightarrow> u64 \<Rightarrow> bool" where
  "array_ok_at SIZE a e m b \<longleftrightarrow> array_ok SIZE e m b \<and> array e = a"

interpretation array_at: still_env "ArrayPointer_env SIZE" "array_start_at SIZE a m0" "array_ok_at SIZE a" "space SIZE"
  for SIZE a m0
proof (unfold_locales, goal_cases)
  case 1
  then show ?case by (rule array.total_space_ok)
next
  case 2
  then show ?case using array.env_ok_region unfolding array_ok_at_def by blast
next
  case 3
  then show ?case using array.env_ok_dom unfolding array_ok_at_def by blast
next
  case (4 e m)
  then have "a \<noteq> 0" using region_okD(4) unfolding array_start_at_def array_ready_def array_ok_def by blast
  then show ?case using 4 by (auto simp: ArrayPointer_defs array_start_at_def array_ok_at_def array_ready_def)
next
  case (5 e m b n)
  then show ?case using array_expand [of SIZE e m b n] unfolding array_ok_at_def by (simp add: ArrayPointer_defs)
next
  case 6
  then show ?case using array.free_ok unfolding array_ok_at_def by blast
qed (simp_all add: ArrayPointer_defs)

lemma array_confined:
  assumes "history (ArrayPointer_env SIZE) (array_start_at SIZE a m0) c s M" "32 * space SIZE \<le> unat (x - a)"
  shows "mem s x = m0 x"
  using assms(1)
proof (rule array_at.history_outside)
  show "m x = m0 x" if "array_start_at SIZE a m0 e m" for e m using that by (simp add: array_start_at_def)
  show "32 * space SIZE \<le> unat (x - b)" if "array_ok_at SIZE a e m b" for e m b
    using that assms(2) by (simp add: array_ok_at_def array_ok_def)
qed

end
