(* ===== verification/Fuzzing.thy ===== *)
theory Fuzzing
  imports Global_Alloc Generous "HOL-Library.Multiset"
begin

text \<open>
  The fuzz targets \<^verbatim>\<open>fuzz/fuzz_targets/allocator_buffer.rs\<close> and \<^verbatim>\<open>allocator_system.rs\<close>: harnesses that run a list
  of operations against an allocator, fill every allocation with pseudo-random bytes and check them on every
  later use. A failed assertion of a harness is \<^const>\<open>None\<close>, as a panic of the allocator is. The random number
  generator \<^verbatim>\<open>oorandom::Rand64\<close> is a parameter of which nothing is assumed.
\<close>

section \<open>The standard library\<close>

definition next_power_of_two :: "build \<Rightarrow> usize \<Rightarrow> usize option" where
  "next_power_of_two c n = add_chk c (if n \<le> 1 then 0 else shr (- 1) (leading_zeros (n - 1))) 1"

definition swap_remove :: "'a list \<Rightarrow> nat \<Rightarrow> ('a \<times> 'a list) option" where
  "swap_remove xs i = (if i < length xs then Some (xs ! i, butlast (xs[i := last xs])) else None)"

definition assert_that :: "bool \<Rightarrow> unit option" where
  "assert_that b = (if b then Some () else None)"

lemma assert_that_True [simp]: "assert_that True = Some ()"
  by (simp add: assert_that_def)

definition resize :: "nat \<Rightarrow> 'a \<Rightarrow> 'a list \<Rightarrow> 'a list" where
  "resize n v xs = take n xs @ replicate (n - length xs) v"

lemma swap_remove_mset:
  assumes "swap_remove xs i = Some (x, ys)"
  shows "mset xs = add_mset x (mset ys)" "i < length xs \<and> x = xs ! i"
proof -
  have i: "i < length xs" "x = xs ! i" "ys = butlast (xs[i := last xs])"
    using assms by (auto simp: swap_remove_def split: if_splits)
  show "i < length xs \<and> x = xs ! i" using i by simp
  obtain zs z where xs: "xs = zs @ [z]" using i(1) by (cases xs rule: rev_cases) auto
  show "mset xs = add_mset x (mset ys)"
  proof (cases "i = length zs")
    case True
    then have "x = z" "ys = zs" using i xs by simp_all
    then show ?thesis unfolding xs by simp
  next
    case False
    then have il: "i < length zs" using i(1) xs by simp
    then have ys: "ys = zs[i := z]" "x = zs ! i" using i xs by (simp_all add: list_update_append nth_append)
    have "mset zs = add_mset x (mset zs - {# x #})" using il ys(2) by simp
    then show ?thesis using il ys xs by (simp add: mset_update)
  qed
qed

lemma next_power_of_two_ok:
  assumes n: "n < 2 ^ 63"
  obtains w where "next_power_of_two c n = Some w" "is_power_of_two w" "n \<le> w" "unat w \<le> max 1 (2 * unat n)"
proof (cases "n \<le> 1")
  case True
  have "is_power_of_two (1 :: usize)" unfolding is_power_of_two_iff by (intro exI [of _ 0]) simp
  then show ?thesis using that [of 1] True by (simp add: next_power_of_two_def add_chk_def)
next
  case False
  define k where "k = log2 (unat (n - 1))"
  have "n \<noteq> 0" using False by auto
  then have un: "unat (n - 1) = unat n - 1" "1 < unat n" "unat n < 2 ^ 63"
    using False n by (simp_all add: unat_minus_one word_less_nat_alt word_le_nat_alt not_le)
  have nz: "0 < unat (n - 1)" using un by simp
  have b: "2 ^ k \<le> unat (n - 1)" "unat (n - 1) < 2 ^ Suc k" using log2_bounds [OF nz] by (simp_all add: k_def)
  have "(2 :: nat) ^ k < 2 ^ 63" using b(1) un by simp
  then have k: "k < 63" by (rule power_less_imp_less_exp [rotated]) simp
  have lz: "unat (leading_zeros (n - 1)) = 63 - k"
    using leading_zeros_eqI [of k "n - 1"] b k by simp
  have "shr (- 1 :: usize) (leading_zeros (n - 1)) = mask (Suc k)"
    unfolding shr_def lz using k by (intro bit_word_eqI) (auto simp: bit_simps)
  moreover have le: "(2 :: nat) ^ Suc k \<le> 2 ^ 63" using k by (intro power_increasing) simp_all
  moreover have "unat (mask (Suc k) :: usize) = 2 ^ Suc k - 1"
  proof -
    have "mask (Suc k) = (of_nat (2 ^ Suc k - 1) :: usize)" by (simp add: mask_eq_exp_minus_1 of_nat_diff)
    then show ?thesis using le by (simp add: unat_of_nat_small del: of_nat_diff)
  qed
  ultimately have w: "next_power_of_two c n = Some (mask (Suc k) + 1)" "unat (mask (Suc k) + 1 :: usize) = 2 ^ Suc k"
    using False by (simp_all add: next_power_of_two_def add_chk_def unat_add_small)
  have "is_power_of_two (mask (Suc k) + 1 :: usize)" unfolding is_power_of_two_iff w(2) using k by (intro exI [of _ "Suc k"]) simp
  moreover have "unat n \<le> 2 ^ Suc k" "2 ^ Suc k \<le> 2 * unat n" using b un by simp_all
  ultimately show ?thesis using that [OF w(1)] unfolding word_le_nat_alt w(2) by simp
qed

section \<open>Filling a slice\<close>

record 'r Rand64 =
  Rand64_new :: "128 word \<Rightarrow> 'r"
  rand_u64 :: "'r \<Rightarrow> u64 \<times> 'r"

fun fill_bytes :: "'r Rand64 \<Rightarrow> 'r \<Rightarrow> nat \<Rightarrow> u8 list" where
  "fill_bytes R rng 0 = []"
| "fill_bytes R rng (Suc n) = (let (w, rng) = rand_u64 R rng in ucast w # fill_bytes R rng n)"

function fill_words :: "'r Rand64 \<Rightarrow> 'r \<Rightarrow> nat \<Rightarrow> u8 list" where
  "fill_words R rng n =
     (if 8 < n then (let (w, rng) = rand_u64 R rng in to_le 8 w @ fill_words R rng (n - 8)) else fill_bytes R rng n)"
  by pat_completeness auto

termination by (relation "measure (\<lambda>(R, rng, n). n)") auto

declare fill_words.simps [simp del]

text \<open>\<open>n\<close> is the number of bytes left from \<^verbatim>\<open>offset\<close> on; all of the slice is overwritten.\<close>

definition fill_slice :: "'r Rand64 \<Rightarrow> 128 word \<Rightarrow> nat \<Rightarrow> u8 list" where
  "fill_slice R seed n = fill_words R (Rand64_new R seed) n"

lemma length_fill_bytes [simp]: "length (fill_bytes R rng n) = n"
  by (induction R rng n rule: fill_bytes.induct) (auto split: prod.split)

lemma length_fill_words: "length (fill_words R rng n) = n"
proof (induction R rng n rule: fill_words.induct)
  case (1 R rng n)
  then show ?case by (subst fill_words.simps) (auto split: prod.split)
qed

lemma length_fill_slice [simp]: "length (fill_slice R seed n) = n"
  by (simp add: fill_slice_def length_fill_words)

section \<open>The harness\<close>

datatype Op = Op_Alloc "16 word" "16 word" | Op_Free usize | Op_Shrink usize "16 word" | Op_Grow usize "16 word"

text \<open>The allocator, the allocations with the data they must hold, and the set of their addresses.\<close>

record 'e harness =
  heap :: "'e machine"
  allocations :: "(Pointer \<times> u8 list) list"
  alive_addresses :: "Pointer set"

definition check_data :: "memory \<Rightarrow> Pointer \<times> u8 list \<Rightarrow> unit option" where
  "check_data m a = do {
     slice \<leftarrow> load_bytes m (address (fst a)) (length (snd a));
     assert_that (slice = snd a)
   }"

text \<open>What both targets do with a pointer they got: \<open>z\<close> tells whether it must be zeroed.\<close>

definition take_allocation ::
    "'r Rand64 \<Rightarrow> build \<Rightarrow> bool \<Rightarrow> 'e harness \<Rightarrow> 'e machine \<Rightarrow> Pointer \<Rightarrow> usize \<Rightarrow> usize \<Rightarrow> 'e harness option" where
  "take_allocation R c z h s pointer align n = do {
     assert_that (address pointer mod align = 0);
     usable \<leftarrow> usable_size c (mem s) pointer;
     assert_that (n \<le> usable);
     slice \<leftarrow> load_bytes (mem s) (address pointer) (unat usable);
     assert_that (z \<longrightarrow> (\<forall>byte \<in> set slice. byte = 0));
     m \<leftarrow> store_bytes (mem s) (address pointer) (fill_slice R (ucast (address pointer)) (unat usable));
     data \<leftarrow> load_bytes m (address pointer) (unat usable);
     Some (h\<lparr>heap := s\<lparr>mem := m\<rparr>, allocations := allocations h @ [(pointer, data)],
       alive_addresses := insert pointer (alive_addresses h)\<rparr>)
   }"

definition fuzz_alloc ::
    "'r Rand64 \<Rightarrow> 'e env_ops \<Rightarrow> build \<Rightarrow> 'e harness \<Rightarrow> 16 word \<Rightarrow> 16 word \<Rightarrow> 'e harness option" where
  "fuzz_alloc R ops c h align_arg size_arg = do {
     power \<leftarrow> next_power_of_two c (ucast align_arg);
     let align = max 1 power;
     let n = max 1 (ucast size_arg);
     align_units \<leftarrow> from_bytes_usize align;
     size_units \<leftarrow> from_bytes_usize n;
     (r, s) \<leftarrow> alloc_zeroed ops c (heap h) align_units size_units;
     (case r of
        None \<Rightarrow> Some (h\<lparr>heap := s\<rparr>)
      | Some pointer \<Rightarrow> take_allocation R c True h s pointer align n)
   }"

definition fuzz_free :: "'e env_ops \<Rightarrow> build \<Rightarrow> 'e harness \<Rightarrow> usize \<Rightarrow> 'e harness option" where
  "fuzz_free ops c h idx =
     (if allocations h = [] then Some h
      else do {
        (a, rest) \<leftarrow> swap_remove (allocations h) (unat idx mod length (allocations h));
        assert_that (fst a \<in> alive_addresses h);
        check_data (mem (heap h)) a;
        s \<leftarrow> free ops c (heap h) (fst a);
        Some (h\<lparr>heap := s, allocations := rest, alive_addresses := alive_addresses h - {fst a}\<rparr>)
      })"

definition fuzz_shrink ::
    "'e env_ops \<Rightarrow> build \<Rightarrow> 'e harness \<Rightarrow> usize \<Rightarrow> 16 word \<Rightarrow> 'e harness option" where
  "fuzz_shrink ops c h idx size_arg = do {
     n \<leftarrow> add_chk c (ucast size_arg) 1;
     size_units \<leftarrow> from_bytes_usize n;
     (if allocations h = [] then Some h
      else do {
        let i = unat idx mod length (allocations h);
        let a = allocations h ! i;
        check_data (mem (heap h)) a;
        let a' = (fst a, take (unat (bytes size_units)) (snd a));
        s \<leftarrow> shrink_inplace ops c (heap h) (fst a) size_units;
        check_data (mem s) a';
        Some (h\<lparr>heap := s, allocations := (allocations h)[i := a']\<rparr>)
      })
   }"

definition fuzz_grow ::
    "'r Rand64 \<Rightarrow> 'e env_ops \<Rightarrow> build \<Rightarrow> 'e harness \<Rightarrow> usize \<Rightarrow> 16 word \<Rightarrow> 'e harness option" where
  "fuzz_grow R ops c h idx size_arg = do {
     n \<leftarrow> add_chk c (ucast size_arg) 1;
     size_units \<leftarrow> from_bytes_usize n;
     (if allocations h = [] then Some h
      else do {
        let i = unat idx mod length (allocations h);
        let (pointer, data) = allocations h ! i;
        (r, s) \<leftarrow> grow_inplace ops c (heap h) pointer size_units;
        (case r of
           None \<Rightarrow> Some (h\<lparr>heap := s\<rparr>)
         | Some new_units \<Rightarrow>
             let old_size = length data; new_size = unat (bytes new_units) in
             if old_size = new_size then Some (h\<lparr>heap := s\<rparr>)
             else do {
               assert_that (old_size \<le> new_size);
               let expected = fill_slice R (ucast (address pointer XOR 0b10101010)) (new_size - old_size);
               let data' = take old_size (resize new_size 0 data) @ expected;
               m \<leftarrow> store_bytes (mem s) (address pointer + of_nat old_size) expected;
               check_data m (pointer, data');
               Some (h\<lparr>heap := s\<lparr>mem := m\<rparr>, allocations := (allocations h)[i := (pointer, data')]\<rparr>)
             })
      })
   }"

fun fuzz_step :: "'r Rand64 \<Rightarrow> 'e env_ops \<Rightarrow> build \<Rightarrow> 'e harness \<Rightarrow> Op \<Rightarrow> 'e harness option" where
  "fuzz_step R ops c h (Op_Alloc align size_arg) = fuzz_alloc R ops c h align size_arg"
| "fuzz_step R ops c h (Op_Free idx) = fuzz_free ops c h idx"
| "fuzz_step R ops c h (Op_Shrink idx size_arg) = fuzz_shrink ops c h idx size_arg"
| "fuzz_step R ops c h (Op_Grow idx size_arg) = fuzz_grow R ops c h idx size_arg"

fun fuzz_run :: "'r Rand64 \<Rightarrow> 'e env_ops \<Rightarrow> build \<Rightarrow> 'e harness \<Rightarrow> Op list \<Rightarrow> 'e harness option" where
  "fuzz_run R ops c h [] = Some h"
| "fuzz_run R ops c h (operation # operations) = do {
     h \<leftarrow> fuzz_step R ops c h operation;
     fuzz_run R ops c h operations
   }"

definition new_harness :: "'e \<Rightarrow> memory \<Rightarrow> 'e harness" where
  "new_harness e m = \<lparr>heap = Allocator_new e m, allocations = [], alive_addresses = {}\<rparr>"

section \<open>Writing to an allocation\<close>

lemma data_range: "sound_pointer m p k \<Longrightarrow> i \<le> 32 * k \<Longrightarrow> unat (address p + of_nat i) = unat (address p) + i"
  unfolding sound_pointer_def by (simp add: unat_add_small unat_of_nat_small)

lemma load_data:
  "load_bytes m (address p) n = Some d \<longleftrightarrow> length d = n \<and> (\<forall>i < n. data_byte m p i = Some (d ! i))"
proof
  assume "load_bytes m (address p) n = Some d"
  then show "length d = n \<and> (\<forall>i < n. data_byte m p i = Some (d ! i))"
    unfolding load_bytes_eq data_byte_def by (auto split: if_splits)
next
  assume a: "length d = n \<and> (\<forall>i < n. data_byte m p i = Some (d ! i))"
  then have "map (\<lambda>i. the (m (address p + of_nat i))) [0..<n] = d" by (intro nth_equalityI) (auto simp: data_byte_def)
  then show "load_bytes m (address p) n = Some d" using a unfolding load_bytes_eq data_byte_def by auto
qed

text \<open>The bytes of an allocation are not among those of another, so a write to it is seen nowhere else.\<close>

definition wrote :: "view \<Rightarrow> Pointer \<Rightarrow> nat \<Rightarrow> u8 list \<Rightarrow> memory \<Rightarrow> memory \<Rightarrow> bool" where
  "wrote M p off bs m m' \<longleftrightarrow>
     (\<forall>q k i. M q = Some k \<longrightarrow> i < 32 * k \<longrightarrow> data_byte m' q i =
        (if q = p \<and> off \<le> i \<and> i < off + length bs then Some (bs ! (i - off)) else data_byte m q i))"

context env_contract
begin

lemma wrote_byte:
  assumes h: "client_ok env_init env_ok T s M" and p: "M p = Some k" "i < 32 * k"
  shows "wrote M p i [v] (mem s) ((mem s)(address p + of_nat i \<mapsto> v))"
  unfolding wrote_def
proof (intro allI impI)
  fix q l j
  assume q: "M q = Some l" "j < 32 * l"
  have u: "unat (address p + of_nat i) = unat (address p) + i" "unat (address q + of_nat j) = unat (address q) + j"
    using data_range [OF live_sound(1) [OF h p(1)], of i] data_range [OF live_sound(1) [OF h q(1)], of j] p(2) q(2) by simp_all
  have "q = p" if e: "address q + of_nat j = address p + of_nat i"
  proof (rule ccontr)
    assume "q \<noteq> p"
    then have "separate p k q l" using live_separate [OF h p(1) q(1)] by simp
    moreover have "unat (address q) + j = unat (address p) + i" using u e by simp
    ultimately show False using p(2) q(2) unfolding separate_def by linarith
  qed
  then have "address q + of_nat j = address p + of_nat i \<longleftrightarrow> q = p \<and> j = i" using u by auto
  then show "data_byte ((mem s)(address p + of_nat i \<mapsto> v)) q j =
      (if q = p \<and> i \<le> j \<and> j < i + length [v] then Some ([v] ! (j - i)) else data_byte (mem s) q j)"
    unfolding data_byte_def by auto
qed

lemma history_store_bytes:
  assumes "history ops env_init c s M" "M p = Some k" "off + length bs \<le> 32 * k"
  shows "\<exists>m. store_bytes (mem s) (address p + of_nat off) bs = Some m \<and>
    history ops env_init c (s\<lparr>mem := m\<rparr>) M \<and> wrote M p off bs (mem s) m"
  using assms
proof (induction bs arbitrary: s off)
  case Nil
  have "wrote M p off [] (mem s) (mem s)" unfolding wrote_def by auto
  then show ?case using Nil by simp
next
  case (Cons b bs)
  have off: "off < 32 * k" "Suc off + length bs \<le> 32 * k" using Cons.prems(3) by simp_all
  let ?m = "(mem s)(address p + of_nat off \<mapsto> b)"
  have ok: "client_ok env_init env_ok T s M" by (rule history_ok [OF Cons.prems(1)])
  have mapped: "mem s (address p + of_nat off) \<noteq> None"
    using live_sound(1) [OF ok Cons.prems(2)] off(1) unfolding sound_pointer_def data_byte_def by blast
  have h: "history ops env_init c (s\<lparr>mem := ?m\<rparr>) M" by (rule history_store [OF Cons.prems(1,2) off(1)])
  have eqs: "mem (s\<lparr>mem := ?m\<rparr>) = ?m" "s\<lparr>mem := ?m, mem := m\<rparr> = s\<lparr>mem := m\<rparr>" for m by simp_all
  obtain m where m: "store_bytes ?m (address p + of_nat (Suc off)) bs = Some m"
    "history ops env_init c (s\<lparr>mem := m\<rparr>) M" "wrote M p (Suc off) bs ?m m"
    using Cons.IH [OF h Cons.prems(2) off(2)] unfolding eqs by blast
  have "store_bytes (mem s) (address p + of_nat off) (b # bs) = Some m"
    using mapped m(1) by (auto simp: algebra_simps)
  moreover have "wrote M p off (b # bs) (mem s) m"
    using m(3) wrote_byte [OF ok Cons.prems(2) off(1), of b] unfolding wrote_def
    by (auto simp: nth_Cons' Suc_le_eq)
  ultimately show ?case using m(2) by blast
qed

end

section \<open>The invariant of the harness\<close>

text \<open>The live allocations are those of the harness, and their memory holds the recorded data.\<close>

definition recorded :: "view \<Rightarrow> memory \<Rightarrow> Pointer \<times> u8 list \<Rightarrow> bool" where
  "recorded M m a \<longleftrightarrow> (\<exists>k. M (fst a) = Some k \<and> length (snd a) = 32 * k \<and>
     (\<forall>i < 32 * k. data_byte m (fst a) i = Some (snd a ! i)))"

definition harness_ok :: "'e env_ops \<Rightarrow> ('e \<Rightarrow> memory \<Rightarrow> bool) \<Rightarrow> build \<Rightarrow> 'e harness \<Rightarrow> view \<Rightarrow> bool" where
  "harness_ok ops env_init c h M \<longleftrightarrow> history ops env_init c (heap h) M \<and>
     distinct (map fst (allocations h)) \<and> alive_addresses h = fst ` set (allocations h) \<and> dom M = alive_addresses h \<and>
     (\<forall>a \<in> set (allocations h). recorded M (mem (heap h)) a)"

lemma recorded_check: "recorded M m a \<Longrightarrow> check_data m a = Some ()"
proof -
  assume "recorded M m a"
  then have "load_bytes m (address (fst a)) (length (snd a)) = Some (snd a)" unfolding recorded_def load_data by auto
  then show ?thesis by (simp add: check_data_def)
qed

lemma recorded_kept:
  assumes "recorded M m a" "contents_kept L M' m m'" "L (fst a) = M (fst a)" "M' (fst a) = M (fst a)"
  shows "recorded M' m' a"
  using assms unfolding recorded_def contents_kept_def by fastforce

lemma recorded_wrote:
  assumes "recorded M m a" "wrote M p off bs m m'" "fst a \<noteq> p"
  shows "recorded M m' a"
  using assms unfolding recorded_def wrote_def by auto

lemma recorded_written: "M p = Some k \<Longrightarrow> length bs = 32 * k \<Longrightarrow> wrote M p 0 bs m m' \<Longrightarrow> recorded M m' (p, bs)"
  unfolding recorded_def wrote_def by auto

lemma set_list_update:
  assumes "distinct (map fst xs)" "i < length xs" "a \<in> set (xs[i := b])"
  shows "a = b \<or> a \<in> set xs \<and> fst a \<noteq> fst (xs ! i)"
proof -
  obtain j where j: "j < length xs" "a = (xs[i := b]) ! j" using assms(3) by (metis in_set_conv_nth length_list_update)
  have "fst (xs ! j) \<noteq> fst (xs ! i)" if "j \<noteq> i"
    using assms(1,2) j(1) that by (metis distinct_conv_nth length_map nth_map)
  then show ?thesis using j by (cases "j = i") auto
qed

lemma update_fst: "fst b = fst (xs ! i) \<Longrightarrow> map fst (xs[i := b]) = map fst xs"
  by (simp add: map_update list_update_same_conv) (metis list_update_id map_update)

context env_contract
begin

lemma take_allocation_ok:
  assumes h: "harness_ok ops env_init c h M" and p: "M p = None"
    and s: "history ops env_init c s (M(p \<mapsto> k))" "contents_kept M (M(p \<mapsto> k)) (mem (heap h)) (mem s)"
    and a: "address p mod align = 0" "unat n \<le> 32 * k" "z \<longrightarrow> (\<forall>i < 32 * k. data_byte (mem s) p i = Some 0)"
  shows "\<exists>h'. take_allocation R c z h s p align n = Some h' \<and> harness_ok ops env_init c h' (M(p \<mapsto> k))"
proof -
  let ?M = "M(p \<mapsto> k)" and ?u = "of_nat (32 * k) :: usize"
  have Mp: "?M p = Some k" by simp
  note snd = live_sound [OF history_ok [OF s(1)] Mp]
  have u: "unat ?u = 32 * k" using snd(1) by (intro unat_of_nat_small) (simp add: sound_pointer_def)
  obtain bs where bs: "load_bytes (mem s) (address p) (32 * k) = Some bs"
    using snd(1) unfolding load_bytes_eq sound_pointer_def data_byte_def by auto
  have zero: "byte = 0" if "z" "byte \<in> set bs" for byte
    using bs a(3) that unfolding load_data by (auto simp: in_set_conv_nth)
  define d where "d = fill_slice R (ucast (address p)) (32 * k)"
  have d: "0 + length d \<le> 32 * k" "length d = 32 * k" by (simp_all add: d_def)
  obtain m where m: "store_bytes (mem s) (address p) d = Some m" "history ops env_init c (s\<lparr>mem := m\<rparr>) ?M" "wrote ?M p 0 d (mem s) m"
    using history_store_bytes [OF s(1) Mp d(1)] by (auto simp del: fun_upd_apply)
  have r: "recorded ?M m (p, d)" by (rule recorded_written [OF Mp d(2) m(3)])
  then have ld: "load_bytes m (address p) (32 * k) = Some d" unfolding load_data recorded_def by simp
  let ?h = "h\<lparr>heap := s\<lparr>mem := m\<rparr>, allocations := allocations h @ [(p, d)], alive_addresses := insert p (alive_addresses h)\<rparr>"
  have "n \<le> ?u" unfolding word_le_nat_alt u by (rule a(2))
  then have "take_allocation R c z h s p align n = Some ?h"
    using a(1) zero bs m(1) ld by (simp add: take_allocation_def snd(2) u d_def [symmetric] del: of_nat_mult)
  moreover have other: "fst b \<noteq> p" if "b \<in> set (allocations h)" for b
    using h p that unfolding harness_ok_def recorded_def by auto
  moreover have "recorded ?M m b" if "b \<in> set (allocations h)" for b
  proof -
    have "recorded ?M (mem s) b"
      by (rule recorded_kept [OF _ s(2)]) (use h other [OF that] that in \<open>simp_all add: harness_ok_def\<close>)
    then show ?thesis using recorded_wrote [OF _ m(3) other [OF that]] by simp
  qed
  then have "harness_ok ops env_init c ?h ?M"
    using h m(2) r other unfolding harness_ok_def by auto
  ultimately show ?thesis by blast
qed

lemma fuzz_free_ok:
  assumes h: "harness_ok ops env_init c h M"
  shows "\<exists>h' M'. fuzz_free ops c h idx = Some h' \<and> harness_ok ops env_init c h' M'"
proof (cases "allocations h = []")
  case True
  then show ?thesis using h by (auto simp: fuzz_free_def)
next
  case False
  let ?i = "unat idx mod length (allocations h)"
  have "?i < length (allocations h)" using False by simp
  then obtain a rest where a: "swap_remove (allocations h) ?i = Some (a, rest)" by (auto simp: swap_remove_def)
  note ms = swap_remove_mset(1) [OF a]
  have set: "set (allocations h) = insert a (set rest)" using arg_cong [OF ms, of set_mset] by simp
  have "mset (map fst (allocations h)) = mset (fst a # map fst rest)" using ms by simp
  then have dist: "distinct (fst a # map fst rest)" using h mset_eq_imp_distinct_iff unfolding harness_ok_def by blast
  have ra: "recorded M (mem (heap h)) a" "fst a \<in> alive_addresses h" using h set by (simp_all add: harness_ok_def)
  obtain k where k: "M (fst a) = Some k" using ra(1) unfolding recorded_def by blast
  have l: "legal c M (Free (fst a))" using k by simp
  have hist: "history ops env_init c (heap h) M" using h by (simp add: harness_ok_def)
  obtain s where s: "free ops c (heap h) (fst a) = Some s" "history ops env_init c s (M(fst a := None))"
    "contents_kept M (M(fst a := None)) (mem (heap h)) (mem s)"
    using client_step [OF history_ok [OF hist] l] history_call [OF hist l] by fastforce
  have "recorded (M(fst a := None)) (mem s) b" if "b \<in> set rest" for b
  proof (rule recorded_kept [OF _ s(3)])
    show "recorded M (mem (heap h)) b" using h set that by (simp add: harness_ok_def)
    have "fst b \<noteq> fst a" using dist imageI [OF that, of fst] by (metis distinct.simps(2) list.set_map)
    then show "(M(fst a := None)) (fst b) = M (fst b)" by simp
  qed simp
  moreover have "fst ` set (allocations h) - {fst a} = fst ` set rest" using set dist by force
  ultimately have "harness_ok ops env_init c (h\<lparr>heap := s, allocations := rest, alive_addresses := alive_addresses h - {fst a}\<rparr>) (M(fst a := None))"
    using s(2) dist h by (simp add: harness_ok_def)
  moreover have "fuzz_free ops c h idx = Some (h\<lparr>heap := s, allocations := rest, alive_addresses := alive_addresses h - {fst a}\<rparr>)"
    using False a ra(2) recorded_check [OF ra(1)] s(1) by (simp add: fuzz_free_def)
  ultimately show ?thesis by blast
qed

lemma fuzz_size:
  fixes w :: "16 word"
  shows "\<exists>n. add_chk c (ucast w :: usize) 1 = Some n \<and> (\<exists>s. from_bytes_usize n = Some s \<and> 0 < units s \<and> units s \<le> 2048)"
proof -
  have w: "unat (ucast w :: usize) < 2 ^ 16" using unsigned_less [where ?'a = nat, of w] by (simp add: unat_ucast_up)
  then have n: "unat (ucast w + 1 :: usize) = unat (ucast w :: usize) + 1" by (simp add: unat_add_small)
  let ?n = "ucast w + 1 :: usize" and ?s = "sz ((unat (ucast w + 1 :: usize) + 31) div 32)"
  have d: "(unat ?n + 31) div 32 \<le> 2048" "0 < (unat ?n + 31) div 32" using w n by simp_all
  have "add_chk c (ucast w :: usize) 1 = Some ?n" using w by (simp add: add_chk_def)
  moreover have "from_bytes_usize ?n = Some ?s" unfolding from_bytes_usize_eq using w n by simp
  moreover have "units ?s = (unat ?n + 31) div 32" using d(1) by (intro units_sz) simp
  ultimately show ?thesis using d by auto
qed

lemma fuzz_entry:
  assumes h: "harness_ok ops env_init c h M" and i: "i < length (allocations h)"
  obtains k where "M (fst (allocations h ! i)) = Some k" "length (snd (allocations h ! i)) = 32 * k"
    "recorded M (mem (heap h)) (allocations h ! i)" "k < 2 ^ 27"
    "\<And>j. j < 32 * k \<Longrightarrow> data_byte (mem (heap h)) (fst (allocations h ! i)) j = Some (snd (allocations h ! i) ! j)"
proof -
  have r: "recorded M (mem (heap h)) (allocations h ! i)" using h i by (simp add: harness_ok_def)
  then obtain k where k: "M (fst (allocations h ! i)) = Some k" "length (snd (allocations h ! i)) = 32 * k"
    "\<forall>j < 32 * k. data_byte (mem (heap h)) (fst (allocations h ! i)) j = Some (snd (allocations h ! i) ! j)"
    unfolding recorded_def by blast
  have hist: "history ops env_init c (heap h) M" using h by (simp add: harness_ok_def)
  obtain ks x where ks: "heap_ok env_ok T (heap h) ks" "lives 0 ks x = Some (Suc k)"
    using client_ok_live [OF history_ok [OF hist] k(1)] by blast
  then have "k < 2 ^ 27" using live_split [OF heap_ok_inv [OF ks(1)] ks(2)] by (metis Suc_lessD)
  then show thesis using that k r by blast
qed

text \<open>Replacing one entry after a call that kept the others.\<close>

lemma harness_update:
  assumes h: "harness_ok ops env_init c h M" and i: "i < length (allocations h)" and b: "fst b = fst (allocations h ! i)"
    and s: "history ops env_init c s M'" "recorded M' (mem s) b"
    and o: "\<And>a. a \<in> set (allocations h) \<Longrightarrow> fst a \<noteq> fst b \<Longrightarrow> recorded M' (mem s) a" and M': "dom M' = dom M"
  shows "harness_ok ops env_init c (h\<lparr>heap := s, allocations := (allocations h)[i := b]\<rparr>) M'"
proof -
  have d: "distinct (map fst (allocations h))" using h by (simp add: harness_ok_def)
  have "recorded M' (mem s) a" if "a \<in> set ((allocations h)[i := b])" for a
    using set_list_update [OF d i that] s(2) o b by metis
  moreover have f: "map fst ((allocations h)[i := b]) = map fst (allocations h)" by (rule update_fst [OF b])
  moreover have "fst ` set ((allocations h)[i := b]) = fst ` set (allocations h)" using f by (metis list.set_map)
  ultimately show ?thesis using h s(1) d M' by (simp add: harness_ok_def)
qed

lemma harness_failed:
  assumes "harness_ok ops env_init c h M" "history ops env_init c s M" "contents_kept M M (mem (heap h)) (mem s)"
  shows "harness_ok ops env_init c (h\<lparr>heap := s\<rparr>) M"
proof -
  have "recorded M (mem s) a" if "a \<in> set (allocations h)" for a
    by (rule recorded_kept [OF _ assms(3)]) (use assms(1) that in \<open>simp_all add: harness_ok_def\<close>)
  then show ?thesis using assms by (simp add: harness_ok_def)
qed

lemma fuzz_shrink_ok:
  assumes h: "harness_ok ops env_init c h M"
  shows "\<exists>h' M'. fuzz_shrink ops c h idx w = Some h' \<and> harness_ok ops env_init c h' M'"
proof -
  obtain n q where n: "add_chk c (ucast w) 1 = Some n" "from_bytes_usize n = Some q" "0 < units q" "units q \<le> 2048"
    using fuzz_size by blast
  show ?thesis
  proof (cases "allocations h = []")
    case True
    then show ?thesis using h n by (auto simp: fuzz_shrink_def)
  next
    case False
    define i where "i = unat idx mod length (allocations h)"
    have i: "i < length (allocations h)" using False by (simp add: i_def)
    obtain p d where pd: "allocations h ! i = (p, d)" by (cases "allocations h ! i")
    obtain k where k: "M p = Some k" "length d = 32 * k" "recorded M (mem (heap h)) (p, d)" "k < 2 ^ 27"
      "\<And>j. j < 32 * k \<Longrightarrow> data_byte (mem (heap h)) p j = Some (d ! j)"
      using fuzz_entry [OF h i] unfolding pd by auto
    have "raw_units q \<noteq> - 1" using n(4) by (auto simp: units_def unsigned_minus_1_eq_mask mask_eq_exp_minus_1)
    then have l: "legal c M (Shrink_inplace p q)" using k(1) by simp
    have hist: "history ops env_init c (heap h) M" using h by (simp add: harness_ok_def)
    let ?M = "M(p \<mapsto> min k (units q))"
    have v: "view_after M (Shrink_inplace p q) r = ?M" for r using n(3) k(1) by simp
    obtain s where s: "shrink_inplace ops c (heap h) p q = Some s" "history ops env_init c s ?M"
      "contents_kept M ?M (mem (heap h)) (mem s)"
      using client_step [OF history_ok [OF hist] l] history_call [OF hist l] unfolding v by fastforce
    have u: "unat (bytes q) = 32 * units q" using n(4) by (simp add: unat_bytes_small)
    let ?a = "(p, take (unat (bytes q)) d)"
    have "data_byte (mem s) p j = Some (d ! j)" if j: "j < 32 * min k (units q)" for j
      using s(3) k(1) j k(5) [of j] unfolding contents_kept_def by auto
    then have r: "recorded ?M (mem s) ?a" using k(2) unfolding recorded_def u by (intro exI [of _ "min k (units q)"]) auto
    have o: "recorded ?M (mem s) a" if "a \<in> set (allocations h)" "fst a \<noteq> fst ?a" for a
      by (rule recorded_kept [OF _ s(3)]) (use h that in \<open>simp_all add: harness_ok_def\<close>)
    have "harness_ok ops env_init c (h\<lparr>heap := s, allocations := (allocations h)[i := ?a]\<rparr>) ?M"
      by (rule harness_update [OF h i _ s(2) r o]) (use k(1) in \<open>simp_all add: pd insert_absorb domI\<close>)
    moreover have "fuzz_shrink ops c h idx w = Some (h\<lparr>heap := s, allocations := (allocations h)[i := ?a]\<rparr>)"
      using False recorded_check [OF k(3)] recorded_check [OF r] s(1)
      by (simp add: fuzz_shrink_def n(1,2) i_def [symmetric] pd Let_def)
    ultimately show ?thesis by blast
  qed
qed

lemma fuzz_grow_ok:
  assumes h: "harness_ok ops env_init c h M"
  shows "\<exists>h' M'. fuzz_grow R ops c h idx w = Some h' \<and> harness_ok ops env_init c h' M'"
proof -
  obtain n q where n: "add_chk c (ucast w) 1 = Some n" "from_bytes_usize n = Some q" "units q \<le> 2048"
    using fuzz_size by blast
  show ?thesis
  proof (cases "allocations h = []")
    case True
    then show ?thesis using h n by (auto simp: fuzz_grow_def)
  next
    case False
    define i where "i = unat idx mod length (allocations h)"
    have i: "i < length (allocations h)" using False by (simp add: i_def)
    obtain p d where pd: "allocations h ! i = (p, d)" by (cases "allocations h ! i")
    obtain k where k: "M p = Some k" "length d = 32 * k" "recorded M (mem (heap h)) (p, d)" "k < 2 ^ 27"
      "\<And>j. j < 32 * k \<Longrightarrow> data_byte (mem (heap h)) p j = Some (d ! j)"
      using fuzz_entry [OF h i] unfolding pd by auto
    have l: "legal c M (Grow_inplace p q)" using k(1) by simp
    have hist: "history ops env_init c (heap h) M" using h by (simp add: harness_ok_def)
    obtain r s where s: "grow_inplace ops c (heap h) p q = Some (r, s)"
      "history ops env_init c s (view_after M (Grow_inplace p q) (Grown r))"
      "contents_kept M (view_after M (Grow_inplace p q) (Grown r)) (mem (heap h)) (mem s)"
      "answer_ok M (mem (heap h)) (mem s) (Grow_inplace p q) (Grown r)"
      using client_step [OF history_ok [OF hist] l] history_call [OF hist l] by fastforce
    note run = fuzz_grow_def n(1,2) i_def [symmetric] pd Let_def s(1)
    show ?thesis
    proof (cases r)
      case None
      have kept: "contents_kept M M (mem (heap h)) (mem s)" using s(3) None by simp
      have "harness_ok ops env_init c (h\<lparr>heap := s\<rparr>) M" using harness_failed [OF h _ kept] s(2) None by simp
      moreover have "fuzz_grow R ops c h idx w = Some (h\<lparr>heap := s\<rparr>)" using False None by (simp add: run)
      ultimately show ?thesis by blast
    next
      case (Some g)
      let ?M = "M(p \<mapsto> units g)"
      have g: "units g = max k (units q)" "history ops env_init c s ?M" "contents_kept M ?M (mem (heap h)) (mem s)"
        using s(2,3,4) k(1) Some by auto
      then have u: "unat (bytes g) = 32 * units g" "k \<le> units g" using n(3) k(4) by (simp_all add: unat_bytes_small)
      have o: "recorded ?M (mem s) a" if "a \<in> set (allocations h)" "fst a \<noteq> p" for a
        by (rule recorded_kept [OF _ g(3)]) (use h that in \<open>simp_all add: harness_ok_def\<close>)
      show ?thesis
      proof (cases "units g = k")
        case True
        then have M: "?M = M" using k(1) by auto
        have "harness_ok ops env_init c (h\<lparr>heap := s\<rparr>) M" by (rule harness_failed [OF h g(2,3) [unfolded M]])
        moreover have "fuzz_grow R ops c h idx w = Some (h\<lparr>heap := s\<rparr>)" using False Some True by (simp add: run k(2) u)
        ultimately show ?thesis by blast
      next
        case False2: False
        have Mp: "?M p = Some (units g)" by simp
        define e where "e = fill_slice R (ucast (address p XOR 0b10101010)) (32 * units g - 32 * k)"
        have le: "32 * k + length e \<le> 32 * units g" "length e = 32 * units g - 32 * k" using u(2) by (simp_all add: e_def)
        obtain m where m: "store_bytes (mem s) (address p + of_nat (32 * k)) e = Some m"
          "history ops env_init c (s\<lparr>mem := m\<rparr>) ?M" "wrote ?M p (32 * k) e (mem s) m"
          using history_store_bytes [OF g(2) Mp le(1)] by blast
        have "data_byte m p j = Some ((d @ e) ! j)" if j: "j < 32 * units g" for j
        proof (cases "j < 32 * k")
          case True
          then have "data_byte (mem s) p j = Some (d ! j)"
            using g(3) k(1) j u(2) k(5) [OF True] unfolding contents_kept_def by auto
          then show ?thesis using m(3) j True k(2) unfolding wrote_def by (auto simp: nth_append)
        next
          case False
          then show ?thesis using m(3) j k(2) le unfolding wrote_def by (auto simp: nth_append)
        qed
        then have r: "recorded ?M m (p, d @ e)" using le k(2) u(2) unfolding recorded_def by auto
        have o': "recorded ?M m a" if "a \<in> set (allocations h)" "fst a \<noteq> p" for a
          using recorded_wrote [OF o [OF that] m(3) that(2)] .
        have "harness_ok ops env_init c (h\<lparr>heap := s\<lparr>mem := m\<rparr>, allocations := (allocations h)[i := (p, d @ e)]\<rparr>) ?M"
          by (rule harness_update [OF h i]) (use m(2) r o' k(1) in \<open>simp_all add: pd insert_absorb domI\<close>)
        moreover have t: "take (32 * k) (resize (32 * units g) 0 d) = d" using k(2) u(2) by (simp add: resize_def)
        have "fuzz_grow R ops c h idx w =
            Some (h\<lparr>heap := s\<lparr>mem := m\<rparr>, allocations := (allocations h)[i := (p, d @ e)]\<rparr>)"
          using False Some False2 u(2) recorded_check [OF r] m(1) t
          by (simp add: run k(2) u(1) e_def [symmetric] del: of_nat_mult)
        ultimately show ?thesis by blast
      qed
    qed
  qed
qed

end

section \<open>Allocating\<close>

lemma from_bytes_some:
  assumes "unat n < 2 ^ 32"
  obtains s where "from_bytes_usize n = Some s"
proof -
  have "(unat n + 31) div 32 < 2 ^ 32" using assms by simp
  then show thesis using that assms by (simp add: from_bytes_usize_eq)
qed

lemma fuzz_align:
  fixes w :: "16 word"
  obtains power a where "next_power_of_two c (ucast w :: usize) = Some power" "from_bytes_usize (max 1 power) = Some a"
    "\<And>x. 32 * units a dvd unat x \<Longrightarrow> x mod max 1 power = 0" "is_power_of_two (raw_units a)" "units a \<le> 2 ^ 12"
proof -
  have w: "unat (ucast w :: usize) < 2 ^ 16" using unsigned_less [where ?'a = nat, of w] by (simp add: unat_ucast_up)
  then have "(ucast w :: usize) < 2 ^ 63" by (simp add: word_less_nat_alt)
  then obtain power where p: "next_power_of_two c (ucast w :: usize) = Some power" "is_power_of_two power"
    "unat power \<le> max 1 (2 * unat (ucast w :: usize))" using next_power_of_two_ok [where c = c] by blast
  have "1 \<le> power" using p(2) by (auto simp: is_power_of_two_iff word_le_nat_alt)
  then have m: "max 1 power = power" by (simp add: max_def)
  have "unat power < 2 ^ 32" using p(3) w by simp
  then obtain a where a: "from_bytes_usize power = Some a" by (rule from_bytes_some)
  have d: "unat power dvd 32 * units a" by (rule align_units(2) [OF p(2) a])
  have "x mod power = 0" if "32 * units a dvd unat x" for x
    using dvd_trans [OF d that] by (simp add: word_arith_nat_mod)
  moreover have "unat power \<le> 2 ^ 17" using p(3) w by simp
  then have "32 * units a < 2 ^ 17 + 32" using from_bytes_units [OF a] by linarith
  then have "units a \<le> 2 ^ 12" by simp
  ultimately show thesis using that p(1) a m align_units(1) [OF p(2) a] by simp
qed

lemma fuzz_request:
  fixes w :: "16 word"
  obtains q where "from_bytes_usize (max 1 (ucast w)) = Some q" "unat (max 1 (ucast w) :: usize) \<le> 32 * units q"
    "units q \<le> 2 ^ 12"
proof -
  have w: "unat (ucast w :: usize) < 2 ^ 16" using unsigned_less [where ?'a = nat, of w] by (simp add: unat_ucast_up)
  have "unat (max 1 (ucast w) :: usize) < 2 ^ 16" using w by (cases "1 \<le> (ucast w :: usize)") (simp_all add: max_def)
  moreover obtain q where q: "from_bytes_usize (max 1 (ucast w)) = Some q"
    using calculation from_bytes_some [of "max 1 (ucast w)"] by fastforce
  ultimately show thesis using that [of q] from_bytes_units [OF q] by simp
qed

text \<open>What a client learns from an allocation, zeroed or not.\<close>

context env_contract
begin

lemma alloc_history:
  assumes hist: "history ops env_init c s M"
  shows "\<exists>r s'. alloc_impl ops c s a n z = Some (r, s') \<and>
    run_call ops c s (if z then Alloc_zeroed a n else Alloc a n) = Some (Allocated r, s') \<and>
    (case r of
       None \<Rightarrow> history ops env_init c s' M \<and> contents_kept M M (mem s) (mem s')
     | Some p \<Rightarrow> M p = None \<and> 32 * units a dvd unat (address p) \<and> history ops env_init c s' (M(p \<mapsto> units n)) \<and>
         contents_kept M (M(p \<mapsto> units n)) (mem s) (mem s'))"
proof -
  let ?call = "if z then Alloc_zeroed a n else Alloc a n"
  have l: "legal c M ?call" by simp
  obtain r s' where r: "run_call ops c s ?call = Some (r, s')" "answer_ok M (mem s) (mem s') ?call r"
    "contents_kept (M |` (- moved_from ?call)) (view_after M ?call r) (mem s) (mem s')"
    using client_step [OF history_ok [OF hist] l] by blast
  note hist' = history_call [OF hist l r(1)]
  obtain r' where r': "alloc_impl ops c s a n z = Some (r', s')" "r = Allocated r'"
    using r(1) by (cases z) (auto simp: alloc_def alloc_zeroed_def)
  show ?thesis
    using r hist' r' by (cases z; cases r') auto
qed

end

context tail_env
begin

lemma fuzz_alloc_ok:
  assumes h: "harness_ok ops env_init c h M"
  shows "\<exists>h' M'. fuzz_alloc R ops c h v w = Some h' \<and> harness_ok ops env_init c h' M'"
proof -
  obtain power a where a: "next_power_of_two c (ucast v :: usize) = Some power" "from_bytes_usize (max 1 power) = Some a"
    "\<And>x. 32 * units a dvd unat x \<Longrightarrow> x mod max 1 power = 0" using fuzz_align [where c = c and w = v] by metis
  obtain q where q: "from_bytes_usize (max 1 (ucast w)) = Some q" "unat (max 1 (ucast w) :: usize) \<le> 32 * units q"
    using fuzz_request [where w = w] by metis
  have hist: "history ops env_init c (heap h) M" using h by (simp add: harness_ok_def)
  obtain r s where r: "alloc_zeroed ops c (heap h) a q = Some (r, s)"
    "run_call ops c (heap h) (Alloc_zeroed a q) = Some (Allocated r, s)"
    "case r of None \<Rightarrow> history ops env_init c s M \<and> contents_kept M M (mem (heap h)) (mem s)
     | Some p \<Rightarrow> M p = None \<and> 32 * units a dvd unat (address p) \<and> history ops env_init c s (M(p \<mapsto> units q)) \<and>
         contents_kept M (M(p \<mapsto> units q)) (mem (heap h)) (mem s)"
    using alloc_history [OF hist, of a q True] by (auto simp: alloc_zeroed_def)
  show ?thesis
  proof (cases r)
    case None
    then have "fuzz_alloc R ops c h v w = Some (h\<lparr>heap := s\<rparr>)" using a(1,2) q(1) r(1) by (simp add: fuzz_alloc_def Let_def)
    then show ?thesis using harness_failed [OF h] r(3) None by auto
  next
    case (Some p)
    then have p: "M p = None" "32 * units a dvd unat (address p)" "history ops env_init c s (M(p \<mapsto> units q))"
      "contents_kept M (M(p \<mapsto> units q)) (mem (heap h)) (mem s)" using r(3) by auto
    have z: "True \<longrightarrow> (\<forall>i < 32 * units q. data_byte (mem s) p i = Some 0)"
      using history_alloc_zeroed [OF hist r(2) [unfolded Some]] by blast
    have "fuzz_alloc R ops c h v w = take_allocation R c True h s p (max 1 power) (max 1 (ucast w))"
      using a(1,2) q(1) r(1) Some by (simp add: fuzz_alloc_def Let_def)
    then show ?thesis using take_allocation_ok [OF h p(1,3,4) a(3) [OF p(2)] q(2) z, of R] by auto
  qed
qed

lemma fuzz_step_ok: "harness_ok ops env_init c h M \<Longrightarrow> \<exists>h' M'. fuzz_step R ops c h x = Some h' \<and> harness_ok ops env_init c h' M'"
  using fuzz_alloc_ok fuzz_free_ok fuzz_shrink_ok fuzz_grow_ok by (cases x) simp_all

lemma fuzz_run_ok: "harness_ok ops env_init c h M \<Longrightarrow> \<exists>h' M'. fuzz_run R ops c h xs = Some h' \<and> harness_ok ops env_init c h' M'"
proof (induction xs arbitrary: h M)
  case (Cons x xs)
  obtain h1 M1 where "fuzz_step R ops c h x = Some h1" "harness_ok ops env_init c h1 M1"
    using fuzz_step_ok [OF Cons.prems] by blast
  then show ?case using Cons.IH by auto
qed auto

end

lemma harness_new: "env_init e m \<Longrightarrow> harness_ok ops env_init c (new_harness e m) Map.empty"
  by (simp add: harness_ok_def new_harness_def history_new)

end
