(* ===== verification/Fuzz_Targets.thy ===== *)
theory Fuzz_Targets
  imports Fuzzing Fragmentation
begin

text \<open>
  The two fuzz targets as they are run: \<^verbatim>\<open>allocator_buffer.rs\<close> on an environment that hands out the first
  part of a buffer and checks, when it is dropped, that the rest of the buffer was never written; and
  \<^verbatim>\<open>allocator_system.rs\<close> on the environment of the operating system, which panics when an allocation fails.
\<close>

section \<open>TestEnv\<close>

text \<open>The environment owns its buffer; where the buffer lies once the allocator is in place is its address.\<close>

datatype TestEnv = TestEnv (buffer: u64)

definition TestEnv_total_space :: "usize \<Rightarrow> TestEnv \<Rightarrow> Size" where
  "TestEnv_total_space SIZE e = const_size (SIZE * 16)"

definition TestEnv_allocate_address_space :: "TestEnv \<Rightarrow> memory \<Rightarrow> (u64 \<times> TestEnv \<times> memory) option" where
  "TestEnv_allocate_address_space e m = Some (buffer e, e, m)"

definition TestEnv_expand_memory_until ::
    "usize \<Rightarrow> TestEnv \<Rightarrow> memory \<Rightarrow> u64 \<Rightarrow> Size \<Rightarrow> (bool \<times> TestEnv \<times> memory) option" where
  "TestEnv_expand_memory_until LIMIT e m base n = Some (n \<le> const_size LIMIT, e, m)"

definition TestEnv_free_address_space :: "TestEnv \<Rightarrow> memory \<Rightarrow> u64 \<Rightarrow> (TestEnv \<times> memory) option" where
  "TestEnv_free_address_space e m base = Some (e, m)"

definition TestEnv_env :: "usize \<Rightarrow> usize \<Rightarrow> TestEnv env_ops" where
  "TestEnv_env SIZE LIMIT =
     \<lparr>total_space = TestEnv_total_space SIZE,
      allocate_address_space = TestEnv_allocate_address_space,
      expand_memory_until = TestEnv_expand_memory_until LIMIT,
      free_address_space = TestEnv_free_address_space\<rparr>"

lemmas TestEnv_defs = TestEnv_env_def TestEnv_total_space_def TestEnv_allocate_address_space_def
  TestEnv_expand_memory_until_def TestEnv_free_address_space_def

definition TestEnv_default :: "usize \<Rightarrow> usize \<Rightarrow> memory \<Rightarrow> u64 \<Rightarrow> (TestEnv \<times> memory) option" where
  "TestEnv_default SIZE LIMIT m a = do {
     m \<leftarrow> store_bytes m a (replicate (unat SIZE) 0b10101010);
     m \<leftarrow> store_bytes m a (replicate (unat LIMIT) 0);
     Some (TestEnv a, m)
   }"

definition TestEnv_drop :: "usize \<Rightarrow> usize \<Rightarrow> TestEnv \<Rightarrow> memory \<Rightarrow> unit option" where
  "TestEnv_drop SIZE LIMIT e m = do {
     rest \<leftarrow> load_bytes m (buffer e + LIMIT) (unat SIZE - unat LIMIT);
     assert_that (\<forall>byte \<in> set rest. byte = 0b10101010)
   }"

definition DefaultEnv :: "TestEnv env_ops" where
  "DefaultEnv = TestEnv_env 16384 2048"

text \<open>The target: the allocator is made, run and dropped, and its environment is dropped with it.\<close>

definition fuzz_buffer :: "'r Rand64 \<Rightarrow> build \<Rightarrow> memory \<Rightarrow> u64 \<Rightarrow> Op list \<Rightarrow> unit option" where
  "fuzz_buffer R c m a xs = do {
     (e, m) \<leftarrow> TestEnv_default 16384 2048 m a;
     h \<leftarrow> fuzz_run R DefaultEnv c (new_harness e m) xs;
     s \<leftarrow> Allocator_drop DefaultEnv (heap h);
     TestEnv_drop 16384 2048 (env s) (mem s)
   }"

section \<open>The contract of the buffer\<close>

text \<open>
  A byte of the first 2048 that has not been used is zero, one of the rest of the buffer has the value
  the buffer was filled with. The address space is 16 times as large as the buffer.
\<close>

definition guarded :: "nat \<Rightarrow> u8 option \<Rightarrow> bool" where
  "guarded k v \<longleftrightarrow> (if k < 2048 then v = None \<or> v = Some 0 else k < 16384 \<longrightarrow> v = Some 0b10101010)"

definition test_ok :: "TestEnv \<Rightarrow> memory \<Rightarrow> u64 \<Rightarrow> bool" where
  "test_ok e m b \<longleftrightarrow> b = buffer e \<and> region_ok b 8192 \<and> mapped_until m b 64"

definition test_init :: "TestEnv \<Rightarrow> memory \<Rightarrow> bool" where
  "test_init e m \<longleftrightarrow> test_ok e m (buffer e) \<and> tail_from guarded m (buffer e) 0 8192"

lemma default_sizes: "const_size 262144 = sz 8192" "const_size 2048 = sz 64"
  by (simp_all add: const_size_def from_bytes_usize_eq)

interpretation test_buffer: tail_env DefaultEnv test_init test_ok 8192 guarded 64
proof (unfold_locales, goal_cases)
  case (1 e)
  then show ?case by (simp add: DefaultEnv_def TestEnv_defs default_sizes)
next
  case (2 e m b)
  then show ?case unfolding test_ok_def by blast
next
  case (3 e m b m')
  then show ?case unfolding test_ok_def using mapped_until_dom by blast
next
  case (4 e m)
  then show ?case using region_okD(4) by (auto simp: DefaultEnv_def TestEnv_defs test_init_def test_ok_def)
next
  case (5 e m b n)
  have "mapped_until m b n" if "n \<le> 64" using 5(1) mapped_until_mono that unfolding test_ok_def by blast
  then show ?case using 5 by (simp add: DefaultEnv_def TestEnv_defs default_sizes Size_le_iff units_sz)
next
  case (6 e m b)
  then show ?case by (simp add: DefaultEnv_def TestEnv_defs)
next
  case (7 e m b e1 m1 e2 m2 e3 m3)
  then show ?case by (simp add: DefaultEnv_def TestEnv_defs)
next
  case (8 e m b e' m')
  then show ?case by (auto simp: DefaultEnv_def TestEnv_defs test_init_def)
next
  case (9 e m b n r e' m' k)
  then show ?case by (simp add: DefaultEnv_def TestEnv_defs)
next
  case (10 e m b n e' m')
  then show ?case by (simp add: DefaultEnv_def TestEnv_defs default_sizes Size_le_iff units_sz)
next
  case (11 k v)
  then show ?case by (simp add: guarded_def)
qed

section \<open>The buffer target never fails\<close>

lemma test_default:
  assumes r: "region_ok a 8192" and m: "\<forall>i < 16384. byte_at m a i \<noteq> None"
  obtains m' where "TestEnv_default 16384 2048 m a = Some (TestEnv a, m')" "test_init (TestEnv a) m'"
proof -
  let ?f = "replicate 16384 (0b10101010 :: u8)" and ?z = "replicate 2048 (0 :: u8)"
  obtain m1 where m1: "store_bytes m (a + of_nat 0) ?f = Some m1"
    "\<And>k. k < 262144 \<Longrightarrow> byte_at m1 a k = (if 0 \<le> k \<and> k < 0 + length ?f then Some (?f ! (k - 0)) else byte_at m a k)"
    by (rule store_bytes_at [of ?f m a 0 262144]) (use m in auto)
  obtain m2 where m2: "store_bytes m1 (a + of_nat 0) ?z = Some m2"
    "\<And>k. k < 262144 \<Longrightarrow> byte_at m2 a k = (if 0 \<le> k \<and> k < 0 + length ?z then Some (?z ! (k - 0)) else byte_at m1 a k)"
    by (rule store_bytes_at [of ?z m1 a 0 262144]) (use m1(2) in auto)
  have "byte_at m2 a k = (if k < 2048 then Some 0 else if k < 16384 then Some 0b10101010 else byte_at m a k)" if "k < 262144" for k
    using m1(2) [OF that] m2(2) [OF that] by (simp add: nth_replicate)
  then have "mapped_until m2 a 64" "tail_from guarded m2 a 0 8192"
    by (simp_all add: mapped_until_def tail_from_def guarded_def)
  then have "test_init (TestEnv a) m2" using r by (simp add: test_init_def test_ok_def)
  moreover have "TestEnv_default 16384 2048 m a = Some (TestEnv a, m2)" using m1(1) m2(1) by (simp add: TestEnv_default_def)
  ultimately show thesis using that by blast
qed

lemma load_bytes_constant:
  "(\<And>i. i < n \<Longrightarrow> byte_at m b (j + i) = Some v) \<Longrightarrow> load_bytes m (b + of_nat j) n = Some (replicate n v)"
  using load_bytes_stored [of "replicate n v" m b j] by simp

lemma test_dropped:
  assumes "history DefaultEnv test_init c s M"
  shows "\<exists>s'. Allocator_drop DefaultEnv s = Some s' \<and> TestEnv_drop 16384 2048 (env s') (mem s') = Some ()"
proof -
  have ok: "client_ok test_init test_ok 8192 s M" "base_address s \<noteq> 0 \<Longrightarrow> tail_ok guarded 64 8192 s"
    using test_buffer.history_tail [OF assms] by blast+
  have "tail_from guarded (mem s) (buffer (env s)) 64 8192"
  proof (cases "fresh_ok test_init s")
    case True
    then have "tail_from guarded (mem s) (buffer (env s)) 0 8192" by (simp add: fresh_ok_def test_init_def)
    then show ?thesis by (rule tail_from_mono) simp
  next
    case False
    then obtain ks where ks: "heap_ok test_ok 8192 s ks" using ok(1) unfolding client_ok_def by blast
    have "tail_from guarded (mem s) (base_address s) 64 8192"
      using ok(2) heap_base [OF ks] tail_from_mono unfolding tail_ok_def by blast
    then show ?thesis using ks by (simp add: heap_ok_def test_ok_def)
  qed
  then have g: "byte_at (mem s) (buffer (env s)) (2048 + i) = Some 0b10101010" if "i < 14336" for i
    using that unfolding tail_from_def guarded_def by force
  define n where "n = unat (16384 :: usize) - unat (2048 :: usize)"
  have "n = 14336" by (simp add: n_def)
  then have "load_bytes (mem s) (buffer (env s) + of_nat 2048) n = Some (replicate n 0b10101010)"
    by (intro load_bytes_constant) (use g in simp)
  then have "TestEnv_drop 16384 2048 (env s) (mem s) = Some ()"
    unfolding TestEnv_drop_def n_def [symmetric] by simp
  then show ?thesis by (simp add: Allocator_drop_def DefaultEnv_def TestEnv_defs)
qed

lemma fuzz_buffer_ok:
  assumes r: "region_ok a 8192" and m: "\<forall>i < 16384. byte_at m a i \<noteq> None"
  shows "fuzz_buffer R c m a xs = Some ()"
proof -
  obtain m' where m': "TestEnv_default 16384 2048 m a = Some (TestEnv a, m')" "test_init (TestEnv a) m'"
    using test_default [OF r m] .
  obtain h M where h: "fuzz_run R DefaultEnv c (new_harness (TestEnv a) m') xs = Some h" "harness_ok DefaultEnv test_init c h M"
    using test_buffer.fuzz_run_ok [OF harness_new [of test_init, OF m'(2)], of R c xs] by blast
  have "history DefaultEnv test_init c (heap h) M" using h(2) by (simp add: harness_ok_def)
  then obtain s where "Allocator_drop DefaultEnv (heap h) = Some s" "TestEnv_drop 16384 2048 (env s) (mem s) = Some ()"
    using test_dropped by blast
  then show ?thesis using m'(1) h(1) by (simp add: fuzz_buffer_def)
qed

section \<open>The system target\<close>

text \<open>\<^verbatim>\<open>unwrap\<close> of the answer of \<^verbatim>\<open>alloc\<close> panics when it is \<^verbatim>\<open>None\<close>.\<close>

datatype System_Op = System_Alloc "16 word" "16 word" | System_Free usize

definition system_alloc ::
    "'r Rand64 \<Rightarrow> 'e env_ops \<Rightarrow> build \<Rightarrow> 'e harness \<Rightarrow> 16 word \<Rightarrow> 16 word \<Rightarrow> 'e harness option" where
  "system_alloc R ops c h align_arg size_arg = do {
     power \<leftarrow> next_power_of_two c (ucast align_arg);
     let align = max 1 power;
     let n = max 1 (ucast size_arg);
     align_units \<leftarrow> from_bytes_usize align;
     size_units \<leftarrow> from_bytes_usize n;
     (r, s) \<leftarrow> alloc ops c (heap h) align_units size_units;
     pointer \<leftarrow> r;
     take_allocation R c False h s pointer align n
   }"

fun system_step :: "'r Rand64 \<Rightarrow> 'e env_ops \<Rightarrow> build \<Rightarrow> 'e harness \<Rightarrow> System_Op \<Rightarrow> 'e harness option" where
  "system_step R ops c h (System_Alloc align size_arg) = system_alloc R ops c h align size_arg"
| "system_step R ops c h (System_Free idx) = fuzz_free ops c h idx"

fun system_run :: "'r Rand64 \<Rightarrow> 'e env_ops \<Rightarrow> build \<Rightarrow> 'e harness \<Rightarrow> System_Op list \<Rightarrow> 'e harness option" where
  "system_run R ops c h [] = Some h"
| "system_run R ops c h (operation # operations) = do {
     h \<leftarrow> system_step R ops c h operation;
     system_run R ops c h operations
   }"

definition UnsafeSystem :: "'k kernel \<Rightarrow> 'k env_ops" where
  "UnsafeSystem K = Linux_env K (32 * 1024 * 1024)"

definition fuzz_system ::
    "'r Rand64 \<Rightarrow> 'k kernel \<Rightarrow> build \<Rightarrow> 'k \<Rightarrow> memory \<Rightarrow> System_Op list \<Rightarrow> 'k harness option" where
  "fuzz_system R K c k m xs = system_run R (UnsafeSystem K) c (new_harness k m) xs"

text \<open>
  Memory is short for a request of the target: the allocator answers \<^verbatim>\<open>None\<close>, and of its \<open>T\<close> units those that
  are not used could all lie in gaps that are too small, one more of them than there are allocations.
\<close>

definition out_of_memory ::
    "'e env_ops \<Rightarrow> nat \<Rightarrow> build \<Rightarrow> 'e machine \<Rightarrow> view \<Rightarrow> 16 word \<Rightarrow> 16 word \<Rightarrow> bool" where
  "out_of_memory ops T c s M align_arg size_arg \<longleftrightarrow> (\<exists>power a q s'.
     next_power_of_two c (ucast align_arg) = Some power \<and> from_bytes_usize (max 1 power) = Some a \<and>
     from_bytes_usize (max 1 (ucast size_arg)) = Some q \<and> alloc ops c s a q = Some (None, s') \<and>
     T \<le> used M + Suc (card (dom M)) * (padded (units q + units a) - 1))"

context generous_env
begin

lemma system_alloc_ok:
  assumes h: "harness_ok ops env_init c h M"
  shows "(\<exists>h' M'. system_alloc R ops c h v w = Some h' \<and> harness_ok ops env_init c h' M') \<or>
    system_alloc R ops c h v w = None \<and> out_of_memory ops T c (heap h) M v w"
proof -
  obtain power a where a: "next_power_of_two c (ucast v :: usize) = Some power" "from_bytes_usize (max 1 power) = Some a"
    "\<And>x. 32 * units a dvd unat x \<Longrightarrow> x mod max 1 power = 0" "is_power_of_two (raw_units a)" "units a \<le> 2 ^ 12"
    using fuzz_align [where c = c and w = v] by metis
  obtain q where q: "from_bytes_usize (max 1 (ucast w)) = Some q" "unat (max 1 (ucast w) :: usize) \<le> 32 * units q" "units q \<le> 2 ^ 12"
    using fuzz_request [where w = w] by metis
  have hist: "history ops env_init c (heap h) M" using h by (simp add: harness_ok_def)
  obtain r s where r: "alloc ops c (heap h) a q = Some (r, s)"
    "case r of None \<Rightarrow> history ops env_init c s M \<and> contents_kept M M (mem (heap h)) (mem s)
     | Some p \<Rightarrow> M p = None \<and> 32 * units a dvd unat (address p) \<and> history ops env_init c s (M(p \<mapsto> units q)) \<and>
         contents_kept M (M(p \<mapsto> units q)) (mem (heap h)) (mem s)"
    using alloc_history [OF hist, of a q False] by (auto simp: alloc_def)
  show ?thesis
  proof (cases r)
    case None
    have fit: "units q + units a \<le> 2 ^ 25" using a(5) q(3) by simp
    have "T \<le> used M + Suc (card (dom M)) * (padded (units q + units a) - 1)"
      using served_despite_fragmentation [OF hist a(4) fit, of False] r(1) None unfolding alloc_def by fastforce
    then have "out_of_memory ops T c (heap h) M v w" using a(1,2) q(1) r(1) None unfolding out_of_memory_def by blast
    then show ?thesis using a(1,2) q(1) r(1) None by (simp add: system_alloc_def Let_def)
  next
    case (Some p)
    then have p: "M p = None" "32 * units a dvd unat (address p)" "history ops env_init c s (M(p \<mapsto> units q))"
      "contents_kept M (M(p \<mapsto> units q)) (mem (heap h)) (mem s)" using r(2) by auto
    have z: "False \<longrightarrow> (\<forall>i < 32 * units q. data_byte (mem s) p i = Some 0)" by simp
    obtain h' where h': "take_allocation R c False h s p (max 1 power) (max 1 (ucast w)) = Some h'"
      "harness_ok ops env_init c h' (M(p \<mapsto> units q))"
      using take_allocation_ok [OF h p(1,3,4) a(3) [OF p(2)] q(2) z, of R] by blast
    have "system_alloc R ops c h v w = Some h'"
      using a(1,2) q(1) r(1) Some h'(1) by (simp add: system_alloc_def Let_def)
    then show ?thesis using h'(2) by blast
  qed
qed

text \<open>A run either completes, or ends in a panic at the first request for which memory is short.\<close>

lemma system_run_ok:
  "harness_ok ops env_init c h M \<Longrightarrow>
   (\<exists>h' M'. system_run R ops c h xs = Some h' \<and> harness_ok ops env_init c h' M') \<or>
   system_run R ops c h xs = None \<and> (\<exists>ys v w zs h' M'. xs = ys @ System_Alloc v w # zs \<and>
     system_run R ops c h ys = Some h' \<and> harness_ok ops env_init c h' M' \<and> out_of_memory ops T c (heap h') M' v w)"
proof (induction xs arbitrary: h M)
  case (Cons x xs)
  consider (served) h1 M1 where "system_step R ops c h x = Some h1" "harness_ok ops env_init c h1 M1"
    | (short) v w where "x = System_Alloc v w" "system_step R ops c h x = None" "out_of_memory ops T c (heap h) M v w"
    using system_alloc_ok [OF Cons.prems] fuzz_free_ok [OF Cons.prems] by (cases x) fastforce+
  then show ?case
  proof cases
    case served
    then have run: "system_run R ops c h (x # ys) = system_run R ops c h1 ys" for ys by simp
    from Cons.IH [OF served(2)] show ?thesis
    proof (elim disjE conjE exE)
      fix h' M'
      assume "system_run R ops c h1 xs = Some h'" "harness_ok ops env_init c h' M'"
      then show ?thesis unfolding run by blast
    next
      fix ys v w zs h' M'
      assume "system_run R ops c h1 xs = None" "xs = ys @ System_Alloc v w # zs" "system_run R ops c h1 ys = Some h'"
        "harness_ok ops env_init c h' M'" "out_of_memory ops T c (heap h') M' v w"
      then show ?thesis unfolding run by (intro disjI2 conjI exI [of _ "x # ys"]) (use run in auto)
    qed
  next
    case short
    then have "system_run R ops c h (x # xs) = None" "x # xs = [] @ System_Alloc v w # xs" "system_run R ops c h [] = Some h" by simp_all
    then show ?thesis using Cons.prems short(3) by blast
  qed
qed auto

end

lemma fuzz_system_ok:
  assumes l: "linux_init K (32 * 1024 * 1024) k m"
  shows "(\<exists>h M. fuzz_system R K c k m xs = Some h \<and> harness_ok (UnsafeSystem K) (linux_init K (32 * 1024 * 1024)) c h M) \<or>
    fuzz_system R K c k m xs = None \<and> (\<exists>ys v w zs h M. xs = ys @ System_Alloc v w # zs \<and>
      fuzz_system R K c k m ys = Some h \<and> harness_ok (UnsafeSystem K) (linux_init K (32 * 1024 * 1024)) c h M \<and>
      out_of_memory (UnsafeSystem K) (2 ^ 20) c (heap h) M v w)"
proof -
  have T: "space (32 * 1024 * 1024) = 2 ^ 20" by (simp add: space_def const_size_def from_bytes_usize_eq)
  have e: "generous_env (UnsafeSystem K) (linux_init K (32 * 1024 * 1024)) (linux_ok K (32 * 1024 * 1024)) (2 ^ 20)"
    unfolding UnsafeSystem_def T [symmetric] by (rule full_linux.generous_env_axioms)
  show ?thesis unfolding fuzz_system_def
    by (rule generous_env.system_run_ok [OF e harness_new [of "linux_init K (32 * 1024 * 1024)", OF l]])
qed

text \<open>While the target holds nothing, memory is not short for any request.\<close>

lemma first_request_fits: "\<not> out_of_memory ops (2 ^ 20) c s Map.empty v w"
proof
  assume "out_of_memory ops (2 ^ 20) c s Map.empty v w"
  then obtain power a q where o: "next_power_of_two c (ucast v) = Some power" "from_bytes_usize (max 1 power) = Some a"
    "from_bytes_usize (max 1 (ucast w)) = Some q" "2 ^ 20 \<le> padded (units q + units a) - 1"
    unfolding out_of_memory_def by auto
  have "units a \<le> 2 ^ 12" using fuzz_align [where c = c and w = v] o(1,2) by (metis option.inject)
  moreover have "units q \<le> 2 ^ 12" using fuzz_request [where w = w] o(3) by (metis option.inject)
  ultimately have "units q + units a \<le> 2 ^ 13" by simp
  then have "(units q + units a) div 128 \<le> 2 ^ 6" by simp
  then show False using o(4) \<open>units q + units a \<le> 2 ^ 13\<close> by (simp add: padded_def)
qed

text \<open>The data of the harness is intact.\<close>

lemma harness_intact:
  assumes "harness_ok ops env_init c h M"
  shows "history ops env_init c (heap h) M \<and> dom M = fst ` set (allocations h) \<and>
    (\<forall>(p, d) \<in> set (allocations h). load_bytes (mem (heap h)) (address p) (length d) = Some d)"
proof -
  have "load_bytes (mem (heap h)) (address p) (length d) = Some d" if "(p, d) \<in> set (allocations h)" for p d
    using assms that unfolding harness_ok_def recorded_def load_data by fastforce
  then show ?thesis using assms unfolding harness_ok_def by blast
qed

end
