(* ===== verification/Unit_Tests.thy ===== *)
theory Unit_Tests
  imports Exact_Layouts Confinement Fuzz_Targets
begin

text \<open>
  The unit tests of \<^verbatim>\<open>src/lib.rs\<close> as programs over the model: a failed assertion, an \<^verbatim>\<open>unwrap\<close> of nothing
  and a panic are \<^const>\<open>None\<close>. Each test is proved to pass in every build, at every address.
\<close>

section \<open>What the tests are made of\<close>

definition request_bytes ::
    "'e env_ops \<Rightarrow> build \<Rightarrow> 'e machine \<Rightarrow> usize \<Rightarrow> usize \<Rightarrow> (Pointer option \<times> 'e machine) option" where
  "request_bytes ops c s align n = do {
     a \<leftarrow> from_bytes_usize align;
     q \<leftarrow> from_bytes_usize n;
     alloc ops c s a q
   }"

definition alloc_unwrap ::
    "'e env_ops \<Rightarrow> build \<Rightarrow> 'e machine \<Rightarrow> usize \<Rightarrow> usize \<Rightarrow> (Pointer \<times> 'e machine) option" where
  "alloc_unwrap ops c s align n = do { (r, s) \<leftarrow> request_bytes ops c s align n; p \<leftarrow> r; Some (p, s) }"

definition alloc_is_none :: "'e env_ops \<Rightarrow> build \<Rightarrow> 'e machine \<Rightarrow> usize \<Rightarrow> usize \<Rightarrow> 'e machine option" where
  "alloc_is_none ops c s align n = do { (r, s) \<leftarrow> request_bytes ops c s align n; assert_that (r = None); Some s }"

definition check_usable :: "build \<Rightarrow> 'e machine \<Rightarrow> Pointer \<Rightarrow> (usize \<Rightarrow> bool) \<Rightarrow> unit option" where
  "check_usable c s p P = do { n \<leftarrow> usable_size c (mem s) p; assert_that (P n) }"

section \<open>The tests\<close>

text \<open>Every test ends with the allocator being dropped; the result is its last state.\<close>

definition test_allocator :: "'e env_ops \<Rightarrow> build \<Rightarrow> 'e \<Rightarrow> memory \<Rightarrow> 'e machine option" where
  "test_allocator ops c e m = do {
     let s = Allocator_new e m;
     (a0, s) \<leftarrow> alloc_unwrap ops c s 1 1;
     (a1, s) \<leftarrow> alloc_unwrap ops c s 1 0;
     (a2, s) \<leftarrow> alloc_unwrap ops c s 255 0;
     check_usable c s a0 (\<lambda>n. 1 \<le> n);
     check_usable c s a1 (\<lambda>n. n = 0);
     check_usable c s a2 (\<lambda>n. n = 0);
     (a3, s) \<leftarrow> alloc_unwrap ops c s 1 0;
     s \<leftarrow> free ops c s a3;
     s \<leftarrow> free ops c s a0;
     (a4, s) \<leftarrow> alloc_unwrap ops c s 1 0;
     s \<leftarrow> free ops c s a4;
     s \<leftarrow> free ops c s a1;
     (a5, s) \<leftarrow> alloc_unwrap ops c s 1 0;
     s \<leftarrow> free ops c s a5;
     s \<leftarrow> free ops c s a2;
     (a6, s) \<leftarrow> alloc_unwrap ops c s 1 0;
     s \<leftarrow> free ops c s a6;
     (a7, s) \<leftarrow> alloc_unwrap ops c s 255 255;
     (a8, s) \<leftarrow> alloc_unwrap ops c s 128 65;
     s \<leftarrow> free ops c s a7;
     s \<leftarrow> free ops c s a8;
     Allocator_drop ops s
   }"

fun allocate_many ::
    "'e env_ops \<Rightarrow> build \<Rightarrow> nat \<Rightarrow> 'e machine \<Rightarrow> Pointer list \<Rightarrow> (Pointer list \<times> 'e machine) option" where
  "allocate_many ops c 0 s ps = Some (ps, s)"
| "allocate_many ops c (Suc n) s ps = do {
     (p, s) \<leftarrow> alloc_unwrap ops c s 1 1;
     allocate_many ops c n s (ps @ [p])
   }"

lemma swap_remove_length: "swap_remove xs i = Some (x, ys) \<Longrightarrow> length xs = Suc (length ys)"
  using arg_cong [OF swap_remove_mset(1), of xs i x ys size] by simp

function free_middle :: "'e env_ops \<Rightarrow> build \<Rightarrow> Pointer list \<Rightarrow> 'e machine \<Rightarrow> 'e machine option" where
  "free_middle ops c ps s =
     (if ps = [] then Some s
      else case swap_remove ps (length ps div 2) of
        None \<Rightarrow> None
      | Some (p, rest) \<Rightarrow> do { s \<leftarrow> free ops c s p; free_middle ops c rest s })"
  by pat_completeness auto

termination by (relation "measure (\<lambda>(ops, c, ps, s). length ps)") (auto dest: swap_remove_length)

declare free_middle.simps [simp del]

definition test_many_small_allocations ::
    "'e env_ops \<Rightarrow> build \<Rightarrow> 'e \<Rightarrow> memory \<Rightarrow> nat \<Rightarrow> 'e machine option" where
  "test_many_small_allocations ops c e m total_count = do {
     (ps, s) \<leftarrow> allocate_many ops c total_count (Allocator_new e m) [];
     s \<leftarrow> alloc_is_none ops c s 1 1;
     (if ps = [] then None
      else do {
        s \<leftarrow> free ops c s (last ps);
        (p, ps) \<leftarrow> swap_remove (butlast ps) 0;
        s \<leftarrow> free ops c s p;
        s \<leftarrow> free_middle ops c ps s;
        Allocator_drop ops s
      })
   }"

definition test_shrink_on :: "'e env_ops \<Rightarrow> build \<Rightarrow> 'e \<Rightarrow> memory \<Rightarrow> 'e machine option" where
  "test_shrink_on ops c e m = do {
     let s = Allocator_new e m;
     one \<leftarrow> from_bytes_usize 32;
     (a, s) \<leftarrow> alloc_unwrap ops c s 32 64;
     s \<leftarrow> alloc_is_none ops c s 32 32;
     s \<leftarrow> free ops c s a;
     (a, s) \<leftarrow> alloc_unwrap ops c s 32 32;
     (b, s) \<leftarrow> alloc_unwrap ops c s 32 32;
     s \<leftarrow> free ops c s a;
     s \<leftarrow> free ops c s b;
     (a, s) \<leftarrow> alloc_unwrap ops c s 32 64;
     check_usable c s a (\<lambda>n. n = 64);
     s \<leftarrow> alloc_is_none ops c s 32 32;
     s \<leftarrow> shrink_inplace ops c s a one;
     check_usable c s a (\<lambda>n. n = 32);
     (b, s) \<leftarrow> alloc_unwrap ops c s 32 32;
     s \<leftarrow> free ops c s a;
     s \<leftarrow> free ops c s b;
     Allocator_drop ops s
   }"

definition test_grow_on :: "'e env_ops \<Rightarrow> build \<Rightarrow> 'e \<Rightarrow> memory \<Rightarrow> 'e machine option" where
  "test_grow_on ops c e m = do {
     let s = Allocator_new e m;
     two \<leftarrow> from_bytes_usize 64;
     (a, s) \<leftarrow> alloc_unwrap ops c s 32 32;
     (b, s) \<leftarrow> alloc_unwrap ops c s 32 32;
     (r, s) \<leftarrow> grow_inplace ops c s a two;
     assert_that (r = None);
     s \<leftarrow> free ops c s b;
     (r, s) \<leftarrow> grow_inplace ops c s a two;
     assert_that (r = Some two);
     check_usable c s a (\<lambda>n. n = 64);
     Allocator_drop ops s
   }"

text \<open>The tests as they are run, with their environments; a test that uses an array gets its address.\<close>

definition test_allocator_system :: "'k kernel \<Rightarrow> build \<Rightarrow> 'k \<Rightarrow> memory \<Rightarrow> 'k machine option" where
  "test_allocator_system K c k m = test_allocator (Linux_env K 4096) c k m"

definition test_allocator_buffer :: "build \<Rightarrow> memory \<Rightarrow> u64 \<Rightarrow> ArrayPointer machine option" where
  "test_allocator_buffer c m array_address = do {
     m \<leftarrow> store_bytes m array_address (replicate 4096 0);
     test_allocator (ArrayPointer_env 4096) c (ArrayPointer array_address) m
   }"

definition test_many_small_allocations_native :: "'k kernel \<Rightarrow> build \<Rightarrow> 'k \<Rightarrow> memory \<Rightarrow> 'k machine option" where
  "test_many_small_allocations_native K c k m =
     test_many_small_allocations (Linux_env K (32 * 1024 * 1024)) c k m 524288"

definition test_many_small_allocations_buffer :: "build \<Rightarrow> memory \<Rightarrow> u64 \<Rightarrow> unit option" where
  "test_many_small_allocations_buffer c m storage = do {
     m \<leftarrow> store_bytes m storage (replicate (1024 * 16) 0);
     m \<leftarrow> store_bytes m (storage + 1024 * 16) (replicate 64 0b10101010);
     s \<leftarrow> test_many_small_allocations (ArrayPointer_env (1024 * 16)) c (ArrayPointer storage) m 256;
     sentinel \<leftarrow> load_bytes (mem s) (storage + 1024 * 16) 64;
     assert_that (\<forall>byte \<in> set sentinel. byte = 0b10101010)
   }"

definition test_shrink :: "build \<Rightarrow> memory \<Rightarrow> u64 \<Rightarrow> ArrayPointer machine option" where
  "test_shrink c m array_address = do {
     m \<leftarrow> store_bytes m array_address (replicate 128 0);
     test_shrink_on (ArrayPointer_env 128) c (ArrayPointer array_address) m
   }"

definition test_grow :: "build \<Rightarrow> memory \<Rightarrow> u64 \<Rightarrow> ArrayPointer machine option" where
  "test_grow c m array_address = do {
     m \<leftarrow> store_bytes m array_address (replicate 128 0);
     test_grow_on (ArrayPointer_env 128) c (ArrayPointer array_address) m
   }"

text \<open>
  The environment of \<^verbatim>\<open>test_boundary\<close> differs from that of the fuzz target in its address space, which is
  only as large as the part of the buffer that may be used, and in what the buffer is filled with.
\<close>

definition Boundary_env :: "usize \<Rightarrow> usize \<Rightarrow> TestEnv env_ops" where
  "Boundary_env SIZE LIMIT = (TestEnv_env SIZE LIMIT)\<lparr>total_space := (\<lambda>e. const_size LIMIT)\<rparr>"

definition test_boundary :: "build \<Rightarrow> memory \<Rightarrow> u64 \<Rightarrow> unit option" where
  "test_boundary c m array_address = do {
     m \<leftarrow> store_bytes m array_address (replicate 256 0b10101010);
     let ops = Boundary_env 256 64;
     let s = Allocator_new (TestEnv array_address) m;
     (p, s) \<leftarrow> alloc_unwrap ops c s 1 32;
     s \<leftarrow> free ops c s p;
     s \<leftarrow> alloc_is_none ops c s 1 33;
     s \<leftarrow> Allocator_drop ops s;
     TestEnv_drop 256 64 (env s) (mem s)
   }"

section \<open>Clients that only allocate and free\<close>

definition holding :: "'e env_ops \<Rightarrow> ('e \<Rightarrow> memory \<Rightarrow> bool) \<Rightarrow> build \<Rightarrow> 'e machine \<Rightarrow> (Pointer \<times> nat) list \<Rightarrow> bool" where
  "holding ops env_init c s xs \<longleftrightarrow> history ops env_init c s (map_of xs) \<and> distinct (map fst xs)"

lemma holding_new: "env_init e m \<Longrightarrow> holding ops env_init c (Allocator_new e m) []"
  by (simp add: holding_def history_new)

lemma holding_used: "distinct (map fst xs) \<Longrightarrow> used (map_of xs) = sum_list (map (\<lambda>x. Suc (snd x)) xs) \<and> card (dom (map_of xs)) = length xs"
proof (induction xs)
  case (Cons x xs)
  then have n: "map_of xs (fst x) = None" by (auto simp: map_of_eq_None_iff)
  then have "used (map_of (x # xs)) = Suc (snd x) + used (map_of xs)" using used_upd [OF finite_dom_map_of n] by (cases x) simp
  moreover have "card (dom (map_of (x # xs))) = Suc (card (dom (map_of xs)))" using n by (cases x) (simp add: finite_dom_map_of domIff)
  moreover have "used (map_of xs) = sum_list (map (\<lambda>x. Suc (snd x)) xs)" "card (dom (map_of xs)) = length xs"
    using Cons by simp_all
  ultimately show ?case by (simp only: list.map sum_list.Cons length_Cons add_Suc)
qed simp

lemma holding_perm: "holding ops env_init c s xs \<Longrightarrow> mset ys = mset xs \<Longrightarrow> holding ops env_init c s ys"
proof -
  assume h: "holding ops env_init c s xs" and m: "mset ys = mset xs"
  have "mset (map fst ys) = mset (map fst xs)" using m by simp
  then have d: "distinct (map fst ys)" using h mset_eq_imp_distinct_iff unfolding holding_def by blast
  moreover have "map_of ys = map_of xs"
    using map_of_inject_set [of ys xs] d h mset_eq_setD [OF m] unfolding holding_def by blast
  ultimately show ?thesis using h by (simp add: holding_def)
qed

context env_contract
begin

lemma holding_free:
  assumes h: "holding ops env_init c s (us @ (p, k) # vs)"
  obtains s' where "free ops c s p = Some s'" "holding ops env_init c s' (us @ vs)" "base_address s' \<noteq> 0"
proof -
  have hist: "history ops env_init c s (map_of (us @ (p, k) # vs))" and d: "distinct (map fst (us @ (p, k) # vs))"
    using h unfolding holding_def by blast+
  have p: "map_of us p = None" "map_of vs p = None" using d by (force simp: map_of_eq_None_iff)+
  then have Mp: "map_of (us @ (p, k) # vs) p = Some k" by (simp add: map_add_def)
  have l: "legal c (map_of (us @ (p, k) # vs)) (Free p)" using Mp by simp
  obtain ks x where ks: "heap_ok env_ok T s ks" "p = data_ptr (base_address s) x" "lives 0 ks x = Some (Suc k)"
    using client_ok_live [OF history_ok [OF hist] Mp] by blast
  obtain s' ks' where s': "free ops c s p = Some s'" "heap_ok env_ok T s' ks'"
    using free_client [OF ks(1,3), of c] ks(2) by blast
  have "(map_of (us @ (p, k) # vs))(p := None) = map_of (us @ vs)"
    using p by (auto simp: map_add_def fun_eq_iff split: option.splits)
  moreover have "history ops env_init c s' (view_after (map_of (us @ (p, k) # vs)) (Free p) Done)"
    by (rule history_call [OF hist l]) (simp add: s'(1))
  ultimately have "holding ops env_init c s' (us @ vs)" using d by (simp add: holding_def)
  then show thesis using that s'(1) heap_base [OF s'(2)] by blast
qed

lemma holding_usable:
  assumes "holding ops env_init c s xs" "map_of xs p = Some k" "P (of_nat (32 * k))"
  shows "check_usable c s p P = Some ()"
proof -
  have "history ops env_init c s (map_of xs)" using assms(1) by (simp add: holding_def)
  from live_sound(2) [OF history_ok [OF this] assms(2)]
  have "usable_size c (mem s) p = Some (of_nat (32 * k))" .
  then show ?thesis using assms(3) by (simp add: check_usable_def)
qed

lemma holding_drop:
  assumes "holding ops env_init c s xs" "base_address s \<noteq> 0"
  obtains s' where "Allocator_drop ops s = Some s'" "mem s' \<subseteq>\<^sub>m mem s"
proof -
  have "history ops env_init c s (map_of xs)" using assms(1) by (simp add: holding_def)
  from drop_ok [OF history_ok [OF this] assms(2)] show thesis using that by blast
qed

end

context generous_env
begin

lemma holding_alloc:
  assumes h: "holding ops env_init c s xs" and a: "from_bytes_usize a = Some (sz i)" "is_power_of_two (raw_units (sz i))" "i < 2 ^ 32"
    and n: "from_bytes_usize n = Some (sz q)" "q + i \<le> 2 ^ 25"
    and f: "sum_list (map (\<lambda>x. Suc (snd x)) xs) + Suc (length xs) * (padded (q + i) - 1) < T"
  obtains p s' where "alloc_unwrap ops c s a n = Some (p, s')" "holding ops env_init c s' ((p, q) # xs)"
proof -
  have hist: "history ops env_init c s (map_of xs)" and d: "distinct (map fst xs)" using h unfolding holding_def by blast+
  have u: "units (sz q) = q" "units (sz i) = i" using n(2) a(3) by (simp_all add: units_sz)
  obtain p s' where ps: "alloc_impl ops c s (sz i) (sz q) False = Some (Some p, s')"
    using served_despite_fragmentation [OF hist a(2), of "sz q" False] n(2) f holding_used [OF d] unfolding u by auto
  have x: "map_of xs p = None" "history ops env_init c s' ((map_of xs)(p \<mapsto> q))"
    using alloc_history [OF hist, of "sz i" "sz q" False] ps u by simp_all
  have "p \<notin> fst ` set xs" using x(1) by (simp add: map_of_eq_None_iff)
  then have "holding ops env_init c s' ((p, q) # xs)" using x(2) d by (simp add: holding_def)
  moreover have "alloc_unwrap ops c s a n = Some (p, s')"
    using ps by (simp add: alloc_unwrap_def request_bytes_def a(1) n(1) alloc_def)
  ultimately show thesis using that by blast
qed

end

section \<open>The test of the operations\<close>

lemma test_sizes:
  "from_bytes_usize 0 = Some (sz 0)" "from_bytes_usize 1 = Some (sz 1)" "from_bytes_usize 65 = Some (sz 3)"
  "from_bytes_usize 128 = Some (sz 4)" "from_bytes_usize 255 = Some (sz 8)"
  "from_bytes_usize 32 = Some (sz 1)" "from_bytes_usize 64 = Some (sz 2)"
  by (simp_all add: from_bytes_usize_eq)

lemma test_alignments:
  "is_power_of_two (raw_units (sz 1))" "is_power_of_two (raw_units (sz 4))" "is_power_of_two (raw_units (sz 8))"
  using power_two_size [of 0] power_two_size [of 2] power_two_size [of 3] by simp_all

lemma padded_small: "n < 128 \<Longrightarrow> padded n = n"
  by (simp add: padded_def)

context generous_env
begin

lemma test_allocator_ok:
  assumes T: "128 \<le> T" and i: "env_init e m"
  shows "\<exists>s. test_allocator ops c e m = Some s"
proof -
  note aligned = holding_alloc [OF _ test_sizes(2) test_alignments(1)]
  have h: "holding ops env_init c (Allocator_new e m) []" by (rule holding_new [of env_init, OF i])
  obtain a0 s0 where s0: "alloc_unwrap ops c (Allocator_new e m) 1 1 = Some (a0, s0)" "holding ops env_init c s0 [(a0, 1)]"
    by (rule aligned [OF h _ test_sizes(2)]) (use T in \<open>simp_all add: padded_small\<close>)
  obtain a1 s1 where s1: "alloc_unwrap ops c s0 1 0 = Some (a1, s1)" "holding ops env_init c s1 [(a1, 0), (a0, 1)]"
    by (rule aligned [OF s0(2) _ test_sizes(1)]) (use T in \<open>simp_all add: padded_small\<close>)
  obtain a2 s2 where s2: "alloc_unwrap ops c s1 255 0 = Some (a2, s2)" "holding ops env_init c s2 [(a2, 0), (a1, 0), (a0, 1)]"
    by (rule holding_alloc [OF s1(2) test_sizes(5) test_alignments(3) _ test_sizes(1)]) (use T in \<open>simp_all add: padded_small\<close>)
  have d: "a0 \<noteq> a1" "a0 \<noteq> a2" "a1 \<noteq> a2" using s2(2) by (auto simp: holding_def)
  have u: "check_usable c s2 a0 (\<lambda>n. 1 \<le> n) = Some ()" "check_usable c s2 a1 (\<lambda>n. n = 0) = Some ()"
    "check_usable c s2 a2 (\<lambda>n. n = 0) = Some ()"
    using holding_usable [OF s2(2), where k = 1 and p = a0] holding_usable [OF s2(2), where k = 0] d by simp_all
  obtain a3 s3 where s3: "alloc_unwrap ops c s2 1 0 = Some (a3, s3)" "holding ops env_init c s3 [(a3, 0), (a2, 0), (a1, 0), (a0, 1)]"
    by (rule aligned [OF s2(2) _ test_sizes(1)]) (use T in \<open>simp_all add: padded_small\<close>)
  obtain s4 where s4: "free ops c s3 a3 = Some s4" "holding ops env_init c s4 [(a2, 0), (a1, 0), (a0, 1)]"
    by (rule holding_free [of c s3 "[]" a3]) (use s3(2) in simp_all)
  obtain s5 where s5: "free ops c s4 a0 = Some s5" "holding ops env_init c s5 [(a2, 0), (a1, 0)]"
    by (rule holding_free [of c s4 "[(a2, 0), (a1, 0)]" a0 1 "[]"]) (use s4(2) in simp_all)
  obtain a4 s6 where s6: "alloc_unwrap ops c s5 1 0 = Some (a4, s6)" "holding ops env_init c s6 [(a4, 0), (a2, 0), (a1, 0)]"
    by (rule aligned [OF s5(2) _ test_sizes(1)]) (use T in \<open>simp_all add: padded_small\<close>)
  obtain s7 where s7: "free ops c s6 a4 = Some s7" "holding ops env_init c s7 [(a2, 0), (a1, 0)]"
    by (rule holding_free [of c s6 "[]" a4]) (use s6(2) in simp_all)
  obtain s8 where s8: "free ops c s7 a1 = Some s8" "holding ops env_init c s8 [(a2, 0)]"
    by (rule holding_free [of c s7 "[(a2, 0)]" a1 0 "[]"]) (use s7(2) in simp_all)
  obtain a5 s9 where s9: "alloc_unwrap ops c s8 1 0 = Some (a5, s9)" "holding ops env_init c s9 [(a5, 0), (a2, 0)]"
    by (rule aligned [OF s8(2) _ test_sizes(1)]) (use T in \<open>simp_all add: padded_small\<close>)
  obtain s10 where s10: "free ops c s9 a5 = Some s10" "holding ops env_init c s10 [(a2, 0)]"
    by (rule holding_free [of c s9 "[]" a5]) (use s9(2) in simp_all)
  obtain s11 where s11: "free ops c s10 a2 = Some s11" "holding ops env_init c s11 []"
    by (rule holding_free [of c s10 "[]" a2]) (use s10(2) in simp_all)
  obtain a6 s12 where s12: "alloc_unwrap ops c s11 1 0 = Some (a6, s12)" "holding ops env_init c s12 [(a6, 0)]"
    by (rule aligned [OF s11(2) _ test_sizes(1)]) (use T in \<open>simp_all add: padded_small\<close>)
  obtain s13 where s13: "free ops c s12 a6 = Some s13" "holding ops env_init c s13 []"
    by (rule holding_free [of c s12 "[]" a6]) (use s12(2) in simp_all)
  obtain a7 s14 where s14: "alloc_unwrap ops c s13 255 255 = Some (a7, s14)" "holding ops env_init c s14 [(a7, 8)]"
    by (rule holding_alloc [OF s13(2) test_sizes(5) test_alignments(3) _ test_sizes(5)]) (use T in \<open>simp_all add: padded_small\<close>)
  obtain a8 s15 where s15: "alloc_unwrap ops c s14 128 65 = Some (a8, s15)" "holding ops env_init c s15 [(a8, 3), (a7, 8)]"
    by (rule holding_alloc [OF s14(2) test_sizes(4) test_alignments(2) _ test_sizes(3)]) (use T in \<open>simp_all add: padded_small\<close>)
  obtain s16 where s16: "free ops c s15 a7 = Some s16" "holding ops env_init c s16 [(a8, 3)]"
    by (rule holding_free [of c s15 "[(a8, 3)]" a7 8 "[]"]) (use s15(2) in simp_all)
  obtain s17 where s17: "free ops c s16 a8 = Some s17" "holding ops env_init c s17 []" "base_address s17 \<noteq> 0"
    by (rule holding_free [of c s16 "[]" a8]) (use s16(2) in simp_all)
  obtain s18 where s18: "Allocator_drop ops s17 = Some s18" by (rule holding_drop [OF s17(2,3)])
  show ?thesis
    by (simp add: test_allocator_def Let_def s0(1) s1(1) s2(1) u s3(1) s4(1) s5(1) s6(1) s7(1) s8(1) s9(1) s10(1) s11(1)
        s12(1) s13(1) s14(1) s15(1) s16(1) s17(1) s18)
qed

end

section \<open>The test of many small allocations\<close>

abbreviation small :: "Pointer list \<Rightarrow> (Pointer \<times> nat) list" where
  "small ps \<equiv> map (\<lambda>p. (p, 1)) ps"

text \<open>An allocator that serves requests like a heap with the given layout; a fresh one does, too.\<close>

definition acts_like ::
    "'e env_ops \<Rightarrow> ('e \<Rightarrow> memory \<Rightarrow> u64 \<Rightarrow> bool) \<Rightarrow> nat \<Rightarrow> build \<Rightarrow> 'e machine \<Rightarrow> layout \<Rightarrow> bool" where
  "acts_like ops env_ok T c s ks \<longleftrightarrow> (\<exists>s0. heap_ok env_ok T s0 ks \<and>
     (\<forall>q. alloc ops c s (sz 1) (sz q) = alloc ops c s0 (sz 1) (sz q)))"

lemma acts_like_heap: "heap_ok env_ok T s ks \<Longrightarrow> acts_like ops env_ok T c s ks"
  unfolding acts_like_def by blast

context generous_env
begin

lemma acts_like_fresh:
  assumes "env_init e m"
  shows "acts_like ops env_ok T c (Allocator_new e m) [(T, False)]"
proof -
  have f: "fresh_ok env_init (Allocator_new e m)" by (rule Allocator_new_fresh [of env_init, OF assms])
  obtain s0 where "heap_ok env_ok T s0 [(T, False)]"
    "\<And>a n z. is_power_of_two (raw_units a) \<Longrightarrow> alloc_impl ops c (Allocator_new e m) a n z = alloc_impl ops c s0 a n z"
    using fresh_started [OF f, of c] by metis
  then show ?thesis using test_alignments(1) unfolding acts_like_def alloc_def by blast
qed

lemma allocate_many_ok:
  "acts_like ops env_ok T c s (replicate j (2, True) @ left_over (2 * n)) \<Longrightarrow> holding ops env_init c s (small ps) \<Longrightarrow>
   \<exists>ps' s'. allocate_many ops c n s ps = Some (ps', s') \<and> length ps' = length ps + n \<and> holding ops env_init c s' (small ps')"
proof (induction n arbitrary: s j ps)
  case (Suc n)
  obtain s0 where s0: "heap_ok env_ok T s0 (replicate j (2, True) @ (2 * Suc n, False) # [])"
    "alloc ops c s (sz 1) (sz 1) = alloc ops c s0 (sz 1) (sz 1)"
    using Suc.prems(1) by (auto simp: acts_like_def left_over_def)
  have q: "padded (Suc 1) \<le> 2 * Suc n" by (simp add: padded_small)
  obtain s' where s': "alloc ops c s0 (sz 1) (sz 1) = Some (Some (data_ptr (base_address s0) (extent (replicate j (2, True)))), s')"
    "heap_ok env_ok T s' (replicate j (2, True) @ (Suc 1, True) # left_over (2 * Suc n - Suc 1) @ [])"
    by (rule exact_alloc [OF s0(1) _ q]) simp_all
  define p where "p = data_ptr (base_address s0) (extent (replicate j (2, True)))"
  have a: "alloc ops c s (sz 1) (sz 1) = Some (Some p, s')" using s0(2) s'(1) by (simp add: p_def)
  have hist: "history ops env_init c s (map_of (small ps))" and d: "distinct ps"
    using Suc.prems(2) by (simp_all add: holding_def o_def)
  have x: "map_of (small ps) p = None" "history ops env_init c s' ((map_of (small ps))(p \<mapsto> 1))"
    using alloc_history [OF hist, of "sz 1" "sz 1" False] a by (simp_all add: alloc_def units_sz)
  have "p \<notin> fst ` set (small ps)" using x(1) unfolding map_of_eq_None_iff .
  then have "p \<notin> set ps" by force
  then have "holding ops env_init c s' ((p, 1) # small ps)" using x(2) d by (simp add: holding_def o_def)
  then have h: "holding ops env_init c s' (small (ps @ [p]))" by (rule holding_perm) simp
  have "replicate j (2, True) @ (Suc 1, True) # left_over (2 * Suc n - Suc 1) @ [] = replicate (Suc j) (2, True) @ left_over (2 * n)"
    by (simp add: replicate_append_same numeral_2_eq_2)
  then have "acts_like ops env_ok T c s' (replicate (Suc j) (2, True) @ left_over (2 * n))"
    using acts_like_heap s'(2) by metis
  from Suc.IH [OF this h] show ?case using a by (simp add: alloc_unwrap_def request_bytes_def test_sizes)
qed simp

lemma swap_free:
  assumes "holding ops env_init c s (small ps)" "swap_remove ps i = Some (p, rest)"
  obtains s' where "free ops c s p = Some s'" "holding ops env_init c s' (small rest)" "base_address s' \<noteq> 0"
proof -
  have "mset (small ps) = mset ((p, 1) # small rest)" using swap_remove_mset(1) [OF assms(2)] by simp
  then have "holding ops env_init c s ([] @ (p, 1) # small rest)" using holding_perm [OF assms(1)] by simp
  then obtain s' where "free ops c s p = Some s'" "holding ops env_init c s' ([] @ small rest)" "base_address s' \<noteq> 0"
    by (rule holding_free)
  then show thesis using that by simp
qed

lemma free_middle_ok:
  "holding ops env_init c s (small ps) \<Longrightarrow> base_address s \<noteq> 0 \<Longrightarrow>
   \<exists>s'. free_middle ops c ps s = Some s' \<and> holding ops env_init c s' [] \<and> base_address s' \<noteq> 0"
proof (induction "length ps" arbitrary: ps s rule: less_induct)
  case less
  show ?case
  proof (cases "ps = []")
    case True
    then show ?thesis using less.prems by (simp add: free_middle.simps)
  next
    case False
    then obtain p rest where r: "swap_remove ps (length ps div 2) = Some (p, rest)" by (auto simp: swap_remove_def)
    obtain s' where s': "free ops c s p = Some s'" "holding ops env_init c s' (small rest)" "base_address s' \<noteq> 0"
      using swap_free [OF less.prems(1) r] by blast
    have "length rest < length ps" using swap_remove_length [OF r] by simp
    from less.hyps [OF this s'(2,3)] show ?thesis using False r s'(1) by (simp add: free_middle.simps [of ops c ps])
  qed
qed

lemma test_many_small_allocations_ok:
  assumes T: "T = 2 * n" and n: "2 \<le> n" and i: "env_init e m"
  shows "\<exists>s s'. test_many_small_allocations ops c e m n = Some s' \<and> history ops env_init c s Map.empty \<and> Allocator_drop ops s = Some s'"
proof -
  have "[(T, False)] = replicate 0 (2, True) @ left_over (2 * n)" using T n by (simp add: left_over_def)
  then have a: "acts_like ops env_ok T c (Allocator_new e m) (replicate 0 (2, True) @ left_over (2 * n))"
    using acts_like_fresh [OF i, of c] by metis
  have h0: "holding ops env_init c (Allocator_new e m) (small [])" using holding_new [of env_init, OF i] by simp
  obtain ps s1 where s1: "allocate_many ops c n (Allocator_new e m) [] = Some (ps, s1)" "length ps = n" "holding ops env_init c s1 (small ps)"
    using allocate_many_ok [OF a h0] by auto
  have hist: "history ops env_init c s1 (map_of (small ps))" and d: "distinct (map fst (small ps))"
    using s1(3) unfolding holding_def by blast+
  have "used (map_of (small ps)) = 2 * n" using holding_used [OF d] s1(2) by (simp add: o_def sum_list_triv)
  then have "T < used (map_of (small ps)) + Suc (units (sz 1))" using T by simp
  then obtain s2 where s2: "alloc_impl ops c s1 (sz 1) (sz 1) False = Some (None, s2)" "history ops env_init c s2 (map_of (small ps))"
    using full_alloc_fails [OF hist] by blast
  have h2: "holding ops env_init c s2 (small ps)" using s2(2) d by (simp add: holding_def)
  have none: "alloc_is_none ops c s1 1 1 = Some s2" using s2(1) by (simp add: alloc_is_none_def request_bytes_def test_sizes alloc_def)
  obtain qs q where q: "ps = qs @ [q]" using s1(2) n by (cases ps rule: rev_cases) auto
  have qs: "qs \<noteq> []" using s1(2) n q by auto
  have "holding ops env_init c s2 (small qs @ (q, 1) # [])" using h2 q by simp
  then obtain s3 where s3: "free ops c s2 q = Some s3" "holding ops env_init c s3 (small qs @ [])" by (rule holding_free)
  obtain p rest where r: "swap_remove qs 0 = Some (p, rest)" using qs by (auto simp: swap_remove_def)
  have "holding ops env_init c s3 (small qs)" using s3(2) by simp
  then obtain s4 where s4: "free ops c s3 p = Some s4" "holding ops env_init c s4 (small rest)" "base_address s4 \<noteq> 0"
    using swap_free [OF _ r] by blast
  obtain s5 where s5: "free_middle ops c rest s4 = Some s5" "holding ops env_init c s5 []" "base_address s5 \<noteq> 0"
    using free_middle_ok [OF s4(2,3)] by blast
  obtain s6 where "Allocator_drop ops s5 = Some s6" by (rule holding_drop [OF s5(2,3)])
  moreover have "history ops env_init c s5 Map.empty" using s5(2) by (simp add: holding_def)
  ultimately show ?thesis
    using s1(1) none q s3(1) r s4(1) s5(1) by (auto simp: test_many_small_allocations_def)
qed

end

section \<open>The tests of shrinking and growing\<close>

lemma same_size_eq: "from_bytes_usize 32 = Some (sz 1)" "from_bytes_usize 64 = Some (sz 2)"
  by (rule test_sizes)+

lemma alloc_unwrap_32:
  "alloc_unwrap ops c s 32 32 = (case alloc ops c s (sz 1) (sz 1) of Some (Some p, s') \<Rightarrow> Some (p, s') | _ \<Rightarrow> None)"
  "alloc_unwrap ops c s 32 64 = (case alloc ops c s (sz 1) (sz 2) of Some (Some p, s') \<Rightarrow> Some (p, s') | _ \<Rightarrow> None)"
  "alloc_is_none ops c s 32 32 = (case alloc ops c s (sz 1) (sz 1) of Some (None, s') \<Rightarrow> Some s' | _ \<Rightarrow> None)"
  by (auto simp: alloc_unwrap_def alloc_is_none_def request_bytes_def test_sizes assert_that_def split: option.splits)

context generous_env
begin

lemma small_four: "Suc 1 \<le> (4 :: nat)" "Suc 2 \<le> (4 :: nat)"
  by simp_all

lemma small_requests: "padded (Suc 1) \<le> 4" "padded (Suc 2) \<le> 4" "padded (Suc 1) \<le> 2"
  "Suc 1 \<le> 2 ^ 25" "Suc 2 \<le> 2 ^ 25" "1 < (2 :: nat) ^ 32" "4 < live_extent [(3, True), (1, False)] + Suc 1" "Suc 1 < 3"
  "2 < Suc 2" "Suc 2 \<le> 2 + 2"
  by (simp_all add: padded_small)

lemma test_layouts:
  "[] @ (Suc 1, True) # left_over (4 - Suc 1) @ [] = [(2, True)] @ (2, False) # []"
  "[(2, True)] @ (Suc 1, True) # left_over (2 - Suc 1) @ [] = [] @ (2, True) # [(2, True)]"
  "[] @ (Suc 2, True) # left_over (4 - Suc 2) @ [] = [] @ (3, True) # [(1, False)]"
  "freed [] 3 [(1, False)] = [] @ (4, False) # []" "freed [] 2 [(2, True)] = [(2, False)] @ (2, True) # []"
  "freed [(2, False)] 2 [] = [] @ (4, False) # []" "freed [(2, True)] 2 [] = [] @ (2, True) # (2, False) # []"
  "shrunk [] 3 1 [(1, False)] = [(2, True)] @ (2, False) # []"
  "[] @ (Suc 2, True) # left_over (2 + 2 - Suc 2) @ [] = [] @ (3, True) # [(1, False)]"
  "extent [] = 0" "extent [(2, b)] = 2"
  by (simp_all add: left_over_def freed_def shrunk_def drop_trail_free_def trail_free_def)

lemma all_allocated: "\<forall>k \<in> set ([] @ []). snd k" "\<forall>k \<in> set ([(n, True)] @ []). snd k"
  by simp_all

text \<open>The first allocation of an allocator that has four units.\<close>

lemma first_of_four:
  assumes T: "T = 4" and i: "env_init e m" and q: "Suc q \<le> 4"
  obtains b s where "alloc ops c (Allocator_new e m) (sz 1) (sz q) = Some (Some (data_ptr b 0), s)" "base_address s = b"
    "heap_ok env_ok T s ((Suc q, True) # left_over (4 - Suc q))"
proof -
  obtain s0 where s0: "heap_ok env_ok T s0 ([] @ (4, False) # [])"
    "alloc ops c (Allocator_new e m) (sz 1) (sz q) = alloc ops c s0 (sz 1) (sz q)"
    using acts_like_fresh [OF i, of c] T unfolding acts_like_def by auto
  obtain s where s: "alloc ops c s0 (sz 1) (sz q) = Some (Some (data_ptr (base_address s0) (extent [])), s)"
    "heap_ok env_ok T s ([] @ (Suc q, True) # left_over (4 - Suc q) @ [])" "base_address s = base_address s0"
  proof (rule exact_alloc [OF s0(1)])
    show "padded (Suc q) \<le> 4" "Suc q \<le> 2 ^ 25" using q by (simp_all add: padded_small)
  qed simp_all
  show thesis by (rule that [of "base_address s0" s]) (use s s0(2) in simp_all)
qed

lemma test_shrink_on_ok:
  assumes T: "T = 4" and i: "env_init e m"
  shows "\<exists>s. test_shrink_on ops c e m = Some s"
proof -
  obtain b s1 where s1: "alloc ops c (Allocator_new e m) (sz 1) (sz 2) = Some (Some (data_ptr b 0), s1)" "base_address s1 = b"
    "heap_ok env_ok T s1 ((Suc 2, True) # left_over (4 - Suc 2))" by (rule first_of_four [OF T i small_four(2)])
  have h1: "heap_ok env_ok T s1 [(3, True), (1, False)]" using s1(3) by (simp add: left_over_def)
  obtain s2 where s2: "alloc ops c s1 (sz 1) (sz 1) = Some (None, s2)" "heap_ok env_ok T s2 ([] @ (3, True) # [(1, False)])" "base_address s2 = b"
    by (rule alloc_no_space [OF h1 small_requests(7) [folded T] small_requests(6), of c]) (use s1(2) in simp_all)
  obtain s3 where s3: "free ops c s2 (data_ptr b 0) = Some s3" "heap_ok env_ok T s3 ([] @ (4, False) # [])" "base_address s3 = b"
    by (rule exact_free [OF s2(2), of c, unfolded test_layouts s2(3)])
  obtain s4 where s4: "alloc ops c s3 (sz 1) (sz 1) = Some (Some (data_ptr b 0), s4)"
    "heap_ok env_ok T s4 ([(2, True)] @ (2, False) # [])" "base_address s4 = b"
    by (rule exact_alloc [OF s3(2) all_allocated(1) small_requests(1,4), of c, unfolded test_layouts s3(3)])
  obtain s5 where s5: "alloc ops c s4 (sz 1) (sz 1) = Some (Some (data_ptr b 2), s5)"
    "heap_ok env_ok T s5 ([] @ (2, True) # [(2, True)])" "base_address s5 = b"
    by (rule exact_alloc [OF s4(2) all_allocated(2) small_requests(3,4), of c, unfolded test_layouts s4(3)])
  obtain s6 where s6: "free ops c s5 (data_ptr b 0) = Some s6" "heap_ok env_ok T s6 ([(2, False)] @ (2, True) # [])" "base_address s6 = b"
    by (rule exact_free [OF s5(2), of c, unfolded test_layouts s5(3)])
  obtain s7 where s7: "free ops c s6 (data_ptr b 2) = Some s7" "heap_ok env_ok T s7 ([] @ (4, False) # [])" "base_address s7 = b"
    by (rule exact_free [OF s6(2), of c, unfolded test_layouts s6(3)])
  obtain s8 where s8: "alloc ops c s7 (sz 1) (sz 2) = Some (Some (data_ptr b 0), s8)"
    "heap_ok env_ok T s8 ([] @ (3, True) # [(1, False)])" "base_address s8 = b"
    by (rule exact_alloc [OF s7(2) all_allocated(1) small_requests(2,5), of c, unfolded test_layouts s7(3)])
  have u8: "check_usable c s8 (data_ptr b 0) (\<lambda>n. n = 64) = Some ()"
    using exact_usable [OF s8(2), of c] s8(3) by (simp add: check_usable_def)
  obtain s9 where s9: "alloc ops c s8 (sz 1) (sz 1) = Some (None, s9)" "heap_ok env_ok T s9 ([] @ (3, True) # [(1, False)])" "base_address s9 = b"
    by (rule alloc_no_space [OF s8(2) [unfolded append_Nil] small_requests(7) [folded T] small_requests(6), of c]) (use s8(3) in simp_all)
  obtain s10 where s10: "shrink_inplace ops c s9 (data_ptr b 0) (sz 1) = Some s10" "heap_ok env_ok T s10 ([(2, True)] @ (2, False) # [])" "base_address s10 = b"
    by (rule exact_shrink [OF s9(2) zero_less_one small_requests(8), of c, unfolded test_layouts s9(3)])
  have u10: "check_usable c s10 (data_ptr b 0) (\<lambda>n. n = 32) = Some ()"
    using exact_usable [of s10 "[]" 2 "[(2, False)]" c] s10(2,3) by (simp add: check_usable_def)
  obtain s11 where s11: "alloc ops c s10 (sz 1) (sz 1) = Some (Some (data_ptr b 2), s11)"
    "heap_ok env_ok T s11 ([] @ (2, True) # [(2, True)])" "base_address s11 = b"
    by (rule exact_alloc [OF s10(2) all_allocated(2) small_requests(3,4), of c, unfolded test_layouts s10(3)])
  obtain s12 where s12: "free ops c s11 (data_ptr b 0) = Some s12" "heap_ok env_ok T s12 ([(2, False)] @ (2, True) # [])" "base_address s12 = b"
    by (rule exact_free [OF s11(2), of c, unfolded test_layouts s11(3)])
  obtain s13 where s13: "free ops c s12 (data_ptr b 2) = Some s13" "heap_ok env_ok T s13 ([] @ (4, False) # [])"
    by (rule exact_free [OF s12(2), of c, unfolded test_layouts s12(3)])
  obtain s14 where s14: "Allocator_drop ops s13 = Some s14" by (rule exact_drop [OF s13(2)])
  show ?thesis
    by (simp add: test_shrink_on_def Let_def alloc_unwrap_32 same_size_eq s1(1) s2(1) s3(1) s4(1) s5(1) s6(1) s7(1) s8(1)
        u8 s9(1) s10(1) u10 s11(1) s12(1) s13(1) s14 del: One_nat_def)
qed

lemma test_grow_on_ok:
  assumes T: "T = 4" and i: "env_init e m"
  shows "\<exists>s. test_grow_on ops c e m = Some s"
proof -
  obtain b s1 where s1: "alloc ops c (Allocator_new e m) (sz 1) (sz 1) = Some (Some (data_ptr b 0), s1)" "base_address s1 = b"
    "heap_ok env_ok T s1 ((Suc 1, True) # left_over (4 - Suc 1))" by (rule first_of_four [OF T i small_four(1)])
  have h1: "heap_ok env_ok T s1 ([(2, True)] @ (2, False) # [])" using s1(3) by (simp add: left_over_def numeral_2_eq_2)
  obtain s2 where s2: "alloc ops c s1 (sz 1) (sz 1) = Some (Some (data_ptr b 2), s2)"
    "heap_ok env_ok T s2 ([] @ (2, True) # [(2, True)])" "base_address s2 = b"
    by (rule exact_alloc [OF h1 all_allocated(2) small_requests(3,4), of c, unfolded test_layouts s1(2)])
  have g2: "grow_inplace ops c s2 (data_ptr b 0) (sz 2) = Some (None, s2)"
    using grow_inplace_stuck [OF heap_ok_inv [OF s2(2)] total_space_ok, of 2 c] s2(3) by simp
  have h2: "heap_ok env_ok T s2 ([(2, True)] @ (2, True) # [])" using s2(2) by simp
  obtain s3 where s3: "free ops c s2 (data_ptr b 2) = Some s3" "heap_ok env_ok T s3 ([] @ (2, True) # (2, False) # [])" "base_address s3 = b"
    by (rule exact_free [OF h2, of c, unfolded test_layouts s2(3)])
  obtain s4 where s4: "grow_inplace ops c s3 (data_ptr b 0) (sz 2) = Some (Some (sz 2), s4)"
    "heap_ok env_ok T s4 ([] @ (3, True) # [(1, False)])" "base_address s4 = b"
    by (rule exact_grow [OF s3(2) small_requests(9,10), of c, unfolded test_layouts s3(3)])
  have u4: "check_usable c s4 (data_ptr b 0) (\<lambda>n. n = 64) = Some ()"
    using exact_usable [OF s4(2), of c] s4(3) by (simp add: check_usable_def)
  obtain s5 where s5: "Allocator_drop ops s4 = Some s5" by (rule exact_drop [OF s4(2)])
  show ?thesis
    by (simp add: test_grow_on_def Let_def alloc_unwrap_32 same_size_eq s1(1) s2(1) g2 s3(1) s4(1) u4 s5 del: One_nat_def)
qed

end

section \<open>The tests on an array\<close>

interpretation array_test: generous_env "ArrayPointer_env SIZE" "array_start_at SIZE a m0" "array_ok_at SIZE a" "space SIZE"
  for SIZE a m0
proof (unfold_locales, goal_cases)
  case (1 e m b e' m')
  then show ?case using full_array.allocate_nonnull unfolding array_start_at_def by blast
next
  case (2 e m b n r e' m')
  then show ?case using full_array.expand_granted unfolding array_ok_at_def by blast
qed

text \<open>A large enough mapped block at a good address, of which a test takes the first part.\<close>

definition test_block :: "memory \<Rightarrow> u64 \<Rightarrow> bool" where
  "test_block m a \<longleftrightarrow> region_ok a 1024 \<and> (\<forall>i < 32768. byte_at m a i \<noteq> None)"

lemma test_store:
  assumes b: "test_block m a" and j: "j + length bs \<le> 32768"
  obtains m' where "store_bytes m (a + of_nat j) bs = Some m'" "test_block m' a"
    "\<And>k. k < 32768 \<Longrightarrow> byte_at m' a k = (if j \<le> k \<and> k < j + length bs then Some (bs ! (k - j)) else byte_at m a k)"
proof -
  have mapped: "byte_at m a (j + i) \<noteq> None" if "i < length bs" for i using b j that unfolding test_block_def by simp
  have R: "(32768 :: nat) \<le> 2 ^ 64" by simp
  obtain m' where m': "store_bytes m (a + of_nat j) bs = Some m'"
    "\<And>k. k < 32768 \<Longrightarrow> byte_at m' a k = (if j \<le> k \<and> k < j + length bs then Some (bs ! (k - j)) else byte_at m a k)"
    using store_bytes_at [OF mapped j R] by metis
  then have "test_block m' a" using b unfolding test_block_def by auto
  then show thesis using that m' by blast
qed

lemma test_store_first:
  assumes b: "test_block m a" and n: "length bs \<le> 32768"
  obtains m' where "store_bytes m a bs = Some m'" "test_block m' a"
proof -
  have j: "0 + length bs \<le> 32768" using n by simp
  obtain m' where m': "store_bytes m (a + of_nat 0) bs = Some m'" "test_block m' a" using test_store [OF b j] by metis
  have "a + of_nat 0 = a" by simp
  then show thesis using that [OF _ m'(2)] m'(1) by (simp only:)
qed

lemma test_array:
  assumes "test_block m a" "0 < space SIZE" "space SIZE \<le> 1024"
  shows "array_start_at SIZE a m (ArrayPointer a) m"
proof -
  have "region_ok a (space SIZE)" "mapped_until m a (space SIZE)"
    using assms by (auto simp: test_block_def region_ok_def mapped_until_def)
  then show ?thesis by (simp add: array_start_at_def array_ready_def array_ok_def)
qed

lemma test_spaces: "space 4096 = 128" "space 128 = 4" "space 16384 = 2 * 256"
  by (simp_all add: space_def const_size_def from_bytes_usize_eq)

lemma test_allocator_buffer_ok: "test_block m a \<Longrightarrow> \<exists>s. test_allocator_buffer c m a = Some s"
proof -
  assume b: "test_block m a"
  obtain m' where m': "store_bytes m a (replicate 4096 0) = Some m'" "test_block m' a"
    by (rule test_store_first [OF b, of "replicate 4096 0"]) (simp only: length_replicate, simp)
  have "array_start_at 4096 a m' (ArrayPointer a) m'" by (rule test_array [OF m'(2)]) (simp_all add: test_spaces)
  then obtain s where "test_allocator (ArrayPointer_env 4096) c (ArrayPointer a) m' = Some s"
    using array_test.test_allocator_ok [of 4096 a m' _ _ c] test_spaces(1) by fastforce
  then show ?thesis using m'(1) unfolding test_allocator_buffer_def by simp
qed

lemma test_array_128:
  assumes "test_block m a"
  obtains m' where "store_bytes m a (replicate 128 0) = Some m'" "array_start_at 128 a m' (ArrayPointer a) m'"
proof -
  obtain m' where m': "store_bytes m a (replicate 128 0) = Some m'" "test_block m' a"
    by (rule test_store_first [OF assms, of "replicate 128 0"]) (simp only: length_replicate, simp)
  have "array_start_at 128 a m' (ArrayPointer a) m'" by (rule test_array [OF m'(2)]) (simp_all add: test_spaces)
  then show thesis by (rule that [OF m'(1)])
qed

lemma test_shrink_ok: "test_block m a \<Longrightarrow> \<exists>s. test_shrink c m a = Some s"
proof -
  assume b: "test_block m a"
  obtain m' where m': "store_bytes m a (replicate 128 0) = Some m'" "array_start_at 128 a m' (ArrayPointer a) m'"
    by (rule test_array_128 [OF b])
  from array_test.test_shrink_on_ok [OF test_spaces(2) m'(2), of c] show ?thesis
    using m'(1) unfolding test_shrink_def by simp
qed

lemma test_grow_ok: "test_block m a \<Longrightarrow> \<exists>s. test_grow c m a = Some s"
proof -
  assume b: "test_block m a"
  obtain m' where m': "store_bytes m a (replicate 128 0) = Some m'" "array_start_at 128 a m' (ArrayPointer a) m'"
    by (rule test_array_128 [OF b])
  from array_test.test_grow_on_ok [OF test_spaces(2) m'(2), of c] show ?thesis
    using m'(1) unfolding test_grow_def by simp
qed

text \<open>The sentinel behind the array of the test of many allocations.\<close>

lemma test_many_small_allocations_buffer_ok: "test_block m a \<Longrightarrow> test_many_small_allocations_buffer c m a = Some ()"
proof -
  assume b: "test_block m a"
  have nums: "(1024 * 16 :: nat) = 16384" "(1024 * 16 :: u64) = 16384" by simp_all
  obtain m1 where m1: "store_bytes m a (replicate 16384 0) = Some m1" "test_block m1 a"
    by (rule test_store_first [OF b, of "replicate 16384 0"]) (simp only: length_replicate, simp)
  define ss :: "u8 list" where "ss = replicate 64 0b10101010"
  have ss: "length ss = 64" "\<And>i. i < 64 \<Longrightarrow> ss ! i = 0b10101010" unfolding ss_def by (simp_all only: length_replicate nth_replicate)
  obtain m2 where m2: "store_bytes m1 (a + of_nat 16384) ss = Some m2" "test_block m2 a"
    "\<And>k. k < 32768 \<Longrightarrow> byte_at m2 a k = (if 16384 \<le> k \<and> k < 16384 + length ss then Some (ss ! (k - 16384)) else byte_at m1 a k)"
    by (rule test_store [OF m1(2), of 16384 ss]) (use ss(1) in auto)
  have st: "array_start_at 16384 a m2 (ArrayPointer a) m2" by (rule test_array [OF m2(2)]) (simp_all add: test_spaces)
  obtain s s' where s: "test_many_small_allocations (ArrayPointer_env 16384) c (ArrayPointer a) m2 256 = Some s'"
    "history (ArrayPointer_env 16384) (array_start_at 16384 a m2) c s Map.empty" "Allocator_drop (ArrayPointer_env 16384) s = Some s'"
    using array_test.test_many_small_allocations_ok [OF test_spaces(3) _ st, of c] by auto
  have mem: "mem s' = mem s" using s(3) by (auto simp: Allocator_drop_def ArrayPointer_defs)
  have "byte_at (mem s') a (16384 + i) = Some 0b10101010" if i: "i < 64" for i
  proof -
    have sp: "32 * space 16384 = 16384" by (simp add: test_spaces)
    have "a + of_nat (16384 + i) - a = (of_nat (16384 + i) :: u64)" by simp
    moreover have "unat (of_nat (16384 + i) :: u64) = 16384 + i" using i by (intro unat_of_nat_small) simp
    ultimately have "32 * space 16384 \<le> unat (a + of_nat (16384 + i) - a)" unfolding sp by simp
    then have "byte_at (mem s') a (16384 + i) = byte_at m2 a (16384 + i)" unfolding mem byte_at_def by (rule array_confined [OF s(2)])
    also have "\<dots> = Some (ss ! i)" using m2(3) [of "16384 + i"] i ss(1) by simp
    finally show ?thesis using ss(2) [OF i] by simp
  qed
  then have "load_bytes (mem s') (a + of_nat 16384) 64 = Some (replicate 64 0b10101010)" by (rule load_bytes_constant)
  then have l: "load_bytes (mem s') (a + 16384) 64 = Some ss" by (simp only: ss_def of_nat_numeral)
  have m2': "store_bytes m1 (a + 16384) ss = Some m2" using m2(1) by (simp only: of_nat_numeral)
  have all: "\<forall>byte \<in> set ss. byte = 0b10101010" unfolding ss_def using in_set_replicate by metis
  show ?thesis
    unfolding test_many_small_allocations_buffer_def nums ss_def [symmetric] m1(1) m2' s(1) l bind.bind_lunit
    using all by (simp add: m2' s(1) l)
qed

section \<open>The tests on the operating system\<close>

lemma linux_spaces: "space (32 * 1024 * 1024) = 2 * 524288"
  by (simp add: space_def const_size_def from_bytes_usize_eq)

lemma test_allocator_system_ok:
  assumes "linux_init K 4096 k m"
  shows "\<exists>s. test_allocator_system K c k m = Some s"
  using generous_env.test_allocator_ok [OF full_linux.generous_env_axioms _ assms, of c]
  by (simp add: test_allocator_system_def test_spaces)

lemma test_many_small_allocations_native_ok:
  assumes "linux_init K (32 * 1024 * 1024) k m"
  shows "\<exists>s. test_many_small_allocations_native K c k m = Some s"
proof -
  have n: "2 \<le> (524288 :: nat)" by simp
  from generous_env.test_many_small_allocations_ok [OF full_linux.generous_env_axioms linux_spaces n assms, of c]
  show ?thesis unfolding test_many_small_allocations_native_def by blast
qed

section \<open>The test of the boundary\<close>

definition boundary_ok :: "u64 \<Rightarrow> TestEnv \<Rightarrow> memory \<Rightarrow> u64 \<Rightarrow> bool" where
  "boundary_ok a e m b \<longleftrightarrow> e = TestEnv a \<and> b = a \<and> region_ok a 2 \<and> mapped_until m a 2"

definition boundary_start :: "u64 \<Rightarrow> memory \<Rightarrow> TestEnv \<Rightarrow> memory \<Rightarrow> bool" where
  "boundary_start a m0 e m \<longleftrightarrow> boundary_ok a e m a \<and> m = m0"

lemma boundary_sizes: "const_size 64 = sz 2"
  by (simp add: const_size_def from_bytes_usize_eq)

lemmas boundary_defs = Boundary_env_def TestEnv_defs boundary_sizes boundary_start_def boundary_ok_def

lemma boundary_expand:
  assumes "boundary_ok a e m b" "n \<le> 2"
  shows "expand_memory_until (Boundary_env 256 64) e m b (sz n) = Some (True, e, m)" "mapped_until m b n"
proof -
  show "mapped_until m b n" using assms mapped_until_mono unfolding boundary_ok_def by blast
  show "expand_memory_until (Boundary_env 256 64) e m b (sz n) = Some (True, e, m)"
    using assms(2) by (simp add: boundary_defs Size_le_iff units_sz)
qed

interpretation boundary: still_env "Boundary_env 256 64" "boundary_start a m0" "boundary_ok a" 2 for a m0
proof (unfold_locales, goal_cases)
  case (1 e)
  then show ?case by (simp add: boundary_defs)
next
  case (2 e m b)
  then show ?case by (simp add: boundary_ok_def)
next
  case (3 e m b m')
  then show ?case using mapped_until_dom unfolding boundary_ok_def by blast
next
  case (4 e m)
  then have "a \<noteq> 0" using region_okD(4) by (auto simp: boundary_defs)
  then show ?case using 4 by (auto simp: boundary_defs)
next
  case (5 e m b n)
  then show ?case using boundary_expand [OF 5] by (intro exI [of _ True] exI [of _ e] exI [of _ m]) simp
next
  case (6 e m b)
  then show ?case by (simp add: boundary_defs)
next
  case (7 e m b e1 m1 e2 m2 e3 m3)
  then show ?case by (auto simp: boundary_defs)
next
  case (8 e m b e' m')
  then show ?case by (auto simp: boundary_defs)
next
  case (9 e m b n r e' m')
  then show ?case using boundary_expand(1) [OF 9(1,2)] by simp
qed

interpretation boundary_test: generous_env "Boundary_env 256 64" "boundary_start a m0" "boundary_ok a" 2 for a m0
proof (unfold_locales, goal_cases)
  case (1 e m b e' m')
  then show ?case using region_okD(4) by (auto simp: boundary_defs)
next
  case (2 e m b n r e' m')
  then show ?case using boundary_expand(1) [OF 2(1,2)] by simp
qed

lemma boundary_sentinel:
  assumes h: "history (Boundary_env 256 64) (boundary_start a m0) c s M"
    and m0: "\<And>i. i < 256 \<Longrightarrow> byte_at m0 a i = Some 0b10101010"
  shows "env s = TestEnv a" "TestEnv_drop 256 64 (TestEnv a) (mem s) = Some ()"
proof -
  have ok: "client_ok (boundary_start a m0) (boundary_ok a) 2 s M" by (rule boundary.history_ok [OF h])
  then show "env s = TestEnv a" unfolding client_ok_def fresh_ok_def heap_ok_def boundary_start_def boundary_ok_def by blast
  have "byte_at (mem s) a (64 + i) = Some 0b10101010" if i: "i < 192" for i
  proof -
    have "a + of_nat (64 + i) - a = (of_nat (64 + i) :: u64)" by simp
    moreover have "unat (of_nat (64 + i) :: u64) = 64 + i" using i by (intro unat_of_nat_small) simp
    ultimately have o: "32 * 2 \<le> unat (a + of_nat (64 + i) - a)" by simp
    have "mem s (a + of_nat (64 + i)) = m0 (a + of_nat (64 + i))"
      by (rule boundary.history_outside [OF h]) (use o in \<open>auto simp: boundary_start_def boundary_ok_def\<close>)
    then show ?thesis using m0 [of "64 + i"] i by (simp add: byte_at_def)
  qed
  then have "load_bytes (mem s) (a + of_nat 64) 192 = Some (replicate 192 0b10101010)" by (rule load_bytes_constant)
  then show "TestEnv_drop 256 64 (TestEnv a) (mem s) = Some ()" by (simp add: TestEnv_drop_def)
qed

lemma test_boundary_ok:
  assumes b: "test_block m a"
  shows "test_boundary c m a = Some ()"
proof -
  define bs :: "u8 list" where "bs = replicate 256 0b10101010"
  have bs: "length bs = 256" "\<And>i. i < 256 \<Longrightarrow> bs ! i = 0b10101010" unfolding bs_def by (simp_all only: length_replicate nth_replicate)
  have n: "0 + length bs \<le> 32768" using bs(1) by simp
  obtain m1 where m1: "store_bytes m (a + of_nat 0) bs = Some m1" "test_block m1 a"
    "\<And>k. k < 32768 \<Longrightarrow> byte_at m1 a k = (if 0 \<le> k \<and> k < 0 + length bs then Some (bs ! (k - 0)) else byte_at m a k)"
    by (rule test_store [OF b n], rule that)
  have s0: "store_bytes m a bs = Some m1" using m1(1) by simp
  have v: "byte_at m1 a i = Some 0b10101010" if "i < 256" for i using m1(3) [of i] bs that by simp
  have st: "boundary_start a m1 (TestEnv a) m1"
    using m1(2) by (auto simp: boundary_defs test_block_def region_ok_def mapped_until_def)
  let ?ops = "Boundary_env 256 64" and ?init = "boundary_start a m1"
  have h0: "holding ?ops ?init c (Allocator_new (TestEnv a) m1) []" by (rule holding_new [of ?init, OF st])
  have sizes: "from_bytes_usize 33 = Some (sz 2)" by (simp add: from_bytes_usize_eq)
  have f: "sum_list (map (\<lambda>x. Suc (snd x)) ([] :: (Pointer \<times> nat) list)) + Suc (length ([] :: (Pointer \<times> nat) list)) * (padded (1 + 1) - 1) < 2"
    by (simp add: padded_small)
  obtain p s1 where s1: "alloc_unwrap ?ops c (Allocator_new (TestEnv a) m1) 1 32 = Some (p, s1)" "holding ?ops ?init c s1 [(p, 1)]"
    using boundary_test.holding_alloc [OF h0 test_sizes(2) test_alignments(1) _ test_sizes(6) _ f] by auto
  have "holding ?ops ?init c s1 ([] @ (p, 1) # [])" using s1(2) by simp
  then obtain s2 where s2: "free ?ops c s1 p = Some s2" "holding ?ops ?init c s2 ([] @ [])" "base_address s2 \<noteq> 0"
    by (rule boundary.holding_free)
  have h2: "history ?ops ?init c s2 Map.empty" using s2(2) by (simp add: holding_def)
  have "2 < used Map.empty + Suc (units (sz 2))" by (simp add: units_sz)
  then obtain s3 where s3: "alloc_impl ?ops c s2 (sz 1) (sz 2) False = Some (None, s3)" "history ?ops ?init c s3 Map.empty"
    using boundary.full_alloc_fails [OF h2] by blast
  have none: "alloc_is_none ?ops c s2 1 33 = Some s3" using s3(1) by (simp add: alloc_is_none_def request_bytes_def test_sizes sizes alloc_def)
  have d: "Allocator_drop ?ops s3 = Some s3" by (simp add: Allocator_drop_def boundary_defs)
  show ?thesis
    unfolding test_boundary_def bs_def [symmetric] s0
    using boundary_sentinel [OF s3(2) v] by (simp add: Let_def s1(1) s2(1) none d)
qed

end
