(* ===== verification/Native.thy ===== *)
theory Native
  imports Libc Unit_Tests
begin

text \<open>
  The native library of \<^verbatim>\<open>native/src/lib.rs\<close> and its test. The library turns the C functions of
  \<^verbatim>\<open>Libc\<close> into those of the process, and the test fills two growing vectors through them, one of
  \<^verbatim>\<open>usize\<close> words, with which it is indexed and compared, and one of \<^verbatim>\<open>i32\<close> words, as nothing in the test
  says otherwise. A vector is modelled as the standard library has it: a buffer with a capacity and a number of
  elements in use, which is at first empty and not allocated, and at least doubles when it is full.
\<close>

section \<open>Vectors\<close>

text \<open>
  The size of the elements comes from their type; they are handled as the bytes that represent them.
  The buffer of a vector without capacity is a dangling pointer, whose address is the alignment of
  the elements, which for words is their size.
\<close>

record vec =
  vec_size :: nat
  vec_buffer :: u64
  vec_capacity :: nat
  vec_length :: nat

definition Vec_new :: "nat \<Rightarrow> vec" where
  "Vec_new w = \<lparr>vec_size = w, vec_buffer = of_nat w, vec_capacity = 0, vec_length = 0\<rparr>"

text \<open>
  A full vector grows to twice its capacity, and to four elements at least (for elements of more than one byte and
  at most 1024).
  Operations that allocate end in \<open>Some None\<close> when memory is exhausted, which ends the program; a panic is
  \<open>None\<close>, as everywhere.
\<close>

definition Vec_grow ::
    "(nat \<Rightarrow> bool) \<Rightarrow> 'e env_ops \<Rightarrow> build \<Rightarrow> 'e libc \<Rightarrow> vec \<Rightarrow> ('e libc \<times> vec) option option" where
  "Vec_grow sp ops c L v =
     (let n = max 4 (2 * vec_capacity v)
      in if 2 ^ 63 \<le> vec_size v * n then None
         else do {
           (q, L) \<leftarrow> (if vec_capacity v = 0 then malloc sp ops c L (of_nat (vec_size v * n))
                      else c_realloc sp ops c L (vec_buffer v) (of_nat (vec_size v * n)));
           Some (if q = 0 then None else Some (L, v\<lparr>vec_buffer := q, vec_capacity := n\<rparr>))
         })"

definition libc_write :: "'e libc \<Rightarrow> memory \<Rightarrow> 'e libc" where
  "libc_write L m = L\<lparr>global := (global L)\<lparr>mutex_value := (mutex_value (global L))\<lparr>mem := m\<rparr>\<rparr>\<rparr>"

definition Vec_push ::
    "(nat \<Rightarrow> bool) \<Rightarrow> 'e env_ops \<Rightarrow> build \<Rightarrow> 'e libc \<Rightarrow> vec \<Rightarrow> u8 list \<Rightarrow> ('e libc \<times> vec) option option" where
  "Vec_push sp ops c L v x = do {
     r \<leftarrow> (if vec_length v = vec_capacity v then Vec_grow sp ops c L v else Some (Some (L, v)));
     (case r of
        None \<Rightarrow> Some None
      | Some (L, v) \<Rightarrow> do {
          m \<leftarrow> store_bytes (global_mem (global L)) (vec_buffer v + of_nat (vec_size v * vec_length v)) x;
          Some (Some (libc_write L m, v\<lparr>vec_length := Suc (vec_length v)\<rparr>))
        })
   }"

text \<open>An element of a vector of \<^verbatim>\<open>usize\<close> words.\<close>

definition Vec_index :: "'e libc \<Rightarrow> vec \<Rightarrow> nat \<Rightarrow> u64 option" where
  "Vec_index L v n =
     (if n < vec_length v then load_u64 (global_mem (global L)) (vec_buffer v + of_nat (vec_size v * n)) else None)"

definition Vec_drop :: "(nat \<Rightarrow> bool) \<Rightarrow> 'e env_ops \<Rightarrow> build \<Rightarrow> 'e libc \<Rightarrow> vec \<Rightarrow> 'e libc option" where
  "Vec_drop sp ops c L v = (if vec_capacity v = 0 then Some L else c_free sp ops c L (vec_buffer v))"

section \<open>The test\<close>

text \<open>The representations of the numbers that the test pushes.\<close>

type_synonym i32 = "32 word"

definition usize_element :: "nat \<Rightarrow> u8 list" where
  "usize_element n = to_le 8 (of_nat n :: usize)"

definition i32_element :: "nat \<Rightarrow> u8 list" where
  "i32_element n = to_le 4 (of_nat n :: i32)"

text \<open>The loops of the test.\<close>

fun push_all ::
    "(nat \<Rightarrow> bool) \<Rightarrow> 'e env_ops \<Rightarrow> build \<Rightarrow> 'e libc \<Rightarrow> vec \<Rightarrow> u8 list list \<Rightarrow> ('e libc \<times> vec) option option" where
  "push_all sp ops c L v [] = Some (Some (L, v))"
| "push_all sp ops c L v (x # xs) = do {
     r \<leftarrow> Vec_push sp ops c L v x;
     (case r of None \<Rightarrow> Some None | Some (L, v) \<Rightarrow> push_all sp ops c L v xs)
   }"

fun check_all :: "'e libc \<Rightarrow> vec \<Rightarrow> nat list \<Rightarrow> unit option" where
  "check_all L v [] = Some ()"
| "check_all L v (n # ns) = do { x \<leftarrow> Vec_index L v n; assert_that (x = of_nat n); check_all L v ns }"

definition native_test_allocator ::
    "(nat \<Rightarrow> bool) \<Rightarrow> 'e env_ops \<Rightarrow> build \<Rightarrow> 'e libc \<Rightarrow> 'e libc option option" where
  "native_test_allocator sp ops c L = do {
     r \<leftarrow> push_all sp ops c L (Vec_new 8) (map usize_element [0..<1024]);
     (case r of None \<Rightarrow> Some None | Some (L, vec) \<Rightarrow> do {
        r \<leftarrow> push_all sp ops c L (Vec_new 4) (map i32_element [0..<1024]);
        (case r of None \<Rightarrow> Some None | Some (L, vec2) \<Rightarrow> do {
           r \<leftarrow> push_all sp ops c L vec (map usize_element [1024..<2048]);
           (case r of None \<Rightarrow> Some None | Some (L, vec) \<Rightarrow> do {
              check_all L vec [0..<2048];
              L \<leftarrow> Vec_drop sp ops c L vec2;
              L \<leftarrow> Vec_drop sp ops c L vec;
              Some (Some L)
            })
         })
      })
   }"

section \<open>Room for a request\<close>

definition roomy :: "nat \<Rightarrow> view \<Rightarrow> nat \<Rightarrow> bool" where
  "roomy T M n \<longleftrightarrow> Suc n \<le> 2 ^ 25 \<and> used M + Suc (card (dom M)) * (padded (Suc n) - 1) < T"

context generous_env
begin

text \<open>Where there is room for a new allocation, \<^verbatim>\<open>realloc\<close> does not fail either.\<close>

lemma realloc_served:
  assumes h: "history ops env_init c s M" and l: "legal c M (Realloc p (sz 1) n)" and n: "\<not> Size_is_empty n"
    and room: "roomy T M (units n)"
  shows "\<exists>q s'. realloc ops c s p (sz 1) n = Some (Some q, s')"
proof -
  have served: "\<exists>q s2. alloc ops c s1 (sz 1) n = Some (Some q, s2)" if "history ops env_init c s1 M" for s1
    using served_despite_fragmentation [OF that raw_units_1(1), where n = n and z = False] room
    unfolding roomy_def alloc_def by simp
  obtain r s' where r: "run_call ops c s (Realloc p (sz 1) n) = Some (r, s')"
    using client_step [OF history_ok [OF h] l] by blast
  then obtain q where q: "realloc ops c s p (sz 1) n = Some (q, s')" by auto
  have "q \<noteq> None"
  proof
    assume "q = None"
    obtain k where k: "usable_size_impl c (mem s) p = Some k" using q by (auto simp: realloc_def bind_eq_Some_conv)
    have "n \<noteq> k" using q k \<open>q = None\<close> by (auto simp: realloc_def)
    have M: "M p \<noteq> None" using l by (auto split: option.splits)
    define g where "g = (if realloc_inplace c then do { (r, s) \<leftarrow> grow_inplace ops c s p n; Some (r \<noteq> None, s) } else Some (False, s))"
    have g: "\<not> (realloc_inplace c \<and> n < k)" "(do { (grown, s) \<leftarrow> g;
       if grown then Some (Some p, s)
       else do {
         (r, s) \<leftarrow> alloc ops c s (sz 1) n;
         case r of
           None \<Rightarrow> Some (None, s)
         | Some new_pointer \<Rightarrow> do {
             m \<leftarrow> copy_nonoverlapping (mem s) (address p) (address new_pointer) (unat (bytes k));
             s \<leftarrow> free ops c (s\<lparr>mem := m\<rparr>) p;
             Some (Some new_pointer, s)
           }
       }}) = Some (None, s')"
      using q k n \<open>n \<noteq> k\<close> \<open>q = None\<close> unfolding realloc_def g_def
      by (auto simp: bind_eq_Some_conv split: if_splits)
    then obtain b s1 where b: "g = Some (b, s1)" by (auto simp: bind_eq_Some_conv)
    then have nb: "\<not> b" using g(2) by auto
    have "history ops env_init c s1 M"
    proof (cases "realloc_inplace c")
      case False
      then show ?thesis using b h by (simp add: g_def)
    next
      case True
      then obtain x where x: "grow_inplace ops c s p n = Some (x, s1)" "b = (x \<noteq> None)"
        using b by (auto simp: g_def bind_eq_Some_conv)
      then have run: "run_call ops c s (Grow_inplace p n) = Some (Grown None, s1)" using nb by simp
      show ?thesis using history_call [OF h _ run] M by simp
    qed
    then obtain y s2 where "alloc ops c s1 (sz 1) n = Some (Some y, s2)" using served by blast
    then show False using g(2) b nb by (auto simp: bind_eq_Some_conv)
  qed
  then show ?thesis using q by auto
qed

end

text \<open>\<^verbatim>\<open>malloc\<close> disturbs no allocation.\<close>

lemma contents_kept_le:
  assumes "contents_kept M M' m m'" "N \<subseteq>\<^sub>m M" "N \<subseteq>\<^sub>m M'"
  shows "contents_kept N N m m'"
  unfolding contents_kept_def
proof (intro allI impI)
  fix p k k' i
  assume a: "N p = Some k" "N p = Some k'" "i < 32 * min k k'"
  then have "M p = Some k" "M' p = Some k'" using assms(2,3) unfolding map_le_def by (metis domI)+
  then show "data_byte m' p i = data_byte m p i" using assms(1) a(3) unfolding contents_kept_def by blast
qed

context env_contract
begin

lemma malloc_kept:
  assumes g: "libc_ok ops env_init c L M" and f: "fair sp" and r: "malloc sp ops c L n = Some (q, L')"
  shows "contents_kept M M (global_mem (global L)) (global_mem (global L'))"
proof (cases "from_bytes_usize n")
  case None
  then show ?thesis using r by (auto simp: malloc_def aligned_alloc_def posix_memalign_def contents_kept_def split: if_splits)
next
  case (Some s)
  have gl: "global_ok ops env_init c (global L) M" using g by (simp add: libc_ok_def)
  have p: "from_bytes_usize SIZEOF_pointer = Some (sz 1)" by (simp add: from_bytes_usize_eq)
  have l: "legal c M (Alloc (sz 1) s)" by simp
  obtain x s' where x: "run_call ops c (mutex_value (global L)) (Alloc (sz 1) s) = Some (x, s')"
    "contents_kept (M |` (- moved_from (Alloc (sz 1) s))) (view_after M (Alloc (sz 1) s) x) (global_mem (global L)) (mem s')"
    "answer_ok M (global_mem (global L)) (mem s') (Alloc (sz 1) s) x"
    using locked_call [OF gl f l] by metis
  obtain y where y: "alloc ops c (mutex_value (global L)) (sz 1) s = Some (y, s')" "x = Allocated y" using x(1) by auto
  have w: "with_lock sp (\<lambda>m. alloc ops c m (sz 1) s) (global L) = Some (y, Mutex_new s')"
    unfolding with_lock_global [OF gl f] y(1) by simp
  have "global_mem (global L') = mem s'"
    using r w Some p by (auto simp: malloc_def aligned_alloc_def posix_memalign_def split: option.splits)
  moreover have "contents_kept M M (global_mem (global L)) (mem s')"
    by (rule contents_kept_le [OF x(2)]) (use x(3) y(2) in \<open>cases y; auto simp: map_le_def\<close>)+
  ultimately show ?thesis by simp
qed

end

section \<open>What a vector holds\<close>

definition vec_units :: "vec \<Rightarrow> nat" where
  "vec_units v = units_of_bytes (of_nat (vec_size v * vec_capacity v))"

definition vec_holds :: "view \<Rightarrow> memory \<Rightarrow> vec \<Rightarrow> u8 list list \<Rightarrow> bool" where
  "vec_holds M m v xs \<longleftrightarrow> 0 < vec_size v \<and> vec_size v \<le> 8 \<and> (\<forall>x \<in> set xs. length x = vec_size v) \<and> vec_length v = length xs \<and> length xs \<le> vec_capacity v \<and>
     vec_capacity v \<le> max 4 (2 * length xs) \<and>
     (vec_capacity v \<noteq> 0 \<longrightarrow> M (Pointer (vec_buffer v)) = Some (vec_units v)) \<and>
     (\<forall>i < vec_size v * length xs. data_byte m (Pointer (vec_buffer v)) i = Some (concat xs ! i))"

text \<open>The allocations that are not the vector's, and that an operation on it leaves them as they are.\<close>

definition others :: "view \<Rightarrow> vec \<Rightarrow> view" where
  "others M v = (if vec_capacity v = 0 then M else M(Pointer (vec_buffer v) := None))"

definition vec_frame :: "view \<Rightarrow> memory \<Rightarrow> vec \<Rightarrow> view \<Rightarrow> memory \<Rightarrow> vec \<Rightarrow> bool" where
  "vec_frame M m v M' m' v' \<longleftrightarrow> vec_size v' = vec_size v \<and> others M' v' = others M v \<and> contents_kept (others M v) (others M v) m m'"

lemma length_words: "\<forall>x \<in> set xs. length x = w \<Longrightarrow> length (concat xs) = w * length xs"
  by (induction xs) simp_all

lemma element_sizes:
  "\<forall>x \<in> set (map usize_element ns). length x = 8" "\<forall>x \<in> set (map i32_element ns). length x = 4"
  by (simp_all add: usize_element_def i32_element_def)

lemma vec_size_new: "vec_size (Vec_new w) = w"
  by (simp add: Vec_new_def)

lemma vec_new_holds: "0 < w \<Longrightarrow> w \<le> 8 \<Longrightarrow> vec_holds M m (Vec_new w) []" "others M (Vec_new w) = M"
  by (simp_all add: vec_holds_def others_def Vec_new_def)

lemma unat_bytes_of_words:
  assumes w: "w \<le> 8" and n: "n < 2 ^ 60"
  shows "unat (of_nat (w * n) :: u64) = w * n"
proof (rule unat_of_nat_small)
  have "w * n \<le> 8 * n" using w by (rule mult_le_mono1)
  also have "8 * n < 2 ^ 64" using n by simp
  finally show "w * n < 2 ^ LENGTH(64)" by simp
qed

lemma units_of_words: "w \<le> 8 \<Longrightarrow> n < 2 ^ 60 \<Longrightarrow> units_of_bytes (of_nat (w * n)) = (w * n + 31) div 32"
  unfolding units_of_bytes_def by (simp only: unat_bytes_of_words)

lemma le_units: "(a :: nat) \<le> 32 * ((a + 31) div 32)"
  by linarith

lemma vec_frame_refl [simp]: "vec_frame M m v M m v"
  by (simp add: vec_frame_def contents_kept_def)

lemma vec_frame_trans:
  assumes "vec_frame M m v M' m' v'" "vec_frame M' m' v' M'' m'' v''"
  shows "vec_frame M m v M'' m'' v''"
  using assms unfolding vec_frame_def contents_kept_def by metis

lemma others_le: "others M v \<subseteq>\<^sub>m M"
  by (auto simp: others_def map_le_def)

lemma vec_bytes_fit: "vec_size v \<le> 8 \<Longrightarrow> vec_capacity v < 2 ^ 60 \<Longrightarrow> vec_size v * vec_capacity v \<le> 32 * vec_units v"
  unfolding vec_units_def using units_of_words [of "vec_size v" "vec_capacity v"] le_units by simp

text \<open>The elements in use are within the buffer.\<close>

lemma vec_used_fit:
  assumes "vec_holds M m v xs" "vec_capacity v < 2 ^ 60" "n \<le> vec_capacity v"
  shows "vec_size v * n \<le> 32 * vec_units v"
proof -
  have "vec_size v \<le> 8" using assms(1) by (simp add: vec_holds_def)
  from vec_bytes_fit [OF this assms(2)] mult_le_mono2 [OF assms(3)] show ?thesis by (rule order_trans [rotated])
qed

text \<open>Another vector keeps its words.\<close>

lemma vec_frame_other:
  assumes f: "vec_frame M m v M' m' v'" and w: "vec_holds M m w ys" "others M v (Pointer (vec_buffer w)) \<noteq> None"
    and c: "vec_capacity w < 2 ^ 60"
  shows "vec_holds M' m' w ys" "others M' v' (Pointer (vec_buffer w)) \<noteq> None"
proof -
  let ?p = "Pointer (vec_buffer w)"
  have o: "others M' v' = others M v" and k: "contents_kept (others M v) (others M v) m m'"
    using f by (simp_all add: vec_frame_def)
  show "others M' v' ?p \<noteq> None" using w(2) o by simp
  obtain u where u: "others M v ?p = Some u" using w(2) by blast
  have MM: "M ?p = Some u" "M' ?p = Some u"
    using u o others_le [of M v] others_le [of M' v'] unfolding map_le_def by (metis domI)+
  have "data_byte m' ?p i = data_byte m ?p i" if i: "i < vec_size w * length ys" for i
  proof -
    have "ys \<noteq> []" using i by auto
    then have "vec_capacity w \<noteq> 0" "length ys \<le> vec_capacity w" using w(1) by (cases ys; auto simp: vec_holds_def)+
    then have "u = vec_units w" using w(1) MM(1) by (simp add: vec_holds_def)
    then have "i < 32 * u" using vec_used_fit [OF w(1) c \<open>length ys \<le> vec_capacity w\<close>] i by linarith
    then show ?thesis using k u unfolding contents_kept_def by simp
  qed
  then show "vec_holds M' m' w ys" using w(1) MM by (simp add: vec_holds_def)
qed

section \<open>Pushing\<close>

lemma units_of_words_mono:
  "w \<le> 8 \<Longrightarrow> m \<le> n \<Longrightarrow> n < 2 ^ 60 \<Longrightarrow> units_of_bytes (of_nat (w * m)) \<le> units_of_bytes (of_nat (w * n))"
  using units_of_words [of w m] units_of_words [of w n] div_le_mono [of "w * m + 31" "w * n + 31" 32] mult_le_mono2 [of m n w]
  by simp

context env_contract
begin

lemma Vec_grow_ok:
  assumes g: "libc_ok ops env_init c L M" and f: "fair sp" and v: "vec_holds M (global_mem (global L)) v xs"
    and full: "length xs = vec_capacity v" and small: "length xs < 2 ^ 50"
  shows "\<exists>r. Vec_grow sp ops c L v = Some r \<and> (case r of None \<Rightarrow> True | Some (L', v') \<Rightarrow> \<exists>M'.
    libc_ok ops env_init c L' M' \<and> vec_holds M' (global_mem (global L')) v' xs \<and> length xs < vec_capacity v' \<and>
    vec_frame M (global_mem (global L)) v M' (global_mem (global L')) v')"
proof -
  let ?n = "max 4 (2 * vec_capacity v)" and ?m = "global_mem (global L)" and ?w = "vec_size v"
  have w: "0 < ?w" "?w \<le> 8" using v by (simp_all add: vec_holds_def)
  have n: "?n < 2 ^ 60" "\<not> 2 ^ 63 \<le> 8 * ?n" "length xs < ?n" using full small by auto
  then have n2: "\<not> 2 ^ 63 \<le> ?w * ?n" using mult_le_mono1 [OF w(2), of ?n] by linarith
  have nz: "(of_nat (?w * ?n) :: u64) \<noteq> 0"
    using unat_bytes_of_words [OF w(2) n(1)] w(1) by (metis unsigned_0 mult_eq_0_iff n(3) not_less0 less_irrefl)
  let ?v = "\<lambda>q. v\<lparr>vec_buffer := q, vec_capacity := ?n\<rparr>"
  have fits: "?w * length xs \<le> 32 * vec_units (?v q)" for q
  proof -
    have "?w * ?n \<le> 32 * vec_units (?v q)" using vec_bytes_fit [of "?v q"] w(2) n(1) by simp
    with mult_le_mono2 [OF less_imp_le [OF n(3)]] show ?thesis by (rule order_trans)
  qed
  show ?thesis
  proof (cases "vec_capacity v = 0")
    case True
    then have xs: "xs = []" using full by simp
    obtain q L' M' where r: "malloc sp ops c L (of_nat (?w * ?n)) = Some (q, L')" "libc_ok ops env_init c L' M'"
      "allocated_or_errno M L q (units_of_bytes (of_nat (?w * ?n))) 8 {ENOMEM} M' L'"
      using malloc_ok [OF g f] by blast
    have run: "Vec_grow sp ops c L v = Some (if q = 0 then None else Some (L', ?v q))"
      unfolding Vec_grow_def Let_def using r(1) n2 True by (simp only: if_True if_False bind.simps prod.case simp_thms)
    show ?thesis
    proof (cases "q = 0")
      case True
      then show ?thesis using run by simp
    next
      case False
      then have M: "M (Pointer q) = None" "M' = M(Pointer q \<mapsto> vec_units (?v q))"
        using r(3) by (simp_all add: allocated_or_errno_def given_def vec_units_def)
      have "vec_frame M ?m v M' (global_mem (global L')) (?v q)"
        using malloc_kept [OF g f r(1)] M True by (simp add: vec_frame_def others_def fun_upd_idem)
      moreover have "vec_holds M' (global_mem (global L')) (?v q) xs" using v xs M True by (simp add: vec_holds_def)
      ultimately show ?thesis using run r(2) n(3) False by auto
    qed
  next
    case False
    let ?p = "Pointer (vec_buffer v)"
    have p: "M ?p = Some (vec_units v)" using v False by (simp add: vec_holds_def)
    have l: "vec_units v \<le> units_of_bytes (of_nat (?w * ?n))"
      unfolding vec_units_def by (rule units_of_words_mono) (use n(1) w(2) in auto)
    obtain q L' M' where r: "c_realloc sp ops c L (vec_buffer v) (of_nat (?w * ?n)) = Some (q, L')" "libc_ok ops env_init c L' M'"
      "regiven M ?m ?p q (units_of_bytes (of_nat (?w * ?n))) 32 M' (global_mem (global L'))"
      using realloc_ok_libc [OF g f p nz disjI2 [OF l]] by blast
    have run: "Vec_grow sp ops c L v = Some (if q = 0 then None else Some (L', ?v q))"
      unfolding Vec_grow_def Let_def using r(1) n2 False by (simp only: if_True if_False bind.simps prod.case simp_thms)
    show ?thesis
    proof (cases "q = 0")
      case True
      then show ?thesis using run by simp
    next
      case q: False
      then have R: "Pointer q = ?p \<or> M (Pointer q) = None" "M' = M(?p := None, Pointer q \<mapsto> vec_units (?v q))"
        "contents_kept (M(?p := None)) M' ?m (global_mem (global L'))"
        "\<And>i. i < 32 * min (vec_units v) (vec_units (?v q)) \<Longrightarrow> data_byte (global_mem (global L')) (Pointer q) i = data_byte ?m ?p i"
        using r(3) p by (auto simp: regiven_def vec_units_def)
      have o: "others M v = M(?p := None)" "others M' (?v q) = M(?p := None)"
        using R(1,2) False n(3) by (auto simp: others_def fun_upd_idem)
      have "M(?p := None) \<subseteq>\<^sub>m M'" using R(1,2) by (auto simp: map_le_def)
      then have "vec_frame M ?m v M' (global_mem (global L')) (?v q)"
        unfolding vec_frame_def o using contents_kept_le [OF R(3)] by simp
      moreover have "vec_holds M' (global_mem (global L')) (?v q) xs"
      proof -
        have "?w * length xs \<le> 32 * min (vec_units v) (vec_units (?v q))"
          using fits [of q] vec_used_fit [OF v, of "length xs"] full small by simp
        then have "data_byte (global_mem (global L')) (Pointer q) i = data_byte ?m ?p i" if "i < ?w * length xs" for i
          using R(4) that by simp
        then show ?thesis using v n(3) R(2) full by (auto simp: vec_holds_def)
      qed
      ultimately show ?thesis using run r(2) n(3) q by auto
    qed
  qed
qed

lemma libc_write_simps [simp]: "global_mem (global (libc_write L m)) = m" "errno (libc_write L m) = errno L"
  by (simp_all add: libc_write_def)

lemma Vec_write_ok:
  assumes g: "libc_ok ops env_init c L M" and v: "vec_holds M (global_mem (global L)) v xs"
    and room: "length xs < vec_capacity v" and small: "length xs < 2 ^ 50" and x: "length x = vec_size v"
  shows "\<exists>m. store_bytes (global_mem (global L)) (vec_buffer v + of_nat (vec_size v * vec_length v)) x = Some m \<and>
    libc_ok ops env_init c (libc_write L m) M \<and> vec_holds M m (v\<lparr>vec_length := Suc (vec_length v)\<rparr>) (xs @ [x]) \<and>
    vec_frame M (global_mem (global L)) v M m (v\<lparr>vec_length := Suc (vec_length v)\<rparr>)"
proof -
  let ?p = "Pointer (vec_buffer v)" and ?s = "mutex_value (global L)" and ?v = "v\<lparr>vec_length := Suc (vec_length v)\<rparr>"
    and ?w = "vec_size v"
  have c: "vec_capacity v < 2 ^ 60" using v small by (auto simp: vec_holds_def)
  have p: "M ?p = Some (vec_units v)" using v room by (simp add: vec_holds_def)
  have h: "history ops env_init c ?s M" "\<not> mutex_flag (global L)" using g by (simp_all add: libc_ok_def global_ok_def)
  have fit: "?w * length xs + length x \<le> 32 * vec_units v"
    using vec_used_fit [OF v c, of "Suc (length xs)"] room x by simp
  obtain m where m: "store_bytes (mem ?s) (vec_buffer v + of_nat (?w * length xs)) x = Some m"
    "history ops env_init c (?s\<lparr>mem := m\<rparr>) M" "wrote M ?p (?w * length xs) x (mem ?s) m"
    using history_store_bytes [OF h(1) p fit] by auto
  have "vec_length v = length xs" using v by (simp add: vec_holds_def)
  then have "store_bytes (mem ?s) (vec_buffer v + of_nat (?w * vec_length v)) x = Some m" using m(1) by (simp only:)
  moreover have "libc_ok ops env_init c (libc_write L m) M"
    using m(2) h(2) by (simp add: libc_ok_def global_ok_def libc_write_def)
  moreover have "vec_holds M m ?v (xs @ [x])"
  proof -
    have "data_byte m ?p i = Some (concat (xs @ [x]) ! i)" if i: "i < ?w * length (xs @ [x])" for i
    proof -
      have "i < 32 * vec_units v" using i fit x by simp
      then have "data_byte m ?p i =
          (if ?w * length xs \<le> i \<and> i < ?w * length xs + length x then Some (x ! (i - ?w * length xs)) else data_byte (mem ?s) ?p i)"
        using m(3) p unfolding wrote_def by simp
      then show ?thesis using v i x length_words [of xs ?w] by (auto simp: vec_holds_def nth_append)
    qed
    then show ?thesis using v room p x by (auto simp: vec_holds_def vec_units_def)
  qed
  moreover have "vec_frame M (mem ?s) v M m ?v"
    using m(3) room by (auto simp: vec_frame_def others_def contents_kept_def wrote_def)
  ultimately show ?thesis by blast
qed

lemma Vec_push_ok:
  assumes g: "libc_ok ops env_init c L M" and f: "fair sp" and v: "vec_holds M (global_mem (global L)) v xs"
    and small: "length xs < 2 ^ 50" and x: "length x = vec_size v"
  shows "\<exists>r. Vec_push sp ops c L v x = Some r \<and> (case r of None \<Rightarrow> True | Some (L', v') \<Rightarrow> \<exists>M'.
    libc_ok ops env_init c L' M' \<and> vec_holds M' (global_mem (global L')) v' (xs @ [x]) \<and>
    vec_frame M (global_mem (global L)) v M' (global_mem (global L')) v')"
proof -
  have len: "vec_length v = length xs" "length xs \<le> vec_capacity v" using v by (simp_all add: vec_holds_def)
  obtain r where r: "(if vec_length v = vec_capacity v then Vec_grow sp ops c L v else Some (Some (L, v))) = Some r"
    "case r of None \<Rightarrow> True | Some (L', v') \<Rightarrow> \<exists>M'.
      libc_ok ops env_init c L' M' \<and> vec_holds M' (global_mem (global L')) v' xs \<and> length xs < vec_capacity v' \<and>
      vec_frame M (global_mem (global L)) v M' (global_mem (global L')) v'"
  proof (cases "length xs = vec_capacity v")
    case True
    then show thesis using that Vec_grow_ok [OF g f v True small] len(1) by auto
  next
    case False
    then show thesis using that [of "Some (L, v)"] len g v by fastforce
  qed
  show ?thesis
  proof (cases r)
    case None
    then show ?thesis using r(1) by (simp add: Vec_push_def)
  next
    case (Some Lv)
    obtain L1 v1 where L1: "Lv = (L1, v1)" by (cases Lv)
    obtain M1 where M1: "libc_ok ops env_init c L1 M1" "vec_holds M1 (global_mem (global L1)) v1 xs" "length xs < vec_capacity v1"
      "vec_frame M (global_mem (global L)) v M1 (global_mem (global L1)) v1" using r(2) Some L1 by auto
    have x1: "length x = vec_size v1" using M1(4) x by (simp add: vec_frame_def)
    obtain m where m: "store_bytes (global_mem (global L1)) (vec_buffer v1 + of_nat (vec_size v1 * vec_length v1)) x = Some m"
      "libc_ok ops env_init c (libc_write L1 m) M1" "vec_holds M1 m (v1\<lparr>vec_length := Suc (vec_length v1)\<rparr>) (xs @ [x])"
      "vec_frame M1 (global_mem (global L1)) v1 M1 m (v1\<lparr>vec_length := Suc (vec_length v1)\<rparr>)"
      using Vec_write_ok [OF M1(1-3) small x1] by blast
    have "Vec_push sp ops c L v x = Some (Some (libc_write L1 m, v1\<lparr>vec_length := Suc (vec_length v1)\<rparr>))"
      unfolding Vec_push_def r(1) Some L1 using m(1) by (simp del: of_nat_mult)
    then show ?thesis using m(2,3) vec_frame_trans [OF M1(4) m(4)] by auto
  qed
qed

end

text \<open>
  Memory is exhausted at a push onto a vector of fewer than \<open>N\<close> words, at a time when \<open>R\<close> is all there is
  besides the vector.
\<close>

definition push_exhausted ::
    "(nat \<Rightarrow> bool) \<Rightarrow> 'e env_ops \<Rightarrow> ('e \<Rightarrow> memory \<Rightarrow> bool) \<Rightarrow> build \<Rightarrow> view \<Rightarrow> nat \<Rightarrow> bool" where
  "push_exhausted sp ops env_init c R N \<longleftrightarrow> (\<exists>L M v xs x. length x = vec_size v \<and> libc_ok ops env_init c L M \<and>
     vec_holds M (global_mem (global L)) v xs \<and> length xs < N \<and> others M v = R \<and> Vec_push sp ops c L v x = Some None)"

context env_contract
begin

lemma push_all_cases:
  assumes "libc_ok ops env_init c L M" "fair sp" "vec_holds M (global_mem (global L)) v xs" "length xs + length ns < 2 ^ 50"
    "\<forall>x \<in> set ns. length x = vec_size v"
  obtains (exhausted) "push_all sp ops c L v ns = Some None" "push_exhausted sp ops env_init c (others M v) (length xs + length ns)"
  | (pushed) L' v' M' where "push_all sp ops c L v ns = Some (Some (L', v'))" "libc_ok ops env_init c L' M'"
      "vec_holds M' (global_mem (global L')) v' (xs @ ns)"
      "vec_frame M (global_mem (global L)) v M' (global_mem (global L')) v'"
  using assms
proof (induction ns arbitrary: L M v xs thesis)
  case Nil
  then show ?case by (metis append_Nil2 push_all.simps(1) vec_frame_refl)
next
  case (Cons n ns)
  have small: "length xs < 2 ^ 50" "length (xs @ [n]) + length ns < 2 ^ 50" using Cons.prems(6) by simp_all
  have n: "length n = vec_size v" "\<forall>x \<in> set ns. length x = vec_size v" using Cons.prems(7) by simp_all
  obtain r where r: "Vec_push sp ops c L v n = Some r" "case r of None \<Rightarrow> True | Some (L', v') \<Rightarrow> \<exists>M'.
      libc_ok ops env_init c L' M' \<and> vec_holds M' (global_mem (global L')) v' (xs @ [n]) \<and>
      vec_frame M (global_mem (global L)) v M' (global_mem (global L')) v'"
    using Vec_push_ok [OF Cons.prems(3-5) small(1) n(1)] by blast
  show ?case
  proof (cases r)
    case None
    then have "push_exhausted sp ops env_init c (others M v) (length xs + length (n # ns))"
      using Cons.prems(3,5) r(1) n(1) unfolding push_exhausted_def by fastforce
    then show ?thesis using Cons.prems(1) r(1) None by simp
  next
    case (Some Lv)
    obtain L1 v1 where L1: "Lv = (L1, v1)" by (cases Lv)
    obtain M1 where M1: "libc_ok ops env_init c L1 M1" "vec_holds M1 (global_mem (global L1)) v1 (xs @ [n])"
      "vec_frame M (global_mem (global L)) v M1 (global_mem (global L1)) v1" using r(2) Some L1 by auto
    have run: "push_all sp ops c L v (n # ns) = push_all sp ops c L1 v1 ns" using r(1) Some L1 by simp
    have o: "others M1 v1 = others M v" "\<forall>x \<in> set ns. length x = vec_size v1" using M1(3) n(2) by (simp_all add: vec_frame_def)
    show ?thesis
    proof (rule Cons.IH [OF _ _ M1(1) Cons.prems(4) M1(2) small(2) o(2)])
      assume "push_all sp ops c L1 v1 ns = Some None"
        "push_exhausted sp ops env_init c (others M1 v1) (length (xs @ [n]) + length ns)"
      then show thesis using Cons.prems(1) run o(1) by simp
    next
      fix L' v' M'
      assume "push_all sp ops c L1 v1 ns = Some (Some (L', v'))" "libc_ok ops env_init c L' M'"
        "vec_holds M' (global_mem (global L')) v' ((xs @ [n]) @ ns)"
        "vec_frame M1 (global_mem (global L1)) v1 M' (global_mem (global L')) v'"
      then show thesis using Cons.prems(2) run vec_frame_trans [OF M1(3)] by simp
    qed
  qed
qed

end

section \<open>Reading back\<close>

lemma nth_words:
  "\<forall>x \<in> set xs. length x = w \<Longrightarrow> n < length xs \<Longrightarrow> i < w \<Longrightarrow> concat xs ! (w * n + i) = xs ! n ! i"
proof (induction xs arbitrary: n)
  case (Cons x xs)
  then show ?case by (cases n) (simp_all add: nth_append)
qed simp

lemma Vec_index_ok:
  assumes v: "vec_holds M (global_mem (global L)) v (map usize_element ns)" and n: "n < length ns"
  shows "Vec_index L v n = Some (of_nat (ns ! n))"
proof -
  let ?m = "global_mem (global L)" and ?x = "of_nat (ns ! n) :: usize"
  have len: "\<forall>x \<in> set (map usize_element ns). length x = 8" by (simp add: usize_element_def)
  have "length (usize_element (ns ! n)) = vec_size v" using v n by (auto simp: vec_holds_def)
  then have w: "vec_size v = 8" by (simp add: usize_element_def)
  have b: "?m (vec_buffer v + of_nat (8 * n) + of_nat i) = Some (to_le 8 ?x ! i)" if i: "i < 8" for i
  proof -
    have "8 * n + i < 8 * length ns" using n i by simp
    then have "data_byte ?m (Pointer (vec_buffer v)) (8 * n + i) = Some (to_le 8 ?x ! i)"
      using v n w nth_words [OF len, of n i] i by (simp add: vec_holds_def usize_element_def)
    then show ?thesis by (simp add: data_byte_def add.assoc)
  qed
  then have "load_bytes ?m (vec_buffer v + of_nat (8 * n)) 8 = Some (to_le 8 ?x)"
    unfolding load_bytes_eq by (auto simp del: of_nat_mult intro!: nth_equalityI)
  then show ?thesis using v n w by (simp add: Vec_index_def load_u64_def vec_holds_def del: of_nat_mult)
qed

lemma check_all_ok:
  assumes "vec_holds M (global_mem (global L)) v (map usize_element [0..<k])" "\<forall>n \<in> set ns. n < k"
  shows "check_all L v ns = Some ()"
  using assms(2) by (induction ns) (simp_all add: Vec_index_ok [OF assms(1)])

section \<open>The outcome of the test\<close>

context env_contract
begin

lemma Vec_drop_ok:
  assumes g: "libc_ok ops env_init c L M" and f: "fair sp" and v: "vec_capacity v \<noteq> 0 \<longrightarrow> M (Pointer (vec_buffer v)) \<noteq> None"
  shows "\<exists>L'. Vec_drop sp ops c L v = Some L' \<and> libc_ok ops env_init c L' (others M v)"
proof (cases "vec_capacity v = 0")
  case True
  then show ?thesis using g by (simp add: Vec_drop_def others_def)
next
  case False
  then show ?thesis using free_ok_libc [OF g f, of "vec_buffer v"] v by (auto simp: Vec_drop_def others_def)
qed

lemma upt_join: "i \<le> j \<Longrightarrow> j \<le> k \<Longrightarrow> [i..<j] @ [j..<k] = [i..<k]"
  by (metis le_Suc_ex upt_add_eq_append)

lemma others_push:
  assumes v: "vec_holds M m v xs" "xs \<noteq> []" "length xs \<le> 2048"
  shows "vec_capacity v \<noteq> 0" "vec_capacity v < 2 ^ 60" "vec_units v \<le> 1024"
    "M = (others M v)(Pointer (vec_buffer v) \<mapsto> vec_units v)" "others M v (Pointer (vec_buffer v)) = None"
proof -
  show c: "vec_capacity v \<noteq> 0" "vec_capacity v < 2 ^ 60" using v by (cases xs; auto simp: vec_holds_def)+
  have "vec_capacity v \<le> 4096" using v(1,3) by (auto simp: vec_holds_def)
  then have "vec_size v * vec_capacity v \<le> 8 * 4096" using v(1) by (intro mult_le_mono) (simp_all add: vec_holds_def)
  then have "(vec_size v * vec_capacity v + 31) div 32 \<le> 1024" by linarith
  then show "vec_units v \<le> 1024" using v(1) units_of_words [of "vec_size v", OF _ c(2)] by (simp add: vec_units_def vec_holds_def)
  show "M = (others M v)(Pointer (vec_buffer v) \<mapsto> vec_units v)" "others M v (Pointer (vec_buffer v)) = None"
    using v(1) c(1) by (auto simp: others_def vec_holds_def)
qed

text \<open>
  The test never fails, whatever else is allocated: when it ends it has freed what it allocated, and it
  does end unless memory is exhausted while the test holds at most one other vector.
\<close>

theorem native_test_cases:
  assumes g: "libc_ok ops env_init c L M" and f: "fair sp"
  obtains (exhausted) R where "native_test_allocator sp ops c L = Some None" "push_exhausted sp ops env_init c R 2048"
      "R = M \<or> (\<exists>p k. M p = None \<and> k \<le> 1024 \<and> R = M(p \<mapsto> k))"
  | (passed) L' where "native_test_allocator sp ops c L = Some (Some L')" "libc_ok ops env_init c L' M"
proof -
  define lo where "lo = map usize_element [0..<1024]"
  define lo4 where "lo4 = map i32_element [0..<1024]"
  define hi where "hi = map usize_element [1024..<2048]"
  define both where "both = [0..<2048 :: nat]"
  note test = native_test_allocator_def [folded lo_def lo4_def hi_def both_def, of sp ops c L]
  have new: "vec_holds N m (Vec_new 8) []" "vec_holds N m (Vec_new 4) []" "others N (Vec_new w) = N" for N m w
    by (rule vec_new_holds(1), simp, simp)+ (rule vec_new_holds(2))
  have ex_mono: "push_exhausted sp ops env_init c R 2048" if "push_exhausted sp ops env_init c R N" "N \<le> 2048" for R N
    using that(1) less_le_trans [OF _ that(2)] unfolding push_exhausted_def by fast
  have lo: "lo \<noteq> []" "length lo \<le> 2048" "length ([] :: u8 list list) + length lo < 2 ^ 50"
    "length lo + length hi < 2 ^ 50" "length ([] :: u8 list list) + length lo \<le> 2048" "length lo + length hi \<le> 2048"
    by (simp_all add: lo_def hi_def)
  have lo4: "lo4 \<noteq> []" "length lo4 \<le> 2048" "length ([] :: u8 list list) + length lo4 < 2 ^ 50"
    "length ([] :: u8 list list) + length lo4 \<le> 2048"
    by (simp_all add: lo4_def)
  have lo_size: "\<forall>x \<in> set lo. length x = vec_size (Vec_new 8)" "\<forall>x \<in> set hi. length x = 8"
      "\<forall>x \<in> set lo4. length x = vec_size (Vec_new 4)"
    unfolding lo_def hi_def lo4_def vec_size_new by (rule element_sizes)+
  from g f new(1) lo(3) lo_size(1) show thesis
  proof (cases rule: push_all_cases)
    case exhausted
    have ex: "push_exhausted sp ops env_init c M 2048" by (rule ex_mono [OF exhausted(2) [unfolded new(3)] lo(5)])
    show thesis by (rule that(1) [OF _ ex disjI1 [OF refl]]) (simp add: test exhausted(1))
  next
    case ph1: (pushed L1 v1 M1)
    have h1: "vec_holds M1 (global_mem (global L1)) v1 lo" "others M1 v1 = M" "vec_size v1 = 8"
      using ph1(3,4) new(3) vec_size_new by (simp_all add: vec_frame_def)
    note o1 = others_push [OF h1(1) lo(1,2), unfolded h1(2)]
    from ph1(2) f new(2) lo4(3) lo_size(3) show thesis
    proof (cases rule: push_all_cases)
      case exhausted
      have ex: "push_exhausted sp ops env_init c M1 2048" by (rule ex_mono [OF exhausted(2) [unfolded new(3)] lo4(4)])
      show thesis
        by (rule that(1) [OF _ ex]) (use o1 in \<open>auto simp: test ph1(1) exhausted(1)\<close>)
    next
      case ph2: (pushed L2 v2 M2)
      have h2: "vec_holds M2 (global_mem (global L2)) v2 lo4" "others M2 v2 = M1"
        using ph2(3,4) new(3) by (simp_all add: vec_frame_def)
      note o2 = others_push [OF h2(1) lo4(1,2), unfolded h2(2)]
      have ne: "Pointer (vec_buffer v1) \<noteq> Pointer (vec_buffer v2)" using o1(4) o2(5) by (metis fun_upd_same option.distinct(1))
      have v1: "vec_holds M2 (global_mem (global L2)) v1 lo"
        by (rule vec_frame_other(1) [OF ph2(4) h1(1) _ o1(2)]) (use o1(4) new(3) in \<open>metis fun_upd_same option.distinct(1)\<close>)
      have M2: "others M2 v1 = M(Pointer (vec_buffer v2) \<mapsto> vec_units v2)" "M (Pointer (vec_buffer v2)) = None"
        using o1(1,4,5) o2(4,5) ne by (auto simp: others_def fun_eq_iff split: if_splits)
      have hi: "\<forall>x \<in> set hi. length x = vec_size v1" using lo_size(2) h1(3) by simp
      from ph2(2) f v1 lo(4) hi show thesis
      proof (cases rule: push_all_cases)
        case exhausted
        have ex: "push_exhausted sp ops env_init c (others M2 v1) 2048" by (rule ex_mono [OF exhausted(2) lo(6)])
        show thesis
          by (rule that(1) [OF _ ex])
            (use M2 o2(3) in \<open>auto simp: test ph1(1) ph2(1) exhausted(1)\<close>)
      next
        case ph3: (pushed L3 v3 M3)
        have "[0..<1024] @ [1024..<2048] = both" unfolding both_def by (rule upt_join) simp_all
        then have all: "lo @ hi = map usize_element both" unfolding lo_def hi_def by (metis map_append)
        have h3: "vec_holds M3 (global_mem (global L3)) v3 (map usize_element both)" "others M3 v3 = M(Pointer (vec_buffer v2) \<mapsto> vec_units v2)"
          using ph3(3,4) M2(1) unfolding all by (simp_all add: vec_frame_def)
        have "length (map usize_element both) \<le> 2048" "map usize_element both \<noteq> []" by (simp_all add: both_def)
        note o3 = others_push [OF h3(1) this(2,1)]
        have ck: "check_all L3 v3 both = Some ()" by (rule check_all_ok [OF h3(1) [unfolded both_def]]) (unfold both_def set_upt, auto)
        have b2: "M3 (Pointer (vec_buffer v2)) \<noteq> None"
          using others_le [of M3 v3] h3(2) unfolding map_le_def by (metis domI fun_upd_same option.distinct(1))
        obtain L4 where L4: "Vec_drop sp ops c L3 v2 = Some L4" "libc_ok ops env_init c L4 (others M3 v2)"
          using Vec_drop_ok [OF ph3(2) f, of v2] b2 by blast
        have ne3: "Pointer (vec_buffer v3) \<noteq> Pointer (vec_buffer v2)" using o3(5) h3(2) by (metis fun_upd_same option.distinct(1))
        have "others M3 v2 (Pointer (vec_buffer v3)) \<noteq> None" using o3(4) ne3 by (auto simp: others_def fun_eq_iff split: if_splits)
        then obtain L5 where L5: "Vec_drop sp ops c L4 v3 = Some L5" "libc_ok ops env_init c L5 (others (others M3 v2) v3)"
          using Vec_drop_ok [OF L4(2) f, of v3] by blast
        have "others (others M3 v2) v3 = (others M3 v3)(Pointer (vec_buffer v2) := None)"
          using o2(1) o3(1) by (auto simp: others_def fun_upd_twist)
        also have "\<dots> = M" unfolding h3(2) using M2(2) by (simp add: fun_upd_idem)
        finally have "libc_ok ops env_init c L5 M" using L5(2) by simp
        then show thesis using that(2) ck L4(1) L5(1) ph1(1) ph2(1) ph3(1)
          by (simp add: test)
      qed
    qed
  qed
qed

end

section \<open>The test passes\<close>

lemma from_bytes_words:
  assumes w: "0 < w" "w \<le> 8" and n: "n \<le> 4096" "0 < n"
  shows "\<exists>s. from_bytes_usize (of_nat (w * n)) = Some s \<and> units s \<le> 1024 \<and> \<not> Size_is_empty s"
proof -
  let ?u = "(w * n + 31) div 32"
  have "w * n \<le> 8 * 4096" using mult_le_mono [OF w(2) n(1)] .
  then have u: "?u \<le> 1024" by linarith
  have "from_bytes_usize (of_nat (w * n)) = Some (sz ?u)"
    unfolding from_bytes_usize_eq using unat_bytes_of_words [OF w(2), of n] n(1) u by simp
  moreover have "units (sz ?u) = ?u" using u by (intro units_sz) simp
  moreover have "0 < w * n" using w(1) n(2) by simp
  then have "0 < ?u" by linarith
  ultimately show ?thesis using u by (intro exI [of _ "sz ?u"]) (auto simp: Size_is_empty_iff)
qed

lemma padded_mono: "m \<le> n \<Longrightarrow> padded m \<le> padded n"
  unfolding padded_def by (intro add_mono div_le_mono)

lemma roomy_le: "roomy T M n \<Longrightarrow> m \<le> n \<Longrightarrow> roomy T M m"
proof -
  assume r: "roomy T M n" and m: "m \<le> n"
  have "padded (Suc m) - 1 \<le> padded (Suc n) - 1" using padded_mono [of "Suc m" "Suc n"] m by simp
  then have "Suc (card (dom M)) * (padded (Suc m) - 1) \<le> Suc (card (dom M)) * (padded (Suc n) - 1)" by (rule mult_le_mono2)
  then show ?thesis using r m unfolding roomy_def by linarith
qed

context generous_env
begin

lemma malloc_not_null:
  assumes g: "libc_ok ops env_init c L M" and f: "fair sp" and n: "from_bytes_usize n = Some s" and room: "roomy T M (units s)"
    and r: "malloc sp ops c L n = Some (q, L')"
  shows "q \<noteq> 0"
proof -
  have gl: "global_ok ops env_init c (global L) M" using g by (simp add: libc_ok_def)
  have p: "from_bytes_usize SIZEOF_pointer = Some (sz 1)" by (simp add: from_bytes_usize_eq)
  obtain p' s' where a: "alloc ops c (mutex_value (global L)) (sz 1) s = Some (Some p', s')"
    using served_despite_fragmentation [OF global_okD [OF gl] raw_units_1(1), where n = s and z = False] room
    unfolding roomy_def alloc_def by auto
  have w: "with_lock sp (\<lambda>m. alloc ops c m (sz 1) s) (global L) = Some (Some p', Mutex_new s')"
    unfolding with_lock_global [OF gl f] a by simp
  have "q = address p'" using r w n p by (simp add: malloc_def aligned_alloc_def posix_memalign_def)
  moreover have "address p' \<noteq> 0"
    using locked_alloc [OF gl f, of False "sz 1" s] w by (auto simp: pointer_or_null_def)
  ultimately show ?thesis by simp
qed

lemma realloc_not_null:
  assumes g: "libc_ok ops env_init c L M" and f: "fair sp" and n: "from_bytes_usize n = Some s" "\<not> Size_is_empty s" "n \<noteq> 0"
    and p: "M (Pointer p) = Some k" "k \<le> units s" and room: "roomy T M (units s)"
    and r: "c_realloc sp ops c L p n = Some (q, L')"
  shows "q \<noteq> 0"
proof -
  have gl: "global_ok ops env_init c (global L) M" using g by (simp add: libc_ok_def)
  have nz: "p \<noteq> 0" using live_pointer [OF gl p(1)] by simp
  have l: "legal c M (Realloc (Pointer p) (sz 1) s)" using p raw_units_1(1) by (auto simp del: raw_units_sz)
  obtain p' s' where a: "realloc ops c (mutex_value (global L)) (Pointer p) (sz 1) s = Some (Some p', s')"
    using realloc_served [OF global_okD [OF gl] l n(2) room] by blast
  have w: "with_lock sp (\<lambda>m. realloc ops c m (Pointer p) (sz 1) s) (global L) = Some (Some p', Mutex_new s')"
    unfolding with_lock_global [OF gl f] a by simp
  have "q = address p'" using r w n nz by (simp add: c_realloc_def)
  moreover have "address p' \<noteq> 0"
    using locked_realloc [OF gl f l n(2)] w by (auto simp: pointer_or_null_def)
  ultimately show ?thesis by simp
qed

lemma push_not_exhausted:
  assumes f: "fair sp" and R: "used R + 1025 + Suc (Suc (card (dom R))) * 1032 < T"
  shows "\<not> push_exhausted sp ops env_init c R 2048"
proof
  assume "push_exhausted sp ops env_init c R 2048"
  then obtain L M v xs x where w0: "length x = vec_size v" and a: "libc_ok ops env_init c L M" "vec_holds M (global_mem (global L)) v xs"
    "length xs < 2048" "others M v = R" "Vec_push sp ops c L v x = Some None" unfolding push_exhausted_def by blast
  let ?n = "max 4 (2 * vec_capacity v)" and ?w = "vec_size v"
  have w: "0 < ?w" "?w \<le> 8" using a(2) by (simp_all add: vec_holds_def)
  have full: "vec_length v = vec_capacity v" using a(5) by (auto simp: Vec_push_def bind_eq_Some_conv split: if_splits)
  obtain y where y: "Vec_grow sp ops c L v = Some y" using a(5) full by (auto simp: Vec_push_def bind_eq_Some_conv)
  have gr: "Vec_grow sp ops c L v = Some None"
  proof (cases y)
    case (Some Lv)
    then show ?thesis using a(5) full y by (cases Lv) (auto simp: Vec_push_def bind_eq_Some_conv)
  qed (use y in simp)
  have len: "length xs = vec_capacity v" using a(2) full by (simp add: vec_holds_def)
  then have n: "?n \<le> 4096" "0 < ?n" "?n < 2 ^ 60" using a(3) by auto
  have "?w * ?n < 2 ^ 63" by (rule le_less_trans [OF mult_le_mono [OF w(2) n(1)]]) simp
  then have n4: "\<not> 2 ^ 63 \<le> ?w * ?n" by (simp only: not_le)
  obtain s where s: "from_bytes_usize (of_nat (?w * ?n)) = Some s" "units s \<le> 1024" "\<not> Size_is_empty s"
    using from_bytes_words [OF w n(1,2)] by blast
  have fin: "finite (dom M)"
    using used_bound(2) a(1) unfolding libc_ok_def global_ok_def by blast
  have "used M \<le> used R + 1025 \<and> card (dom M) \<le> Suc (card (dom R))"
  proof (cases "xs = []")
    case True
    then have "M = R" using len a(4) by (simp add: others_def)
    then show ?thesis by simp
  next
    case False
    note o = others_push [OF a(2) False less_imp_le [OF a(3)], unfolded a(4)]
    have finR: "finite (dom R)" using fin a(4) by (auto simp: others_def split: if_splits)
    show ?thesis
      using used_upd [OF finR o(5), of "vec_units v"] o(3) card_insert_disjoint [OF finR, of "Pointer (vec_buffer v)"] o(5)
      by (subst (1 2) o(4)) (auto simp: domIff)
  qed
  moreover have "padded (Suc 1024) - 1 = 1032" by (simp add: padded_def)
  moreover have "Suc (card (dom M)) * 1032 \<le> Suc (Suc (card (dom R))) * 1032"
    using calculation(1) by (intro mult_le_mono1) simp
  ultimately have "roomy T M 1024" using R unfolding roomy_def by simp
  then have room: "roomy T M (units s)" by (rule roomy_le [OF _ s(2)])
  show False
  proof (cases "vec_capacity v = 0")
    case True
    obtain q L' where q: "malloc sp ops c L (of_nat (?w * ?n)) = Some (q, L')" using malloc_ok [OF a(1) f] by blast
    have "Vec_grow sp ops c L v = Some (if q = 0 then None else Some (L', v\<lparr>vec_buffer := q, vec_capacity := ?n\<rparr>))"
      unfolding Vec_grow_def Let_def using q n4 True by (simp only: if_True if_False bind.simps prod.case simp_thms)
    then show False using gr malloc_not_null [OF a(1) f s(1) room q] by simp
  next
    case False
    have p: "M (Pointer (vec_buffer v)) = Some (vec_units v)" using a(2) False by (simp add: vec_holds_def)
    have k: "vec_units v \<le> units s"
      unfolding vec_units_def from_bytes_units [OF s(1), THEN conjunct1] by (rule units_of_words_mono) (use n(3) w(2) in auto)
    have nz: "(of_nat (?w * ?n) :: u64) \<noteq> 0" using s(1,3) from_bytes_empty [OF s(1)] by blast
    obtain q L' where q: "c_realloc sp ops c L (vec_buffer v) (of_nat (?w * ?n)) = Some (q, L')"
      using a(5) gr False n4 unfolding Vec_grow_def Let_def by (auto simp: bind_eq_Some_conv split: if_splits)
    have "Vec_grow sp ops c L v = Some (if q = 0 then None else Some (L', v\<lparr>vec_buffer := q, vec_capacity := ?n\<rparr>))"
      unfolding Vec_grow_def Let_def using q n4 False by (simp only: if_True if_False bind.simps prod.case simp_thms)
    then show False using gr realloc_not_null [OF a(1) f s(1,3) nz p k room q] by simp
  qed
qed

theorem native_test_passes:
  assumes g: "libc_ok ops env_init c L M" and f: "fair sp" and M: "used M + 2050 + (card (dom M) + 3) * 1032 < T"
  shows "\<exists>L'. native_test_allocator sp ops c L = Some (Some L') \<and> libc_ok ops env_init c L' M"
  using g f
proof (cases rule: native_test_cases)
  case (exhausted R)
  have fin: "finite (dom M)" using used_bound(2) g unfolding libc_ok_def global_ok_def by blast
  have "used R + 1025 + Suc (Suc (card (dom R))) * 1032 < T"
    using exhausted(3)
  proof (elim disjE exE conjE)
    fix p k assume p: "M p = None" "k \<le> 1024" "R = M(p \<mapsto> k)"
    have "used R = Suc k + used M" unfolding p(3) by (rule used_upd [OF fin p(1)])
    moreover have "card (dom R) = Suc (card (dom M))" unfolding p(3) using fin p(1) by (simp add: card_insert_if domIff)
    ultimately show ?thesis using M p(2) by simp
  qed (use M in simp)
  then show ?thesis using push_not_exhausted [OF f] exhausted(2) by blast
qed blast

end

end
