(* ===== verification/Specification.thy ===== *)
theory Specification
  imports Safety
begin

text \<open>
  What the allocator promises, without the heap: an abstract machine whose state is a finite set of
  blocks of bytes, each at a pointer. Its steps say what each call may answer and do to the blocks; it
  has no chunks, headers, bins or free lists, and leaves open where new blocks are placed, what fresh
  memory holds and when a request is refused. \<open>contents\<close> reads the blocks off a state of the allocator
  and the client's record, and every legal call on the allocator is a step of the machine.
\<close>

section \<open>The abstract machine\<close>

type_synonym blocks = "Pointer \<rightharpoonup> u8 list"

definition sizes_of :: "blocks \<Rightarrow> view" where
  "sizes_of S p = map_option (\<lambda>bs. length bs div 32) (S p)"

text \<open>
  A block of \<open>n\<close> units can stand at \<open>p\<close>: it is aligned, does not wrap, and lies apart from every other
  block of the view.
\<close>

definition placed :: "view \<Rightarrow> Pointer \<Rightarrow> nat \<Rightarrow> bool" where
  "placed V p n \<longleftrightarrow> address p \<noteq> 0 \<and> 32 dvd unat (address p) \<and> unat (address p) + 32 * n < 2 ^ 64 \<and>
     (\<forall>q k. q \<noteq> p \<longrightarrow> V q = Some k \<longrightarrow> separate q k p n)"

text \<open>A new block, for a request of \<open>n\<close> units aligned to \<open>a\<close>.\<close>

definition new_block :: "blocks \<Rightarrow> Size \<Rightarrow> Size \<Rightarrow> Pointer \<Rightarrow> u8 list \<Rightarrow> bool" where
  "new_block S a n p bs \<longleftrightarrow> S p = None \<and> 32 * units a dvd unat (address p) \<and> length bs = 32 * units n \<and>
     placed (sizes_of S) p (units n)"

text \<open>The flag \<open>z\<close> tells whether the environment delivers zeroed memory.\<close>

inductive spec_step :: "bool \<Rightarrow> blocks \<Rightarrow> call \<Rightarrow> answer \<Rightarrow> blocks \<Rightarrow> bool" for z where
  spec_alloc: "new_block S a n p bs \<Longrightarrow> spec_step z S (Alloc a n) (Allocated (Some p)) (S(p \<mapsto> bs))"
| spec_alloc_refused: "spec_step z S (Alloc a n) (Allocated None) S"
| spec_alloc_zeroed: "new_block S a n p bs \<Longrightarrow> z \<longrightarrow> set bs \<subseteq> {0} \<Longrightarrow>
    spec_step z S (Alloc_zeroed a n) (Allocated (Some p)) (S(p \<mapsto> bs))"
| spec_alloc_zeroed_refused: "spec_step z S (Alloc_zeroed a n) (Allocated None) S"
| spec_free: "spec_step z S (Free p) Done (S(p := None))"
| spec_shrink: "S p = Some bs \<Longrightarrow> \<not> Size_is_empty n \<Longrightarrow>
    spec_step z S (Shrink_inplace p n) Done (S(p \<mapsto> take (32 * units n) bs))"
| spec_shrink_empty: "Size_is_empty n \<Longrightarrow> spec_step z S (Shrink_inplace p n) Done (S(p := None))"
| spec_grow: "S p = Some bs \<Longrightarrow> length (bs @ bs') = max (length bs) (32 * units n) \<Longrightarrow>
    length (bs @ bs') = 32 * units g \<Longrightarrow> placed (sizes_of S) p (units g) \<Longrightarrow>
    spec_step z S (Grow_inplace p n) (Grown (Some g)) (S(p \<mapsto> bs @ bs'))"
| spec_grow_refused: "spec_step z S (Grow_inplace p n) (Grown None) S"
| spec_realloc: "S p = Some bs \<Longrightarrow> length bs' = 32 * units n \<Longrightarrow>
    take (min (length bs) (length bs')) bs' = take (min (length bs) (length bs')) bs \<Longrightarrow>
    q = p \<or> S q = None \<and> 32 * units a dvd unat (address q) \<Longrightarrow>
    placed ((sizes_of S)(p := None)) q (units n) \<Longrightarrow>
    spec_step z S (Realloc p a n) (Allocated (Some q)) (S(p := None, q \<mapsto> bs'))"
| spec_realloc_empty: "Size_is_empty n \<Longrightarrow> spec_step z S (Realloc p a n) (Allocated None) (S(p := None))"
| spec_realloc_refused: "\<not> Size_is_empty n \<Longrightarrow> spec_step z S (Realloc p a n) (Allocated None) S"

inductive_cases spec_stepE: "spec_step z S call r S'"

text \<open>Runs of the machine, with the client's writes to its blocks.\<close>

inductive spec_run :: "bool \<Rightarrow> build \<Rightarrow> blocks \<Rightarrow> bool" for z c where
  spec_run_new: "spec_run z c Map.empty"
| spec_run_call: "spec_run z c S \<Longrightarrow> legal c (sizes_of S) call \<Longrightarrow> spec_step z S call r S' \<Longrightarrow> spec_run z c S'"
| spec_run_store: "spec_run z c S \<Longrightarrow> S p = Some bs \<Longrightarrow> i < length bs \<Longrightarrow> spec_run z c (S(p \<mapsto> bs[i := v]))"

section \<open>The invariant of the machine\<close>

definition blocks_ok :: "blocks \<Rightarrow> bool" where
  "blocks_ok S \<longleftrightarrow> (\<forall>p bs. S p = Some bs \<longrightarrow> 32 dvd length bs \<and> placed (sizes_of S) p (length bs div 32))"

lemma sizes_of_upd [simp]: "sizes_of (S(p := v)) = (sizes_of S)(p := map_option (\<lambda>bs. length bs div 32) v)"
  by (auto simp: sizes_of_def fun_eq_iff)

lemma separate_sym: "separate p k q l \<longleftrightarrow> separate q l p k"
  by (auto simp: separate_def)

lemma separate_le: "separate q l p k \<Longrightarrow> k' \<le> k \<Longrightarrow> separate q l p k'"
  by (auto simp: separate_def)

lemma placed_other:
  assumes "placed V q l" "q \<noteq> p" "\<And>n. v = Some n \<Longrightarrow> separate p n q l"
  shows "placed (V(p := v)) q l"
  using assms unfolding placed_def by auto

lemma placed_same [simp]: "placed (V(p := v)) p n = placed V p n"
  unfolding placed_def by auto

lemma placedD: "placed V p n \<Longrightarrow> q \<noteq> p \<Longrightarrow> V q = Some k \<Longrightarrow> separate q k p n"
  by (simp add: placed_def)

lemma placed_le: "placed V p n \<Longrightarrow> n' \<le> n \<Longrightarrow> placed V p n'"
  unfolding placed_def by (elim conjE, intro conjI) (linarith | assumption | blast intro: separate_le)+

lemma placed_restrict: "placed V p n \<Longrightarrow> placed (V(q := None)) p n"
  unfolding placed_def by auto

text \<open>Blocks may be removed, and replaced or added where there is room.\<close>

lemma blocks_ok_remove: "blocks_ok S \<Longrightarrow> blocks_ok (S(p := None))"
  unfolding blocks_ok_def using placed_restrict by auto

lemma blocks_ok_place:
  assumes S: "blocks_ok S" and p: "length bs = 32 * n" "placed (sizes_of S) p n"
  shows "blocks_ok (S(p \<mapsto> bs))"
  unfolding blocks_ok_def
proof (intro allI impI)
  fix q cs
  assume q: "(S(p \<mapsto> bs)) q = Some cs"
  show "32 dvd length cs \<and> placed (sizes_of (S(p \<mapsto> bs))) q (length cs div 32)"
  proof (cases "q = p")
    case True
    then show ?thesis using q p by simp
  next
    case False
    then have cs: "S q = Some cs" using q by simp
    then have ok: "32 dvd length cs" "placed (sizes_of S) q (length cs div 32)" using S unfolding blocks_ok_def by blast+
    have "separate p n q (length cs div 32)"
      using placedD [OF p(2) False] cs separate_sym by (simp add: sizes_of_def)
    then show ?thesis using ok placed_other [OF ok(2) False, of "Some n"] p(1) by simp
  qed
qed

lemma blocks_okD:
  assumes "blocks_ok S" "S p = Some bs"
  shows "32 dvd length bs" "placed (sizes_of S) p (length bs div 32)" "length bs = 32 * (length bs div 32)"
  using assms unfolding blocks_ok_def by auto

theorem spec_step_ok: "spec_step z S call r S' \<Longrightarrow> blocks_ok S \<Longrightarrow> blocks_ok S'"
proof (induction rule: spec_step.induct)
  case (spec_alloc S a n p bs)
  then show ?case unfolding new_block_def using blocks_ok_place by blast
next
  case (spec_alloc_zeroed S a n p bs)
  then show ?case unfolding new_block_def using blocks_ok_place by blast
next
  case (spec_shrink S p bs n)
  note b = blocks_okD [OF spec_shrink(3,1)]
  have "length (take (32 * units n) bs) = 32 * min (units n) (length bs div 32)" using b(3) by (simp add: min_def)
  moreover have "placed (sizes_of S) p (min (units n) (length bs div 32))" by (rule placed_le [OF b(2)]) simp
  ultimately show ?case by (rule blocks_ok_place [OF spec_shrink(3)])
next
  case (spec_grow S p bs bs' n g)
  then show ?case using blocks_ok_place by blast
next
  case (spec_realloc S p bs bs' n q a)
  have "placed (sizes_of (S(p := None))) q (units n)" using spec_realloc(5) by simp
  then show ?case by (rule blocks_ok_place [OF blocks_ok_remove [OF spec_realloc(6)] spec_realloc(2)])
qed (simp_all add: blocks_ok_remove)

theorem spec_run_ok: "spec_run z c S \<Longrightarrow> blocks_ok S"
proof (induction rule: spec_run.induct)
  case spec_run_new
  then show ?case by (simp add: blocks_ok_def)
next
  case (spec_run_call S call r S')
  then show ?case using spec_step_ok by blast
next
  case (spec_run_store S p bs i v)
  note b = blocks_okD [OF spec_run_store(4,2)]
  show ?case by (rule blocks_ok_place [OF spec_run_store(4) _ b(2)]) (use b(3) in simp)
qed

section \<open>The blocks of an allocator\<close>

definition block_at :: "memory \<Rightarrow> Pointer \<Rightarrow> nat \<Rightarrow> u8 list" where
  "block_at m p k = map (\<lambda>i. the (data_byte m p i)) [0..<32 * k]"

definition contents :: "'e machine \<Rightarrow> view \<Rightarrow> blocks" where
  "contents s M p = map_option (block_at (mem s) p) (M p)"

lemma length_block_at [simp]: "length (block_at m p k) = 32 * k"
  by (simp add: block_at_def)

lemma nth_block_at: "i < 32 * k \<Longrightarrow> block_at m p k ! i = the (data_byte m p i)"
  by (simp add: block_at_def)

lemma take_block_at: "j \<le> 32 * k \<Longrightarrow> take j (block_at m p k) = map (\<lambda>i. the (data_byte m p i)) [0..<j]"
  by (simp add: block_at_def take_map)

lemma sizes_of_contents [simp]: "sizes_of (contents s M) = M"
  by (simp add: sizes_of_def contents_def fun_eq_iff option.map_comp comp_def option.map_ident)

lemma contents_empty [simp]: "contents s Map.empty = Map.empty"
  by (simp add: contents_def fun_eq_iff)

text \<open>A call that keeps the contents changes the blocks only where it changes the record.\<close>

lemma block_at_kept:
  assumes k: "contents_kept (M |` (- X)) M' m m'" and q: "q \<notin> X" "M q = Some k" "M' q = Some k'" and l: "l \<le> k" "l \<le> k'"
  shows "block_at m' q l = block_at m q l"
proof -
  have "data_byte m' q i = data_byte m q i" if "i < 32 * l" for i
    using k that q l unfolding contents_kept_def by (fastforce simp: restrict_map_def)
  then show ?thesis by (simp add: block_at_def)
qed

lemma contents_kept_at:
  assumes "contents_kept (M |` (- X)) M' (mem s) (mem s')" "q \<notin> X" "M' q = M q"
  shows "contents s' M' q = contents s M q"
  using block_at_kept [OF assms(1,2)] assms(3) by (cases "M q") (auto simp: contents_def)

lemma contents_upd:
  assumes k: "contents_kept (M |` (- X)) M' (mem s) (mem s')" and X: "X \<subseteq> {p}" and M': "\<And>q. q \<noteq> p \<Longrightarrow> M' q = M q"
  shows "contents s' M' = (contents s M)(p := map_option (block_at (mem s') p) (M' p))"
proof
  fix q
  show "contents s' M' q = ((contents s M)(p := map_option (block_at (mem s') p) (M' p))) q"
    using contents_kept_at [OF k] M' X by (cases "q = p") (auto simp: contents_def)
qed

lemma contents_same: "contents_kept M M (mem s) (mem s') \<Longrightarrow> contents s' M = contents s M"
  using contents_kept_at [of M "{}" M s s'] by (simp add: fun_eq_iff)

lemma placed_live:
  assumes "client_ok env_init env_ok T s M" "M p = Some n" "\<And>q. q \<noteq> p \<Longrightarrow> V q = M q"
  shows "placed V p n"
  using live_sound(1) [OF assms(1,2)] live_separate [OF assms(1)] assms(2,3)
  unfolding placed_def sound_pointer_def by auto


section \<open>Every call is a step of the machine\<close>

text \<open>What is known of one call on the allocator, in a state after it that satisfies the invariant.\<close>

definition served ::
    "bool \<Rightarrow> build \<Rightarrow> 'e machine \<Rightarrow> view \<Rightarrow> call \<Rightarrow> answer \<Rightarrow> 'e machine \<Rightarrow> bool" where
  "served z c s M call r s' \<longleftrightarrow> legal c M call \<and>
     contents_kept (M |` (- moved_from call)) (view_after M call r) (mem s) (mem s') \<and> answer_ok M (mem s) (mem s') call r \<and>
     (z \<longrightarrow> (\<forall>a n p. call = Alloc_zeroed a n \<longrightarrow> r = Allocated (Some p) \<longrightarrow> (\<forall>i < 32 * units n. data_byte (mem s') p i = Some 0)))"

lemma servedD:
  assumes "served z c s M call r s'"
  shows "legal c M call" "contents_kept (M |` (- moved_from call)) (view_after M call r) (mem s) (mem s')"
    "answer_ok M (mem s) (mem s') call r"
    "z \<Longrightarrow> call = Alloc_zeroed a n \<Longrightarrow> r = Allocated (Some p) \<Longrightarrow> i < 32 * units n \<Longrightarrow> data_byte (mem s') p i = Some 0"
  using assms unfolding served_def by blast+

lemma contents_None [simp]: "contents s M p = None \<longleftrightarrow> M p = None"
  by (simp add: contents_def)

lemma contents_Some: "M p = Some k \<Longrightarrow> contents s M p = Some (block_at (mem s) p k)"
  by (simp add: contents_def)

lemma refine_new:
  assumes sv: "served z c s M call r s'" and ok: "client_ok env_init env_ok T s' (view_after M call r)"
    and call: "call = Alloc a n \<or> call = Alloc_zeroed a n" and r: "r = Allocated (Some p)"
  shows "contents s' (view_after M call r) = (contents s M)(p \<mapsto> block_at (mem s') p (units n))"
    "new_block (contents s M) a n p (block_at (mem s') p (units n))"
proof -
  note S = servedD [OF sv]
  have M': "view_after M call r = M(p \<mapsto> units n)" and mv: "moved_from call = {}" using call r by auto
  show "contents s' (view_after M call r) = (contents s M)(p \<mapsto> block_at (mem s') p (units n))"
    using contents_upd [OF S(2), of p] M' mv by simp
  have "placed M p (units n)" by (rule placed_live [OF ok]) (simp_all add: M')
  then show "new_block (contents s M) a n p (block_at (mem s') p (units n))"
    using S(3) call r by (auto simp: new_block_def)
qed

lemma refine_unchanged:
  assumes sv: "served z c s M call r s'" and "view_after M call r = M" "moved_from call = {}"
  shows "contents s' (view_after M call r) = contents s M"
  using contents_same servedD(2) [OF sv] assms(2,3) by simp

lemma refine_removed:
  assumes sv: "served z c s M call r s'" and "view_after M call r = M(p := None)" "moved_from call \<subseteq> {p}"
  shows "contents s' (view_after M call r) = (contents s M)(p := None)"
  using contents_upd [OF servedD(2) [OF sv] assms(3)] assms(2) by simp

lemma refine_shrink:
  assumes sv: "served z c s M (Shrink_inplace p n) r s'" and n: "\<not> Size_is_empty n" and p: "M p = Some k"
  shows "contents s' (view_after M (Shrink_inplace p n) r) =
    (contents s M)(p \<mapsto> take (32 * units n) (block_at (mem s) p k))"
proof -
  note S = servedD [OF sv]
  have M': "view_after M (Shrink_inplace p n) r = M(p \<mapsto> min k (units n))" using n p by simp
  have "block_at (mem s') p (min k (units n)) = block_at (mem s) p (min k (units n))"
    by (rule block_at_kept [OF S(2), of p k "min k (units n)"]) (use n p in simp_all)
  also have "\<dots> = take (32 * units n) (block_at (mem s) p k)"
    by (simp add: block_at_def take_map min_def)
  finally show ?thesis using contents_upd [OF S(2), of p] M' by simp
qed

lemma refine_grow:
  assumes sv: "served z c s M (Grow_inplace p n) (Grown (Some g)) s'"
    and ok: "client_ok env_init env_ok T s' (view_after M (Grow_inplace p n) (Grown (Some g)))"
  shows "spec_step z (contents s M) (Grow_inplace p n) (Grown (Some g))
    (contents s' (view_after M (Grow_inplace p n) (Grown (Some g))))"
proof -
  note S = servedD [OF sv]
  let ?b' = "block_at (mem s') p (units g)"
  obtain k where k: "M p = Some k" "units g = max k (units n)" using S(3) by auto
  have M': "view_after M (Grow_inplace p n) (Grown (Some g)) = M(p \<mapsto> units g)" by simp
  have "take (32 * k) ?b' = block_at (mem s') p k" using k(2) by (simp add: block_at_def take_map)
  also have "\<dots> = block_at (mem s) p k"
    by (rule block_at_kept [OF S(2), of p k "units g"]) (simp_all add: k)
  finally have b': "?b' = block_at (mem s) p k @ drop (32 * k) ?b'" by (metis append_take_drop_id)
  have "placed M p (units g)" by (rule placed_live [OF ok]) (simp_all add: M')
  then have "spec_step z (contents s M) (Grow_inplace p n) (Grown (Some g))
      ((contents s M)(p \<mapsto> block_at (mem s) p k @ drop (32 * k) ?b'))"
    using k(2) by (intro spec_grow contents_Some k(1)) simp_all
  then show ?thesis using contents_upd [OF S(2), of p] M' b' by simp
qed

lemma refine_realloc:
  assumes sv: "served z c s M (Realloc p a n) (Allocated (Some q)) s'"
    and ok: "client_ok env_init env_ok T s' (view_after M (Realloc p a n) (Allocated (Some q)))"
  shows "spec_step z (contents s M) (Realloc p a n) (Allocated (Some q))
    (contents s' (view_after M (Realloc p a n) (Allocated (Some q))))"
proof -
  note S = servedD [OF sv]
  let ?M' = "M(p := None, q \<mapsto> units n)" and ?b' = "block_at (mem s') q (units n)"
  have M': "view_after M (Realloc p a n) (Allocated (Some q)) = ?M'" by simp
  obtain k where k: "M p = Some k" "\<forall>i < 32 * min k (units n). data_byte (mem s') q i = data_byte (mem s) p i"
    and q: "q = p \<or> M q = None \<and> 32 * units a dvd unat (address q)" using S(3) by auto
  have "contents s' ?M' x = ((contents s M)(p := None, q \<mapsto> ?b')) x" for x
  proof (cases "x = p \<or> x = q")
    case False
    then show ?thesis using contents_kept_at [OF S(2) [unfolded M'], of x] by simp
  qed (auto simp: contents_def)
  then have C: "contents s' ?M' = (contents s M)(p := None, q \<mapsto> ?b')" by blast
  have "placed (M(p := None)) q (units n)" by (rule placed_live [OF ok]) (simp_all add: M')
  moreover have "take (32 * min k (units n)) ?b' = take (32 * min k (units n)) (block_at (mem s) p k)"
    using k(2) by (subst (1 2) take_block_at) auto
  then have "take (min (32 * k) (32 * units n)) ?b' = take (min (32 * k) (32 * units n)) (block_at (mem s) p k)"
    unfolding nat_mult_min_right [symmetric] .
  ultimately show ?thesis unfolding M' C
    using q k(1)
    by (intro spec_realloc [where S = "contents s M" and bs = "block_at (mem s) p k"]) (simp_all add: contents_Some)
qed

theorem served_refines:
  assumes sv: "served z c s M call r s'" and ok: "client_ok env_init env_ok T s' (view_after M call r)"
    and run: "run_call ops c s call = Some (r, s')"
  shows "spec_step z (contents s M) call r (contents s' (view_after M call r))"
proof (cases call)
  case (Alloc a n)
  then obtain res where r: "r = Allocated res" using run by auto
  show ?thesis
  proof (cases res)
    case None
    then show ?thesis using refine_unchanged [OF sv] spec_alloc_refused Alloc r by simp
  next
    case (Some p)
    then show ?thesis using refine_new [OF sv ok, of a n p] spec_alloc Alloc r by simp
  qed
next
  case (Alloc_zeroed a n)
  then obtain res where r: "r = Allocated res" using run by auto
  show ?thesis
  proof (cases res)
    case None
    then show ?thesis using refine_unchanged [OF sv] spec_alloc_zeroed_refused Alloc_zeroed r by simp
  next
    case (Some p)
    have "z \<longrightarrow> set (block_at (mem s') p (units n)) \<subseteq> {0}"
      using servedD(4) [OF sv _ Alloc_zeroed r [unfolded Some]] by (auto simp: block_at_def)
    then show ?thesis using refine_new [OF sv ok, of a n p] spec_alloc_zeroed Alloc_zeroed r Some by simp
  qed
next
  case (Free p)
  then have "r = Done" using run by auto
  then show ?thesis using refine_removed [OF sv, of p] spec_free Free by simp
next
  case (Shrink_inplace p n)
  then have r: "r = Done" using run by auto
  obtain k where k: "M p = Some k" using servedD(1) [OF sv] Shrink_inplace by auto
  show ?thesis
  proof (cases "Size_is_empty n")
    case True
    then show ?thesis using refine_removed [OF sv, of p] spec_shrink_empty Shrink_inplace r by simp
  next
    case False
    show ?thesis
      unfolding Shrink_inplace r refine_shrink [OF sv [unfolded Shrink_inplace r] False k]
      by (rule spec_shrink [where S = "contents s M" and p = p]) (rule contents_Some, rule k, rule False)
  qed
next
  case (Grow_inplace p n)
  then obtain g where r: "r = Grown g" using run by auto
  show ?thesis
  proof (cases g)
    case None
    then show ?thesis using refine_unchanged [OF sv] spec_grow_refused Grow_inplace r by simp
  next
    case (Some h)
    then show ?thesis using refine_grow sv ok Grow_inplace r by blast
  qed
next
  case (Realloc p a n)
  then obtain res where r: "r = Allocated res" using run by auto
  show ?thesis
  proof (cases res)
    case (Some q)
    then show ?thesis using refine_realloc sv ok Realloc r by blast
  next
    case None
    show ?thesis
    proof (cases "Size_is_empty n")
      case True
      then show ?thesis using refine_removed [OF sv, of p] spec_realloc_empty Realloc r None by simp
    next
      case False
      then have "contents_kept M M (mem s) (mem s')" using servedD(3) [OF sv] Realloc r None by simp
      then have "contents s' M = contents s M" by (rule contents_same)
      then show ?thesis using spec_realloc_refused [OF False] False Realloc r None by simp
    qed
  qed
qed

section \<open>Histories are runs of the machine\<close>

text \<open>A client's write to a byte of an allocation.\<close>

lemma data_byte_upd:
  assumes "unat (address p) + i < 2 ^ 64" "unat (address q) + j < 2 ^ 64"
  shows "data_byte (m(address p + of_nat i \<mapsto> v)) q j = (if unat (address q) + j = unat (address p) + i then Some v else data_byte m q j)"
proof -
  have u: "unat (x + of_nat k) = unat x + k" if "unat x + k < 2 ^ 64" for x :: u64 and k
    using that by (simp add: unat_word_ariths unat_of_nat)
  have "address q + of_nat j = address p + of_nat i \<longleftrightarrow> unat (address q) + j = unat (address p) + i"
    using u [OF assms(1)] u [OF assms(2)] by (metis word_unat_eq_iff)
  then show ?thesis by (simp add: data_byte_def)
qed

lemma contents_store:
  assumes ok: "client_ok env_init env_ok T s M" and p: "M p = Some k" and i: "i < 32 * k"
  shows "contents (s\<lparr>mem := (mem s)(address p + of_nat i \<mapsto> v)\<rparr>) M = (contents s M)(p \<mapsto> (block_at (mem s) p k)[i := v])"
proof
  let ?m = "(mem s)(address p + of_nat i \<mapsto> v)"
  have fits: "unat (address q) + j < 2 ^ 64" if "M q = Some l" "j < 32 * l" for q l j
    using live_sound(1) [OF ok that(1)] that(2) by (simp add: sound_pointer_def)
  fix q
  show "contents (s\<lparr>mem := ?m\<rparr>) M q = ((contents s M)(p \<mapsto> (block_at (mem s) p k)[i := v])) q"
  proof (cases "q = p")
    case True
    have "block_at ?m p k = (block_at (mem s) p k)[i := v]"
      using data_byte_upd [OF fits [OF p i] fits [OF p], of _ "mem s" v]
      by (intro nth_equalityI) (simp_all add: nth_block_at nth_list_update)
    then show ?thesis using True p by (simp add: contents_def)
  next
    case False
    show ?thesis
    proof (cases "M q")
      case (Some l)
      have "data_byte ?m q j = data_byte (mem s) q j" if j: "j < 32 * l" for j
        using data_byte_upd [OF fits [OF p i] fits [OF Some j], of "mem s" v] live_separate [OF ok p Some] False i j
        by (auto simp: separate_def)
      then show ?thesis using False Some by (simp add: contents_def block_at_def)
    qed (use False in \<open>simp add: contents_def\<close>)
  qed
qed

context env_contract
begin

lemma call_refines:
  assumes h: "client_ok env_init env_ok T s M" and l: "legal c M call" and run: "run_call ops c s call = Some (r, s')"
    and z: "z \<Longrightarrow> (\<forall>a n p. call = Alloc_zeroed a n \<longrightarrow> r = Allocated (Some p) \<longrightarrow>
      (\<forall>i < 32 * units n. data_byte (mem s') p i = Some 0))"
  shows "spec_step z (contents s M) call r (contents s' (view_after M call r))"
proof -
  have st: "client_ok env_init env_ok T s' (view_after M call r)"
    "contents_kept (M |` (- moved_from call)) (view_after M call r) (mem s) (mem s')" "answer_ok M (mem s) (mem s') call r"
    using client_step [OF h l] run by auto
  show ?thesis by (rule served_refines [OF _ st(1) run]) (use l st(2,3) z in \<open>unfold served_def, blast\<close>)
qed

end

text \<open>
  Over an environment that keeps its contract (and, for \<open>z\<close>, delivers zeroed memory), every history
  of the allocator is a run of the machine, and every call that follows is a step.
\<close>

lemma history_call_refines:
  assumes e: "env_contract ops env_init env_ok T" and z: "z \<longrightarrow> zeroed_env ops env_init env_ok T"
    and h: "history ops env_init c s M" and l: "legal c M call" and run: "run_call ops c s call = Some (r, s')"
  shows "spec_step z (contents s M) call r (contents s' (view_after M call r))"
  by (rule env_contract.call_refines [OF e env_contract.history_ok [OF e h] l run])
    (use z zeroed_env.history_zeroed [OF _ h] run in blast)

theorem history_refines:
  assumes e: "env_contract ops env_init env_ok T" and z: "z \<longrightarrow> zeroed_env ops env_init env_ok T"
    and h: "history ops env_init c s M"
  shows "spec_run z c (contents s M)"
  using h
proof (induction rule: history.induct)
  case (history_new e m)
  then show ?case by (simp add: spec_run_new)
next
  case (history_call s M call r s')
  show ?case
    by (rule spec_run_call [OF history_call(4) _ history_call_refines [OF e z history_call(1-3)]])
      (simp add: history_call(2))
next
  case (history_store s M p k i v)
  show ?case
    unfolding contents_store [OF env_contract.history_ok [OF e history_store(1)] history_store(2,3)]
    by (rule spec_run_store [OF history_store(4) contents_Some [where s = s and M = M and p = p, OF history_store(2)]]) (simp add: history_store(3))
qed

end
