(* ===== verification/Shrink_Overflow.thy ===== *)
theory Shrink_Overflow
  imports Exact_Layouts
begin

text \<open>
  The call that histories leave out: \<^verbatim>\<open>shrink_inplace\<close> to the largest size. Adding the header overflows:
  with overflow checks that is a panic; without them the sum is 0, and the whole chunk, its header
  included, is cut off and registered as free while its owner still holds it.
\<close>

text \<open>The header of a chunk that has been taken out of the layout may be overwritten.\<close>

lemma gap_overwrite_left:
  assumes g: "gap_inv T s (us @ [(n, True)]) z vs"
  shows "\<exists>m'. set_size c (mem s) (gptr (base_address s) (extent us)) w = Some m' \<and>
    gap_inv T (s\<lparr>mem := m'\<rparr>) us z vs \<and> framed (base_address s) {extent us} (mem s) m'"
proof -
  let ?b = "base_address s" and ?F = "frees_around us z vs"
  note d = gap_invD [OF g] and x = gap_left [OF g]
  have g': "gap_inv T s us z vs" by (rule gap_forget [OF g])
  note d' = gap_invD [OF g']
  have "unit_mapped (mem s) ?b (extent us)" using mapped_until_unit [OF lists_okD(3) [OF d(3)] x(2)] .
  then obtain m' where m': "set_size c (mem s) (gptr ?b (extent us)) w = Some m'"
    "framed ?b {extent us} (mem s) m'" "\<And>y. y < T \<Longrightarrow> hprev m' ?b y = hprev (mem s) ?b y"
    "\<And>y. y < T \<Longrightarrow> hsize m' ?b y = (if y = extent us then Some w else hsize (mem s) ?b y)"
    "\<And>y. y < T \<Longrightarrow> hnext m' ?b y = hnext (mem s) ?b y" "\<And>y. y < T \<Longrightarrow> hback m' ?b y = hback (mem s) ?b y"
    using set_size_ok [OF d(8) x(7)] by metis
  have "y < T \<and> y \<noteq> extent us" if "y \<in> dom ?F" for y
    using that x(8) d'(3) lists_by_chunk(4) unfolding lists_ok_def by fastforce
  then have l: "lists_ok T ?F (s\<lparr>mem := m'\<rparr>)"
    using m' d'(3) by (intro lists_ok_change) (auto simp: framed_def)
  have "heads m' ?b (units (allocated_space s)) 0 0 us"
    using m' x d'(1,2) by (intro heads_cong [OF _ d'(4)]) simp_all
  moreover have "heads_tail m' ?b (units (allocated_space s)) z vs"
    using m' x d'(2) by (intro heads_tail_cong [OF _ _ d'(5)]) auto
  ultimately have "gap_inv T (s\<lparr>mem := m'\<rparr>) us z vs" using l d'(1,2) by (simp add: gap_inv_def)
  then show ?thesis using m' by blast
qed

lemma units_largest: "units (Size (- 1)) = 4294967295"
  by (simp add: units_def unsigned_minus_1_eq_mask mask_eq_exp_minus_1)

lemma largest_not_empty: "\<not> Size_is_empty (Size (- 1))"
  by (simp add: units_largest)

lemma largest_plus_header:
  "Size_unchecked_add c (Size (- 1)) HEADER_SIZE = (if overflow_checks c then None else Some (sz 0))"
  unfolding HEADER_SIZE_eq
  by (simp add: Size_unchecked_add_def add_chk_def sz_def unsigned_minus_1_eq_mask mask_eq_exp_minus_1)

theorem shrink_to_largest_panics: "overflow_checks c \<Longrightarrow> shrink_inplace ops c s p (Size (- 1)) = None"
  unfolding shrink_inplace_def using largest_not_empty by (simp only: largest_plus_header if_True if_False bind.simps)

text \<open>The first half of the call: the header is overwritten with size 0, and a free chunk that follows is taken in.\<close>

lemma shrink_to_largest_cut:
  assumes h: "heap_inv T s (us @ (n, True) # vs)" and t: "\<And>e. total_space ops e = sz T"
  shows "\<exists>m s'. set_size c (mem s) (gptr (base_address s) (extent us)) (packed 0 True) = Some m \<and>
    absorb_next ops c (s\<lparr>mem := m\<rparr>) (gptr (base_address s) (extent us + n)) (sz n) = Some (sz (n + lead_free vs), s') \<and>
    gap_inv T s' us (extent us + n + lead_free vs) (drop_lead_free vs) \<and> same_env s s' \<and>
    framed (base_address s) (starts 0 (us @ (n, True) # vs)) (mem s) (mem s')"
proof -
  let ?b = "base_address s" and ?x = "extent us" and ?z = "extent us + n" and ?vs = "drop_lead_free vs"
  have g0: "gap_inv T s (us @ [(n, True)]) ?z vs" using gap_open [of T s "us @ [(n, True)]" vs] h by simp
  obtain m where m: "set_size c (mem s) (gptr ?b ?x) (packed 0 True) = Some m"
    "gap_inv T (s\<lparr>mem := m\<rparr>) us ?z vs" "framed ?b {?x} (mem s) m"
    using gap_overwrite_left [OF g0] by blast
  obtain s' where s': "absorb_next ops c (s\<lparr>mem := m\<rparr>) (gptr ?b ?z) (sz n) = Some (sz (n + lead_free vs), s')"
    "moved T us ?z vs us (?z + lead_free vs) ?vs (s\<lparr>mem := m\<rparr>) s'"
    using absorb_next_ok [OF m(2) t heap_inv_at(4) [OF h], of c] by auto
  then have "framed ?b (gap_starts us ?z vs \<union> gap_starts us (?z + lead_free vs) ?vs) m (mem s')" by (simp add: moved_def)
  from framed_trans [OF m(3) this] have "framed ?b (starts 0 (us @ (n, True) # vs)) (mem s) (mem s')"
    by (rule framed_mono) (use starts_lead [of ?z vs] in \<open>auto simp: gap_starts_def starts_append\<close>)
  then show ?thesis using m(1) s' by (auto simp: moved_def same_env_def)
qed

text \<open>
  The allocation at the start of the address space: the chunk becomes a free one, as if it had been freed.
\<close>

theorem shrink_to_largest_frees:
  assumes h: "heap_inv T s ((n, True) # vs)" and t: "\<And>e. total_space ops e = sz T" and c: "\<not> overflow_checks c"
  shows "\<exists>s'. shrink_inplace ops c s (data_ptr (base_address s) 0) (Size (- 1)) = Some s' \<and>
    heap_inv T s' (freed [] n vs) \<and> same_env s s' \<and>
    framed (base_address s) (starts 0 ((n, True) # vs)) (mem s) (mem s')"
proof -
  let ?b = "base_address s" and ?vs = "drop_lead_free vs" and ?n = "n + lead_free vs"
  have h0: "heap_inv T s ([] @ (n, True) # vs)" using h by simp
  note i = heap_invD [OF h] and x = heap_inv_at [OF h0]
  obtain m1 s2 where m1: "set_size c (mem s) (gptr ?b 0) (packed 0 True) = Some m1"
    and s2: "absorb_next ops c (s\<lparr>mem := m1\<rparr>) (gptr ?b n) (sz n) = Some (sz ?n, s2)"
    and g2: "gap_inv T s2 [] ?n ?vs" and e2: "same_env s s2" and f2: "framed ?b (starts 0 ((n, True) # vs)) (mem s) (mem s2)"
    using shrink_to_largest_cut [OF h0 t, of c] by auto
  have n1: "n < 2 ^ 27" using x(4) by simp
  have b2: "base_address s2 = ?b" "allocated_space s2 = allocated_space s" using same_envD [OF e2] by simp_all
  have A: "extent [] < units (allocated_space s2)" using x(2) b2 by simp
  have n0: "0 < ?n" "extent [] + ?n = ?n" using x(1) by simp_all
  have co: "coalesced ([] @ (?n, False) # ?vs)"
    using i(6) coalesced_lead [of vs] by (auto simp: coalesced_Cons)
  obtain v s4 s3 where s4: "register_free_space c s2 (gptr ?b 0) (sz 0) (sz ?n) = Some (v, s4)"
      "record_prev ops c s4 (gptr ?b ?n) SIZEOF_ChunkHeader (sz ?n) = Some s3"
    and s3: "heap_inv T s3 ((?n, False) # ?vs)" "same_env s2 s3"
    "framed ?b (insert 0 (gap_starts [] ?n ?vs)) (mem s2) (mem s3)"
    using gap_fill [OF g2 n0 A co t sizeof_le(1), of c] unfolding b2 by auto
  have b3: "base_address s3 = ?b" using same_envD [OF s3(2)] b2 by simp
  have sT: "?n < 2 ^ 27" using i(4,8) extent_lead [of vs] by simp
  have add: "Pointer_unchecked_add (gptr ?b 0) (sz n) = gptr ?b n"
    "Pointer_unchecked_add (gptr ?b 0) (sz 0) = gptr ?b 0" "Pointer_unchecked_add (gptr ?b 0) (sz ?n) = gptr ?b ?n"
    using sT gptr_add [of n ?b 0] gptr_add [of 0 ?b 0] gptr_add [of ?n ?b 0] by simp_all
  have ar: "Size_unchecked_sub c (sz n) (sz 0) = Some (sz n)" "\<not> sz n \<le> sz 0"
    using n1 x(1) Size_unchecked_sub_sz [of 0 n c] by (simp_all add: Size_le_iff)
  have chk: "paranoid_check_chunk ops c s (gptr ?b 0) = Some ()"
    using paranoid_check_chunk_ok [OF h0 t] by simp
  have chk3: "paranoid_check_chunk ops c s3 (gptr ?b 0) = Some ()" "paranoid_check_chunk ops c s3 (gptr ?b ?n) = Some ()"
    using paranoid_check_chunk_ok [of T s3 "[]" "(?n, False) # ?vs" ops c, OF _ t]
      paranoid_check_chunk_ok [of T s3 "[(?n, False)]" ?vs ops c, OF _ t] s3(1) b3 by simp_all
  have pl: "Size_unchecked_add c (Size (- 1)) HEADER_SIZE = Some (sz 0)" using c by (simp only: largest_plus_header if_False)
  have run: "shrink_inplace ops c s (data_ptr ?b 0) (Size (- 1)) = Some s3"
    unfolding shrink_inplace_def pl using chk chk3 x(4,7) m1 s2 s4 largest_not_empty
    by (simp add: gets_gptr [OF i(1)] add ar new_allocated_sz Let_def)
  have "framed ?b (starts 0 ((n, True) # vs)) (mem s) (mem s3)"
    using framed_trans [OF f2 s3(3)]
    by (rule framed_mono) (use starts_lead [of n vs] in \<open>auto simp: gap_starts_def\<close>)
  then show ?thesis using run s3(1) same_env_trans [OF e2 s3(2)] by (auto simp: freed_def)
qed

text \<open>
  Any other allocation: the chunk is registered as free under a header that says that nothing precedes it, which the
  assertions of the feature \<^verbatim>\<open>paranoid\<close> notice.
\<close>

lemma no_predecessor_panics:
  assumes r: "region_ok (base_address s) T" "T < 2 ^ 27" and t: "\<And>e. total_space ops e = sz T" and p: "paranoid c"
    and x: "0 < x" "x < T" "hprev (mem s) (base_address s) x = Some (sz 0)"
  shows "paranoid_check_chunk ops c s (gptr (base_address s) x) = None"
proof -
  let ?b = "base_address s"
  have e: "end_of_address_space ops s = gptr ?b T" by (rule end_of_address_space_eq [OF t r(2)])
  have "gptr ?b x \<noteq> gptr ?b T" "gptr ?b x \<noteq> Pointer ?b"
    using gptr_less_iff [OF r(1), of x T] gptr_less_iff [OF r(1), of 0 x] x(1,2) by (auto simp: base_gptr)
  moreover have "check_prev_chunk c s (gptr ?b x) k = None" for k
    using calculation(2) x gets_gptr [OF r(1), of x] p by (simp add: check_prev_chunk_def paranoid_assert_def)
  ultimately show ?thesis using p by (simp add: paranoid_check_chunk_def e bind_eq_None_conv)
qed

theorem shrink_to_largest_later:
  assumes h: "heap_inv T s (us @ (n, True) # vs)" and us: "us \<noteq> []" and t: "\<And>e. total_space ops e = sz T"
    and c: "\<not> overflow_checks c"
  shows "if paranoid c then shrink_inplace ops c s (data_ptr (base_address s) (extent us)) (Size (- 1)) = None
    else \<exists>s'. shrink_inplace ops c s (data_ptr (base_address s) (extent us)) (Size (- 1)) = Some s' \<and>
      lists_ok T (frees 0 (us @ (n + lead_free vs, False) # drop_lead_free vs)) s' \<and>
      hprev (mem s') (base_address s) (extent us) = Some (sz 0)"
proof -
  let ?b = "base_address s" and ?vs = "drop_lead_free vs" and ?n = "n + lead_free vs" and ?x = "extent us"
  note i = heap_invD [OF h] and x = heap_inv_at [OF h]
  obtain m1 s2 where m1: "set_size c (mem s) (gptr ?b ?x) (packed 0 True) = Some m1"
    and s2: "absorb_next ops c (s\<lparr>mem := m1\<rparr>) (gptr ?b (?x + n)) (sz n) = Some (sz ?n, s2)"
    and g2: "gap_inv T s2 us (?x + n + lead_free vs) ?vs" and e2: "same_env s s2"
    using shrink_to_largest_cut [OF h t, of c] by blast
  have b2: "base_address s2 = ?b" "allocated_space s2 = allocated_space s" using same_envD [OF e2] by simp_all
  note d = gap_invD [OF g2]
  let ?F = "frees_around us (?x + ?n) ?vs"
  have z: "?x + n + lead_free vs = ?x + ?n" by simp
  have n0: "0 < ?n" "?n < 2 ^ 27" "?x + ?n \<le> T" using x(1) d(2,10) by simp_all
  have F: "?F ?x = None" using frees_around_mid [OF d(6,7), of ?x "?x + ?n"] n0(1) by simp
  obtain s4 where s4: "register_free_space c s2 (gptr ?b ?x) (sz 0) (sz ?n) = Some (sz ?n, s4)" "added T ?F ?x (sz 0) ?n s2 s4"
    using register_free_space_ok [OF d(3) [unfolded z] F, of ?n c "sz 0"] x(2) b2 n0 by auto
  have l4: "lists_ok T (?F(?x \<mapsto> ?n)) s4" and e4: "same_env s2 s4" and p4: "hprev (mem s4) ?b ?x = Some (sz 0)"
    using s4(2) b2 x(3) x(1) by (simp_all add: added_def)
  have b4: "base_address s4 = ?b" "allocated_space s4 = allocated_space s" using same_envD [OF e4] b2 by simp_all
  have zA: "?x + ?n < T \<Longrightarrow> ?x + ?n < units (allocated_space s4)"
    using d(2,5) b2 b4 by (cases ?vs) (auto simp: z)
  obtain s3 where s3: "record_prev ops c s4 (gptr ?b (?x + ?n)) SIZEOF_ChunkHeader (sz ?n) = Some s3"
    "prev_recorded T (?x + ?n) (sz ?n) s4 s3" "lists_ok T (?F(?x \<mapsto> ?n)) s3"
    using record_prev_ok [OF l4 t n0(3) zA sizeof_le(1), of c "sz ?n"] b4 by auto
  have b3: "base_address s3 = ?b" using s3(2) b4 by (auto simp: prev_recorded_def)
  have xT: "?x < T" using x(1,3) by simp
  have p3: "hprev (mem s3) ?b ?x = Some (sz 0)" using s3(2) p4 b4 xT n0(1) by (auto simp: prev_recorded_def)
  have x0: "0 < ?x" using us d(6) by (cases us) auto
  have add: "Pointer_unchecked_add (gptr ?b ?x) (sz n) = gptr ?b (?x + n)"
    "Pointer_unchecked_add (gptr ?b ?x) (sz 0) = gptr ?b ?x" "Pointer_unchecked_add (gptr ?b ?x) (sz ?n) = gptr ?b (?x + ?n)"
    using n0(2) gptr_add [of n ?b ?x] gptr_add [of 0 ?b ?x] gptr_add [of ?n ?b ?x] by simp_all
  have ar: "Size_unchecked_sub c (sz n) (sz 0) = Some (sz n)" "\<not> sz n \<le> sz 0"
    using x(1,4) Size_unchecked_sub_sz [of 0 n c] by (simp_all add: Size_le_iff)
  have chk: "paranoid_check_chunk ops c s (gptr ?b ?x) = Some ()" by (rule paranoid_check_chunk_ok [OF h t])
  have pl: "Size_unchecked_add c (Size (- 1)) HEADER_SIZE = Some (sz 0)" using c by (simp only: largest_plus_header if_False)
  have run: "shrink_inplace ops c s (data_ptr ?b ?x) (Size (- 1)) = do {
      paranoid_check_chunk ops c s3 (gptr ?b ?x);
      paranoid_check_chunk ops c s3 (gptr ?b ?x);
      paranoid_check_chunk ops c s3 (gptr ?b (?x + ?n));
      Some s3 }"
    unfolding shrink_inplace_def pl using chk x(4,7) m1 s2 s4(1) s3(1) largest_not_empty xT
    by (simp add: gets_gptr [OF i(1)] add ar new_allocated_sz Let_def)
  have fr: "frees 0 (us @ (?n, False) # ?vs) = ?F(?x \<mapsto> ?n)" by (rule frees_mid_1(1) [OF d(6,7) n0(1)])
  show ?thesis
  proof (cases "paranoid c")
    case True
    have "paranoid_check_chunk ops c s3 (gptr ?b ?x) = None"
      using no_predecessor_panics [of s3 T ops c ?x, OF _ i(8) t True x0 xT] i(1) p3 b3 by simp
    then show ?thesis using True by (simp add: run)
  next
    case False
    then have "shrink_inplace ops c s (data_ptr ?b ?x) (Size (- 1)) = Some s3" by (simp add: run paranoid_check_chunk_def)
    then show ?thesis using False s3(3) p3 fr by simp
  qed
qed

end
