(* ===== verification/Demos.thy ===== *)
theory Demos
  imports Arrays Shared Libc Env_Demos Native Specification Shrink_Overflow
begin

text \<open>
  Concrete threads, global allocators and C states for the witnesses: two counting threads, the small
  array allocator of \<^verbatim>\<open>Arrays\<close> shared by threads, behind the trait \<^verbatim>\<open>GlobalAlloc\<close>, and behind the C functions.
\<close>

text \<open>Two threads that each add one to a counter, reading and writing it in separate steps.\<close>

datatype counting = Read_it | Write_it nat | Counted

fun count_access :: "counting \<Rightarrow> nat \<Rightarrow> counting \<times> nat" where
  "count_access Read_it v = (Write_it v, v)"
| "count_access (Write_it n) v = (Counted, Suc n)"
| "count_access Counted v = (Counted, v)"

definition counting_threads :: "(nat, counting) threads" where
  "counting_threads = \<lparr>mutex = \<lparr>mutex_value = 0, mutex_flag = True\<rparr>, pcs = (\<lambda>t. Outside)(1 := Inside Read_it)\<rparr>"

lemma counting_threads_reach: "threads_reach count_access (\<lambda>l. l = Counted) (threads_start 0) counting_threads"
proof -
  let ?s = "\<lambda>f x. \<lparr>mutex = \<lparr>mutex_value = 0, mutex_flag = f\<rparr>, pcs = (\<lambda>t. Outside)(1 := x)\<rparr> :: (nat, counting) threads"
  have idle: "(\<lambda>t. Outside)(1 := Outside) = (\<lambda>t. Outside)" by (simp add: fun_upd_idem)
  have start: "threads_start 0 = ?s False Outside" unfolding idle by (simp add: threads_start_def Mutex_new_def)
  have 1: "thread_step count_access (\<lambda>l. l = Counted) (?s False Outside) (?s False (Locking Read_it))"
    using step_call [where s = "?s False Outside" and t = 1 and l = Read_it] by simp
  have 2: "thread_step count_access (\<lambda>l. l = Counted) (?s False (Locking Read_it)) (?s True (Inside Read_it))"
    using step_acquire [where s = "?s False (Locking Read_it)" and t = 1 and l = Read_it and flag = True and spurious = False]
    by (simp add: exchange_simps)
  show ?thesis unfolding start counting_threads_def by (rule reach_step [OF reach_step [OF reach_refl 1] 2])
qed

text \<open>One thread completes its section, in which it reads and writes the counter.\<close>

definition counting_done :: "(nat, counting) threads" where
  "counting_done = \<lparr>mutex = \<lparr>mutex_value = 1, mutex_flag = False\<rparr>, pcs = (\<lambda>t. Outside)(1 := Outside)\<rparr>"

lemma counting_done_reach: "threads_reach count_access (\<lambda>l. l = Counted) (threads_start 0) counting_done"
proof -
  let ?s = "\<lambda>v x. \<lparr>mutex = \<lparr>mutex_value = v, mutex_flag = True\<rparr>, pcs = (\<lambda>t. Outside)(1 := Inside x)\<rparr> :: (nat, counting) threads"
  have s: "counting_threads = ?s 0 Read_it" by (simp add: counting_threads_def)
  have 1: "thread_step count_access (\<lambda>l. l = Counted) (?s 0 Read_it) (?s 0 (Write_it 0))"
    using step_access [where s = "?s 0 Read_it" and t = 1 and l = Read_it and access = count_access and ended = "\<lambda>l. l = Counted"]
    by (simp add: MutexGuard_deref_def MutexGuard_deref_mut_def)
  have 2: "thread_step count_access (\<lambda>l. l = Counted) (?s 0 (Write_it 0)) (?s 1 Counted)"
    using step_access [where s = "?s 0 (Write_it 0)" and t = 1 and l = "Write_it 0" and access = count_access and ended = "\<lambda>l. l = Counted"]
    by (simp add: MutexGuard_deref_def MutexGuard_deref_mut_def)
  have 3: "thread_step count_access (\<lambda>l. l = Counted) (?s 1 Counted) counting_done"
    using step_release [where s = "?s 1 Counted" and t = 1 and l = Counted and access = count_access and ended = "\<lambda>l. l = Counted"]
    by (simp add: MutexGuard_drop_def counting_done_def)
  show ?thesis by (rule reach_step [OF reach_step [OF reach_step [OF counting_threads_reach [unfolded s] 1] 2] 3])
qed

text \<open>
  Thread 0 owns the first allocation and writes to it while thread 1 makes the second one.
\<close>

definition demo_written :: "ArrayPointer machine" where
  "demo_written = demo_s\<lparr>mem := (mem demo_s)(address demo_p + of_nat 5 \<mapsto> 7)\<rparr>"

definition demo_sharing :: "ArrayPointer shared" where
  "demo_sharing = shared_state (landed demo_s demo_t demo_written) False
     ((\<lambda>t. Map.empty)(0 := [demo_p \<mapsto> 3], 1 := [demo_q \<mapsto> 2])) (\<lambda>t. Outside)"

lemma demo_sharing_reach: "shared_reach demo_ops (array_init 4096) demo_build demo_sharing"
proof -
  let ?own = "(\<lambda>t. Map.empty)(0 := [demo_p \<mapsto> 3])"
  have "shared_reach demo_ops (array_init 4096) demo_build (shared_start (ArrayPointer 4096) demo_memory)"
    by (rule shared_init, rule demo_init)
  then have 0: "shared_reach demo_ops (array_init 4096) demo_build (shared_state demo_new False (\<lambda>t. Map.empty) (\<lambda>t. Outside))"
    by (simp add: shared_start_def demo_new_def Mutex_new_def)
  have 1: "shared_reach demo_ops (array_init 4096) demo_build (shared_state demo_s False ?own (\<lambda>t. Outside))"
    using shared_whole_call [OF 0 _ demo_1_eq, of 0] by (simp add: units_def)
  have "shared_reach demo_ops (array_init 4096) demo_build (shared_state (landed demo_s demo_t demo_written) False
      (?own(1 := [demo_q \<mapsto> 2])) (\<lambda>t. Outside))"
    using shared_written_call [OF 1 _ demo_2_eq, where t = 1 and u = 0 and p = demo_p and k = 3 and i = 5 and v = 7]
    by (simp add: units_def demo_written_def)
  then show ?thesis unfolding demo_sharing_def .
qed

text \<open>The second allocation is not at the start of the address space.\<close>

lemma demo_second_chunk:
  obtains us n vs where "heap_ok (array_ok 4096) 128 demo_t (us @ (n, True) # vs)" "us \<noteq> []"
    "demo_q = data_ptr (base_address demo_t) (extent us)"
proof -
  let ?call = "Alloc (Size 1) (Size 2)" and ?M = "view_of (base_address demo_s) (lives 0 [(4, True), (124, False)])"
  have "legal demo_build ?M ?call" by simp
  then obtain r s' ks where st: "step_ok demo_ops (array_ok 4096) 128 demo_build demo_s [(4, True), (124, False)] ?call r s' ks"
    using env_contract.step_legal [OF demo_env_contract demo_heap(1)] by blast
  then have "r = Allocated (Some demo_q)" "s' = demo_t" using demo_2_eq by (auto simp: step_ok_def Let_def)
  then have k: "heap_ok (array_ok 4096) 128 demo_t ks" "base_address demo_t = 4096" "view_of 4096 (lives 0 ks) demo_q = Some 2"
    using st demo_heap(2) by (simp_all add: step_ok_def Let_def units_def)
  obtain x n where x: "demo_q = data_ptr 4096 x" "lives 0 ks x = Some n" by (rule view_of_Some [OF k(3)])
  obtain us vs where u: "ks = us @ (n, True) # vs" "x = extent us" by (rule live_split [OF heap_ok_inv [OF k(1)] x(2)])
  have "us \<noteq> []" using x(1) u(2) demo_heap(3) demo_p_q(1) by auto
  then show thesis using that k(1,2) x(1) u by simp
qed

definition demo_shared :: "ArrayPointer shared" where
  "demo_shared = (shared_start (ArrayPointer 4096) demo_memory)\<lparr>callers := (\<lambda>t. Outside)(5 := Locking (To_call (Alloc (Size 1) (Size 3))))\<rparr>"

lemma demo_shared_reach: "shared_reach demo_ops (array_init 4096) demo_build demo_shared"
proof -
  have r: "shared_reach demo_ops (array_init 4096) demo_build (shared_start (ArrayPointer 4096) demo_memory)"
    by (rule shared_init, rule demo_init)
  have "shared_step demo_ops demo_build (shared_start (ArrayPointer 4096) demo_memory)
      ((shared_start (ArrayPointer 4096) demo_memory)\<lparr>callers :=
        (callers (shared_start (ArrayPointer 4096) demo_memory))(5 := Locking (To_call (Alloc (Size 1) (Size 3))))\<rparr>)"
    by (rule shared_call) (simp_all add: shared_start_def)
  then have "shared_step demo_ops demo_build (shared_start (ArrayPointer 4096) demo_memory) demo_shared"
    by (simp add: demo_shared_def shared_start_def)
  with r show ?thesis by (rule shared_next)
qed

lemma demo_global: "global_ok demo_ops (array_init 4096) demo_build (Mutex_new demo_s) [demo_p \<mapsto> 3]"
  "global_ok demo_ops (zero_array_init 4096) demo_build (Mutex_new demo_new) Map.empty"
  using demo_history_1(1) demo_history_new(2) by (simp_all add: global_ok_def)

lemma demo_fair: "fair (\<lambda>i. i < 2)"
  by (auto simp: fair_def)

definition demo_layout :: Layout where
  "demo_layout = \<lparr>layout_size = 100, layout_align = 64\<rparr>"

lemma demo_layout_align: "is_power_of_two (layout_align demo_layout)"
  unfolding is_power_of_two_iff demo_layout_def by (intro exI [of _ 6]) simp

lemma demo_global_zeroed:
  "\<exists>q x'. GlobalAlloc_alloc_zeroed (\<lambda>i. i < 2) demo_ops demo_build (Mutex_new demo_new) demo_layout = Some (q, x') \<and> q \<noteq> 0"
proof -
  have a: "from_bytes_usize 64 = Some (sz 2)" "from_bytes_usize 100 = Some (sz 4)" by (simp_all add: from_bytes_usize_eq)
  have p2: "is_power_of_two (raw_units (sz 2))" unfolding is_power_of_two_iff by (intro exI [of _ 1]) simp
  have "\<exists>p s. alloc_impl demo_ops demo_build demo_new (sz 2) (sz 4) True = Some (Some p, s)"
    by (rule demo_empty_served [OF p2]) simp
  then obtain p s where "alloc_zeroed demo_ops demo_build demo_new (sz 2) (sz 4) = Some (Some p, s)"
    by (auto simp: alloc_zeroed_def)
  then have r: "GlobalAlloc_alloc_zeroed (\<lambda>i. i < 2) demo_ops demo_build (Mutex_new demo_new) demo_layout = Some (address p, Mutex_new s)"
    and run: "run_call demo_ops demo_build demo_new (Alloc_zeroed (sz 2) (sz 4)) = Some (Allocated (Some p), s)"
    by (simp_all add: GlobalAlloc_alloc_zeroed_def demo_layout_def a with_lock_global [OF demo_global(2) demo_fair] pointer_or_null_def)
  have "global_ok demo_ops (array_init 4096) demo_build (Mutex_new s) (view_after Map.empty (Alloc_zeroed (sz 2) (sz 4)) (Allocated (Some p)))"
    using history_call [OF demo_history_new(1) _ run] by (simp add: global_ok_def)
  then have "address p \<noteq> 0" by (rule env_contract.live_pointer [OF demo_env_contract]) simp
  then show ?thesis using r by blast
qed

definition demo_libc :: "ArrayPointer libc" where
  "demo_libc = \<lparr>global = Mutex_new demo_s, errno = 0\<rparr>"

lemma demo_libc_ok: "libc_ok demo_ops (array_init 4096) demo_build demo_libc [demo_p \<mapsto> 3]"
  using demo_global(1) by (simp add: libc_ok_def demo_libc_def)

lemma demo_libc_new: "libc_ok demo_ops (zero_array_init 4096) demo_build \<lparr>global = Mutex_new demo_new, errno = 0\<rparr> Map.empty"
  using demo_global(2) by (simp add: libc_ok_def)

definition demo_system :: "unit libc" where
  "demo_system = \<lparr>global = GLOBAL_ALLOCATOR () Map.empty, errno = 0\<rparr>"

lemma demo_system_ok: "libc_ok (SystemAllocator demo_kernel) (linux_init demo_kernel (1024 * 1024 * 1024)) demo_build demo_system Map.empty"
proof -
  have T: "space (1024 * 1024 * 1024) = 2 ^ 25" by (simp add: space_def const_size_def from_bytes_usize_eq)
  have "linux_init demo_kernel (1024 * 1024 * 1024) () Map.empty" by (rule demo_linux_init) (simp_all only: T, simp_all)
  from history_new [of "linux_init demo_kernel (1024 * 1024 * 1024)", OF this] show ?thesis
    by (simp add: libc_ok_def global_ok_def demo_system_def GLOBAL_ALLOCATOR_def)
qed

definition refusing_kernel :: "unit kernel" where
  "refusing_kernel = \<lparr>syscall2 = (\<lambda>nr a len k m. (- 22, k, m)), syscall6 = (\<lambda>nr a len prot flags fd offset k m. (- 12, k, m))\<rparr>"

text \<open>The small allocator built without the feature \<^verbatim>\<open>realloc_inplace\<close>.\<close>

definition moving_build :: build where
  "moving_build = demo_build\<lparr>realloc_inplace := False\<rparr>"

lemma demo_moving:
  "\<exists>s q s1. history demo_ops (array_init 4096) moving_build s [data_ptr 4096 0 \<mapsto> 3] \<and>
     alloc demo_ops moving_build s (Size 1) (Size 1) = Some (Some q, s1)"
proof -
  obtain s where s: "run_call demo_ops moving_build demo_new (Alloc (Size 1) (Size 3)) = Some (Allocated (Some (data_ptr 4096 0)), s)"
    "heap_ok (array_ok 4096) 128 s [(4, True), (124, False)]" using demo_first [of moving_build] by blast
  have "history demo_ops (array_init 4096) moving_build demo_new Map.empty"
    unfolding demo_new_def by (rule history_new, rule demo_init)
  from history_call [OF this _ s(1)] have h: "history demo_ops (array_init 4096) moving_build s [data_ptr 4096 0 \<mapsto> 3]"
    by (simp add: units_def)
  have "bin_up 7 2 \<le> bin_of 124" by (simp add: bin_of_def bin_up_def bin_down_def ceil_div_def bin_shift_small)
  then have room: "\<not> no_room [(4, True), (124, False)] (units (Size 1) + units (Size 1))"
    by (auto simp: no_room_def units_def not_less)
  have "\<exists>q s1. alloc_impl demo_ops moving_build s (Size 1) (Size 1) False = Some (Some q, s1)"
    by (rule generous_env.alloc_served [OF demo_generous s(2) demo_size_1(1) room])
  then show ?thesis using h by (auto simp: alloc_def)
qed

end
