(* ===== verification/Spec2Isabelle.thy ===== *)
theory Spec2Isabelle
  imports Demos
begin

text \<open>
  picoalloc is a general purpose memory allocator in Rust. It manages one contiguous address space in
  units of 32 bytes. The space is tiled by chunks, each with a one-unit header that tells its size, whether
  it is allocated, and the size of the chunk before it; free chunks are linked into doubly linked lists, one
  per size class (bin), and a two-level bit mask tells which lists are not empty. This development models the
  allocator, the environments it gets its memory from, its mutex, and its Rust and C front ends, and proves
  that clients that respect the safety comments of the source are served correctly. Paths are relative to
  \<^verbatim>\<open>src/\<close> of the repository.

  \<^bold>\<open>The model.\<close> Definitions carry the names of the code. Machine integers are words; a computation that may
  panic, abort or touch unmapped memory is an option, \<open>None\<close> being that it does (\<^verbatim>\<open>unsafe\<close> slice accesses
  included); memory is a partial map from addresses to bytes, and headers are written to it and read from it
  byte by byte. The record \<open>build\<close> holds what the source branches on at compile time: paranoid assertions,
  overflow checks, and the feature \<^verbatim>\<open>realloc_inplace\<close>. All theorems hold for every build unless they say
  otherwise. The theories, in the order in which they import each other:

  \<^item> \<open>Prelude\<close>: machine types, checked arithmetic, bit counting and slices of the standard library.
  \<^item> \<open>Sizes\<close>, \<open>Bins\<close>, \<open>Bit_Masks\<close>: \<^verbatim>\<open>Size\<close> and \<^verbatim>\<open>align_offset\<close>; \<^verbatim>\<open>to_bin_index\<close> and the bin configuration the
    compiler computes; \<^verbatim>\<open>BitIndex\<close> and \<^verbatim>\<open>BitMask\<close> (all of \<^verbatim>\<open>src/allocator.rs\<close>). Each comes with the mathematical
    function or set it implements.
  \<^item> \<open>Memories\<close>, \<open>Chunks\<close>: bytes, \<^verbatim>\<open>Pointer\<close>, \<^verbatim>\<open>ChunkSize\<close>, the two chunk headers and their field accesses, with the
    frame conditions of a store in terms of units of the address space (\<open>framed\<close>).
  \<^item> \<open>Envs\<close>: the trait \<^verbatim>\<open>Env\<close> of \<^verbatim>\<open>src/env.rs\<close> as a record of operations, its contract as the locales
    \<open>env_contract\<close>, \<open>zeroed_env\<close> and \<open>tail_env\<close>, and \<^verbatim>\<open>ArrayPointer\<close>. \<open>Linux_Env\<close>, \<open>Corevm_Env\<close>, \<open>Polkavm_Env\<close> and \<open>Wasm_Env\<close> model
    \<^verbatim>\<open>src/env/\<close> and interpret the locales.
  \<^item> \<open>Free_Lists\<close>: the state of \<^verbatim>\<open>Allocator\<close> and registering and unregistering of free chunks; \<open>lists_ok T F s\<close> says
    that the lists and the mask stand for the finite map \<open>F\<close> from free chunks to their sizes.
  \<^item> \<open>Layouts\<close>: the abstract heap, a list of chunk sizes with their allocated bits, and the specification of
    each operation on it (\<open>freed\<close>, \<open>shrunk\<close>, \<open>grown\<close>, \<open>carved\<close>); \<open>heap_inv T s ks\<close> says that state \<open>s\<close> is a heap with
    layout \<open>ks\<close>: headers in place, free lists and mask as the layout has them, no two free neighbours.
  \<^item> \<open>Allocators\<close>: every operation of \<^verbatim>\<open>impl Allocator\<close>, the paranoid checks included.
  \<^item> \<open>Chunk_Steps\<close>, \<open>Gaps\<close>, \<open>Deallocation\<close>, \<open>Growth\<close>, \<open>Contents\<close>, \<open>Allocation\<close>: each operation takes a heap to a heap
    with the specified layout. In the midst of an operation the heap has a \<open>gap\<close>, which the steps open, widen
    and close.
  \<^item> \<open>Live_Chunks\<close>, \<open>Clients\<close>, \<open>Reallocation\<close>, \<open>Zeroing\<close>: the same operations as their clients see them: which
    allocations are live (\<open>lives\<close>), that their bytes are kept, when an operation may fail, that fresh memory is zero.
  \<^item> \<open>Histories\<close>, \<open>Safety\<close>: the calls as a datatype, what a client knows it holds (\<open>view\<close>), and the \<open>history\<close>s of
    legal calls and client writes; every state of a history is a fresh allocator or a heap whose live chunks
    are the client's view.
  \<^item> \<open>Specification\<close>: what the allocator promises, without the heap: an abstract machine whose state is a map from
    pointers to blocks of bytes (\<open>blocks\<close>), with a rule for each call and outcome (\<open>spec_step\<close>). \<open>contents\<close> abstracts a
    state and the client's view to blocks; histories are runs of the machine, call by call.
  \<^item> \<open>Shrink_Overflow\<close>: what the one call on a held pointer does that histories leave out besides the copying
    \<^verbatim>\<open>realloc\<close>, shrinking to the largest size, for the first chunk of the address space and for any other.
  \<^item> \<open>Generous\<close>: the locale of environments that never refuse space (arrays and Linux), and that an empty heap serves
    every request that fits.
  \<^item> \<open>Mutexes\<close>, \<open>Shared\<close>: \<^verbatim>\<open>src/mutex.rs\<close>, sequentially and as interleaved threads, and an allocator shared by threads
    that own allocations, as a step relation in which a call is not atomic: it reads the allocator when it begins, its
    stores land one by one in any order, the allocator's fields are written back when it ends, and the other threads
    run in between. Exclusion by the mutex is what makes every schedule a history.
  \<^item> \<open>Global_Alloc\<close>, \<open>Libc\<close>: the implementation of \<^verbatim>\<open>GlobalAlloc\<close> in \<^verbatim>\<open>src/allocator.rs\<close> and the C functions of
    \<^verbatim>\<open>src/global_allocator_libc.rs\<close> with \<^verbatim>\<open>errno\<close>.
  \<^item> \<open>Fragmentation\<close>, \<open>Exact_Layouts\<close>, \<open>Confinement\<close>: how many free chunks a heap can have, and from it when an allocation
    must succeed or fail in terms of what the client holds; the exact layout after an operation when there is one
    free chunk; and that memory outside the address space is never written.
  \<^item> \<open>Fuzzing\<close>, \<open>Fuzz_Targets\<close>, \<open>Unit_Tests\<close>: the fuzz targets of \<^verbatim>\<open>fuzz/\<close> and the unit tests of \<^verbatim>\<open>src/lib.rs\<close> as programs over the
    model whose failed assertions and panics are \<open>None\<close>, and the proofs that none of them fails, except that the target on
    the system allocator panics, at the \<^verbatim>\<open>unwrap\<close> of an allocation, when memory is short (\<open>out_of_memory\<close>). The harness of the
    fuzz targets has the invariant that the recorded allocations are those that are live, and hold their data (\<open>harness_ok\<close>).
  \<^item> \<open>Native\<close>: the test of \<^verbatim>\<open>native/src/lib.rs\<close>, with its growing vectors, one of \<^verbatim>\<open>usize\<close> and one of \<^verbatim>\<open>i32\<close> words, over the C functions, and
    that \<^verbatim>\<open>realloc\<close> succeeds where there is room; the panic handler and \<^verbatim>\<open>abort\<close> are in \<open>Envs\<close>.
  \<^item> \<open>Arrays\<close>, \<open>Env_Demos\<close>, \<open>Demos\<close>: a small allocator in an array and concrete kernels, hosts, threads and C states on
    which the theorems are exercised.

  \<^bold>\<open>What is relied on.\<close> \<open>env_contract\<close> asks of an environment that its address space is aligned to a unit, does not
  wrap, has less than \<open>2 ^ 27\<close> units (4 GiB, beyond which \<^verbatim>\<open>Size::bytes\<close> wraps), that memory is never taken away
  before it is freed, and that what an expansion promises is mapped. The kernel, the host and the virtual machines
  behind the environments are parameters; what is assumed of them (\<open>mmap_law\<close>, \<open>alloc_law\<close>, \<open>sbrk_law\<close>, \<open>grow_law\<close>) is
  their documented behaviour (\<open>mmap_law\<close> in whole pages), and concrete instances satisfy it. A client is \<open>legal\<close> when it passes pointers it holds,
  and leaves out two cases in which the code goes wrong: shrinking to \<^verbatim>\<open>Size(u32::MAX)\<close>, and \<^verbatim>\<open>realloc\<close> to a smaller
  size without \<^verbatim>\<open>realloc_inplace\<close>. Shifts use the low bits of their amount; no build panics on one, since every amount is
  below the width (\<open>bin_shifts_defined\<close>, \<open>mask_shifts_defined\<close>). No fuel is needed: the allocator has no loops but those over bits, which are
  structural, and the loop of \<^verbatim>\<open>lock\<close> is a partial function whose termination is characterised.

  \<^bold>\<open>Not modelled.\<close> The model is that of the 64-bit targets (\<^verbatim>\<open>Address\<close> and \<^verbatim>\<open>Mask\<close> of 64 bits, except where bins are
  computed, which is done for both); of the 32-bit targets only the environments are. Memory orderings of the
  mutex's atomics are taken as sequentially consistent, and provenance of pointers is left out, as are hashing and
  debug printing, inline assembly, and CI scripts. Vectors are modelled where \<^verbatim>\<open>native/\<close> observes their memory, with the growth of
  the standard library (at least four elements, then doubling); elsewhere they are lists. The random number
  generator of the fuzz targets is a parameter; the drop of the allocator at the end of the system target is left out,
  since dropping an unused allocator on Linux asks the kernel to unmap the start of the address space.
\<close>

section \<open>Clients of the allocator\<close>

text \<open>
  C1: No legal call panics, aborts or touches unmapped memory: over any environment that keeps its
  contract, after any history of calls and client writes, every legal call returns, and its state
  continues the history.
\<close>

theorem legal_call_returns:
  assumes e: "env_contract ops env_init env_ok T" and h: "history ops env_init c s M" and l: "legal c M call"
  shows "\<exists>r s'. run_call ops c s call = Some (r, s') \<and> history ops env_init c s' (view_after M call r)"
proof -
  obtain r s' where "run_call ops c s call = Some (r, s')"
    using env_contract.client_step [OF e env_contract.history_ok [OF e h] l] by blast
  then show ?thesis using history_call [OF h l] by blast
qed

theorem legal_call_returns_witness:
  "\<exists>r s'. run_call demo_ops demo_build demo_s (Realloc demo_p (Size 1) (Size 20)) = Some (r, s') \<and>
     history demo_ops (array_init 4096) demo_build s' (view_after [demo_p \<mapsto> 3] (Realloc demo_p (Size 1) (Size 20)) r)"
proof -
  have l: "legal demo_build [demo_p \<mapsto> 3] (Realloc demo_p (Size 1) (Size 20))"
    using demo_size_1(1) by (simp add: demo_build_def)
  show ?thesis by (rule legal_call_returns [OF demo_env_contract demo_history_1(1) l])
qed

text \<open>
  C2: The allocator implements the abstract machine of blocks: over any environment that keeps its contract,
  after any history the blocks read off the state are those of a run of the machine, and every legal call
  returns and is a step of it, in which fresh zeroed memory reads as zero if the environment delivers zeros.
\<close>

theorem allocator_refines_blocks:
  assumes e: "env_contract ops env_init env_ok T" and z: "z \<longrightarrow> zeroed_env ops env_init env_ok T"
    and h: "history ops env_init c s M" and l: "legal c M call"
  shows "spec_run z c (contents s M) \<and>
    (\<exists>r s'. run_call ops c s call = Some (r, s') \<and>
      spec_step z (contents s M) call r (contents s' (view_after M call r)))"
proof -
  obtain r s' where "run_call ops c s call = Some (r, s')"
    using env_contract.client_step [OF e env_contract.history_ok [OF e h] l] by blast
  then show ?thesis using history_refines [OF e z h] history_call_refines [OF e z h l] by blast
qed

theorem allocator_refines_blocks_witness:
  "\<exists>r s'. run_call demo_ops demo_build demo_s (Shrink_inplace demo_p (Size 1)) = Some (r, s') \<and>
    spec_step True (contents demo_s [demo_p \<mapsto> 3]) (Shrink_inplace demo_p (Size 1)) r
      (contents s' (view_after [demo_p \<mapsto> 3] (Shrink_inplace demo_p (Size 1)) r))"
proof -
  have z: "True \<longrightarrow> zeroed_env demo_ops (zero_array_init 4096) (array_ok 4096) 128" using demo_zeroed_env by simp
  have l: "legal demo_build [demo_p \<mapsto> 3] (Shrink_inplace demo_p (Size 1))" by simp
  show ?thesis
    using allocator_refines_blocks [OF zeroed_env.axioms(1) [OF demo_zeroed_env] z demo_history_1(2) l] by blast
qed

text \<open>
  C3: The allocations a client holds never overlap: between the data of two of them lies at least
  a header.
\<close>

theorem allocations_disjoint:
  assumes e: "env_contract ops env_init env_ok T" and h: "history ops env_init c s M"
    and p: "M p = Some k" "M q = Some l" "p \<noteq> q"
  shows "unat (address p) + 32 * k < unat (address q) \<or> unat (address q) + 32 * l < unat (address p)"
  using live_separate [OF env_contract.history_ok [OF e h] p] by (simp add: separate_def)

theorem allocations_disjoint_witness:
  "unat (address demo_p) + 32 * 3 < unat (address demo_q) \<or> unat (address demo_q) + 32 * 2 < unat (address demo_p)"
  by (rule allocations_disjoint [OF demo_env_contract demo_history_2]) (simp_all add: demo_p_q)

text \<open>
  C6: Every allocation a client holds is a non-null pointer, aligned to the allocation granularity,
  to memory that is mapped and does not wrap around the address space, and \<^verbatim>\<open>usable_size\<close> tells its
  size in bytes.
\<close>

theorem allocations_usable:
  assumes e: "env_contract ops env_init env_ok T" and h: "history ops env_init c s M" and p: "M p = Some k"
  shows "address p \<noteq> 0 \<and> 32 dvd unat (address p) \<and> unat (address p) + 32 * k < 2 ^ 64 \<and>
    (\<forall>i < 32 * k. data_byte (mem s) p i \<noteq> None) \<and> usable_size c (mem s) p = Some (of_nat (32 * k))"
  using live_sound [OF env_contract.history_ok [OF e h] p] by (simp add: sound_pointer_def)

theorem allocations_usable_witness:
  "address demo_p \<noteq> 0 \<and> 32 dvd unat (address demo_p) \<and> unat (address demo_p) + 32 * 3 < 2 ^ 64 \<and>
    data_byte (mem demo_s) demo_p 95 \<noteq> None \<and> usable_size demo_build (mem demo_s) demo_p = Some 96"
  using allocations_usable [OF demo_env_contract demo_history_1(1), of demo_p 3] by simp

text \<open>
  C4: A call does not disturb the contents of the allocations it leaves in place: whatever a client
  holds before and after the call reads the same, up to the smaller of its two sizes (for
  \<^verbatim>\<open>realloc\<close>, the argument itself aside).
\<close>

theorem contents_undisturbed:
  assumes e: "env_contract ops env_init env_ok T" and h: "history ops env_init c s M" and l: "legal c M call"
    and r: "run_call ops c s call = Some (r, s')"
    and q: "M q = Some k" "view_after M call r q = Some k'" "q \<notin> moved_from call" "i < 32 * min k k'"
  shows "data_byte (mem s') q i = data_byte (mem s) q i"
proof -
  have "contents_kept (M |` (- moved_from call)) (view_after M call r) (mem s) (mem s')"
    using env_contract.client_step [OF e env_contract.history_ok [OF e h] l] r by auto
  then show ?thesis using q unfolding contents_kept_def by (simp add: restrict_map_def)
qed

theorem contents_undisturbed_witness:
  "data_byte (mem demo_t) demo_p 95 = data_byte (mem demo_s) demo_p 95"
  by (rule contents_undisturbed [OF demo_env_contract demo_history_1(1) _ demo_2_eq, where k = 3 and k' = 3])
    (simp_all add: demo_p_q)

text \<open>
  A successful allocation gives memory the client did not hold, at an address that is a
  multiple of the alignment, and adds it to what the client holds.
\<close>

theorem alloc_answer:
  assumes e: "env_contract ops env_init env_ok T" and h: "history ops env_init c s M"
    and r: "run_call ops c s (Alloc a n) = Some (Allocated (Some p), s')"
  shows "M p = None \<and> 32 * units a dvd unat (address p) \<and> history ops env_init c s' (M(p \<mapsto> units n))"
proof -
  have l: "legal c M (Alloc a n)" by simp
  have "answer_ok M (mem s) (mem s') (Alloc a n) (Allocated (Some p))"
    using env_contract.client_step [OF e env_contract.history_ok [OF e h] l] r by auto
  then show ?thesis using history_call [OF h l r] by simp
qed

theorem alloc_answer_witness:
  "Map.empty demo_p = (None :: nat option) \<and> 32 * units (Size 1) dvd unat (address demo_p) \<and>
    history demo_ops (array_init 4096) demo_build demo_s (Map.empty(demo_p \<mapsto> units (Size 3)))"
  by (rule alloc_answer [OF demo_env_contract demo_history_new(1) demo_1_eq])

text \<open>
  C7: A successful \<^verbatim>\<open>realloc\<close> keeps the contents: the returned allocation, in place or moved, starts
  with the bytes of the old one, up to the smaller of the two sizes.
\<close>

theorem realloc_copies:
  assumes e: "env_contract ops env_init env_ok T" and h: "history ops env_init c s M" and l: "legal c M (Realloc p a n)"
    and r: "run_call ops c s (Realloc p a n) = Some (Allocated (Some q), s')"
    and k: "M p = Some k" "i < 32 * min k (units n)"
  shows "data_byte (mem s') q i = data_byte (mem s) p i"
proof -
  have "answer_ok M (mem s) (mem s') (Realloc p a n) (Allocated (Some q))"
    using env_contract.client_step [OF e env_contract.history_ok [OF e h] l] r by auto
  then show ?thesis using k by auto
qed

theorem realloc_copies_witness: "\<exists>q s'. data_byte (mem s') q 95 = data_byte (mem demo_s) demo_p 95 \<and>
  run_call demo_ops demo_build demo_s (Realloc demo_p (Size 1) (Size 20)) = Some (Allocated (Some q), s')"
proof -
  obtain q s' where r: "run_call demo_ops demo_build demo_s (Realloc demo_p (Size 1) (Size 20)) = Some (Allocated (Some q), s')"
    using demo_realloc by blast
  have l: "legal demo_build [demo_p \<mapsto> 3] (Realloc demo_p (Size 1) (Size 20))"
    using demo_size_1(1) by (simp add: demo_build_def)
  show ?thesis using realloc_copies [OF demo_env_contract demo_history_1(1) l r, of 3 95] r by (auto simp: units_def)
qed

text \<open>
  C8: Over an environment that delivers zeroed memory, \<^verbatim>\<open>alloc_zeroed\<close> gives memory that reads as
  zero, whether it clears it or takes fresh memory, after any history of calls and client writes.
\<close>

theorem alloc_zeroed_reads_zero:
  assumes e: "zeroed_env ops env_init env_ok T" and h: "history ops env_init c s M"
    and r: "run_call ops c s (Alloc_zeroed a n) = Some (Allocated (Some p), s')" and i: "i < 32 * units n"
  shows "data_byte (mem s') p i = Some 0"
  using zeroed_env.history_zeroed [OF e h r] i by blast

theorem alloc_zeroed_reads_zero_witness:
  "\<exists>p s'. data_byte (mem s') p 63 = Some 0 \<and>
    run_call demo_ops demo_build demo_new (Alloc_zeroed (Size 1) (Size 2)) = Some (Allocated (Some p), s')"
proof -
  obtain p s' where r: "run_call demo_ops demo_build demo_new (Alloc_zeroed (Size 1) (Size 2)) = Some (Allocated (Some p), s')"
    using demo_zeroed by blast
  have "data_byte (mem s') p 63 = Some 0"
    by (rule alloc_zeroed_reads_zero [OF demo_zeroed_env demo_history_new(2) r]) (simp add: units_def)
  then show ?thesis using r by blast
qed

text \<open>
  Nothing is lost to fragmentation for good: over an environment that never refuses space, a client
  that has freed everything is served every request that fits the address space and the size limit, after
  any history.
\<close>

theorem all_space_returns:
  assumes g: "generous_env ops env_init env_ok T" and h: "history ops env_init c s Map.empty"
    and a: "is_power_of_two (raw_units a)" and n: "units n + units a \<le> T" "units n + units a \<le> 2 ^ 25"
  shows "\<exists>p s'. run_call ops c s (Alloc a n) = Some (Allocated (Some p), s')"
  using generous_env.empty_served [OF g env_contract.history_ok [OF generous_env.axioms(1) [OF g] h] a n, of c False]
  by (auto simp: alloc_def)

theorem all_space_returns_witness:
  "\<exists>p s'. run_call demo_ops demo_build demo_freed (Alloc (Size 1) (Size 127)) = Some (Allocated (Some p), s')"
  by (rule all_space_returns [OF demo_generous demo_history_freed demo_size_1(1)]) (simp_all add: units_def)

section \<open>The heap\<close>

text \<open>
  C9: \<^verbatim>\<open>free\<close> implements coalescing: on a well-formed heap it returns the chunk to the layout merged
  with the free chunks on both sides, and the heap (headers, free lists, bit mask) is well-formed
  for the new layout, in which again no two neighbours are free.
\<close>

theorem free_coalesces:
  assumes e: "env_contract ops env_init env_ok T" and h: "heap_ok env_ok T s (us @ (n, True) # vs)"
  shows "\<exists>s'. free ops c s (data_ptr (base_address s) (extent us)) = Some s' \<and> heap_ok env_ok T s' (freed us n vs) \<and>
    coalesced (freed us n vs)"
proof -
  note inv = heap_ok_inv [OF h]
  obtain s' where s': "free ops c s (data_ptr (base_address s) (extent us)) = Some s'" "heap_inv T s' (freed us n vs)"
    "same_env s s'" "framed (base_address s) (starts 0 (us @ (n, True) # vs)) (mem s) (mem s')"
    using free_chunk_ok [OF inv env_contract.total_space_ok [OF e], of c] by blast
  then show ?thesis using env_contract.heap_ok_moved [OF e h s'(2,3,4)] heap_invD(6) [OF s'(2)] by blast
qed

theorem free_coalesces_witness:
  "\<exists>s'. free demo_ops demo_build demo_s (data_ptr (base_address demo_s) (extent [])) = Some s' \<and>
    heap_ok (array_ok 4096) 128 s' (freed [] 4 [(124, False)]) \<and> coalesced (freed [] 4 [(124, False)])"
  by (rule free_coalesces [OF demo_env_contract]) (simp add: demo_heap(1))

text \<open>
  C21: An allocation fails only for the documented reasons, from any state a client can reach: the alignment is no power of
  two; the allocator has no address space yet and the environment gives none, or not its first unit; or, on the
  heap as it is (or as it has just been initialised), which then stays as it is, the request exceeds the size limit, or no
  free chunk lies in its rounded-up bin or above and either none is large enough or a chunk of its own
  rounded-down bin that is too small comes first; or the environment refused to expand.
\<close>

theorem alloc_fails_only_without_room:
  assumes e: "env_contract ops env_init env_ok T" and h: "history ops env_init c s M"
    and r: "alloc ops c s a n = Some (None, s')"
  shows "\<not> is_power_of_two (raw_units a) \<or> base_address s = 0 \<and> space_refused ops s \<or>
    (\<exists>s1 ks. initialize ops c s = Some (True, s1) \<and> heap_ok env_ok T s1 ks \<and> M = view_of (base_address s1) (lives 0 ks) \<and>
      (s' = s1 \<and> no_room ks (units n + units a) \<or> ensured ops T s1 False s'))"
  using env_contract.alloc_none_cases [OF e env_contract.history_ok [OF e h] _ r] by blast

theorem alloc_fails_only_without_room_witness:
  "\<exists>s1 ks. initialize demo_ops demo_build demo_s = Some (True, s1) \<and> heap_ok (array_ok 4096) 128 s1 ks \<and>
    [demo_p \<mapsto> 3] = view_of (base_address s1) (lives 0 ks) \<and>
    (demo_s = s1 \<and> no_room ks (units (Size 33554433) + units (Size 1)) \<or> ensured demo_ops 128 s1 False demo_s)"
proof -
  have s: "Size 33554433 = sz 33554433" "Size 1 = sz 1" by (simp_all add: sz_def)
  have "alloc_min_size demo_build (sz 1) (sz 33554433) = Some (Some (sz 33554434))"
    using alloc_min_size_ok [of 1 33554433 demo_build] by simp
  moreover have "raw_units (sz 33554434) > raw_units MAX_ALLOCATION_SIZE" unfolding raw_units_gt_iff by simp
  ultimately have "alloc demo_ops demo_build demo_s (Size 1) (Size 33554433) = Some (None, demo_s)"
    using demo_size_1(1) demo_heap(2) unfolding s by (simp add: alloc_def alloc_impl_def initialize_def)
  from alloc_fails_only_without_room [OF demo_env_contract demo_history_1(1) this] show ?thesis
    using demo_size_1(1) demo_heap(2) by auto
qed

text \<open>
  C22: \<^verbatim>\<open>grow_inplace\<close> fails only when the free space right behind the allocation is too small, and then changes nothing,
  or when the environment refused to expand, and then changes nothing but the state of the environment and what
  that has newly mapped: every byte of memory keeps its value, every field of the allocator too.
\<close>

theorem grow_fails_only_without_room:
  assumes e: "env_contract ops env_init env_ok T" and h: "heap_ok env_ok T s ks" and x: "lives 0 ks x = Some n"
    and r: "grow_inplace ops c s (data_ptr (base_address s) x) k = Some (None, s')"
  shows "heap_ok env_ok T s' ks \<and> mem s \<subseteq>\<^sub>m mem s' \<and> s' = s\<lparr>env := env s', mem := mem s'\<rparr> \<and>
    (s' = s \<and> no_room_after ks x n (units k) \<or> ensured ops T s False s')"
proof -
  have g: "heap_ok env_ok T s' ks" "expanded s s'" "s' = s \<and> no_room_after ks x n (units k) \<or> ensured ops T s False s'"
    using env_contract.grow_inplace_client [OF e h x units_less [of k], of c] r by (auto split: option.splits)
  moreover have "s' = s\<lparr>env := env s', mem := mem s'\<rparr>" using g(3) by (auto dest: ensured_refused)
  ultimately show ?thesis using expandedD(1) by blast
qed

theorem grow_fails_only_without_room_witness:
  "heap_ok (array_ok 4096) 128 demo_s [(4, True), (124, False)] \<and> mem demo_s \<subseteq>\<^sub>m mem demo_s \<and>
    demo_s = demo_s\<lparr>env := env demo_s, mem := mem demo_s\<rparr> \<and>
    (demo_s = demo_s \<and> no_room_after [(4, True), (124, False)] 0 4 (units (Size 4294967295)) \<or> ensured demo_ops 128 demo_s False demo_s)"
proof (rule grow_fails_only_without_room [OF demo_env_contract demo_heap(1), where c = demo_build])
  show "grow_inplace demo_ops demo_build demo_s (data_ptr (base_address demo_s) 0) (Size 4294967295) = Some (None, demo_s)"
    by (simp add: grow_inplace_def Size_checked_add_eq units_def unsigned_minus_1_eq_mask mask_eq_exp_minus_1)
qed simp

text \<open>
  \<^verbatim>\<open>shrink_inplace\<close> implements splitting: the allocation keeps its place with the new size, and
  what is cut off becomes a free chunk, merged with the free chunk that follows.
\<close>

theorem shrink_splits:
  assumes e: "env_contract ops env_init env_ok T" and h: "heap_ok env_ok T s (us @ (n, True) # vs)"
    and k: "0 < units k" "Suc (units k) < n"
  shows "\<exists>s'. shrink_inplace ops c s (data_ptr (base_address s) (extent us)) k = Some s' \<and>
    heap_ok env_ok T s' (shrunk us n (units k) vs)"
proof -
  note inv = heap_ok_inv [OF h]
  obtain s' where s': "shrink_inplace ops c s (data_ptr (base_address s) (extent us)) k = Some s'"
    "heap_inv T s' (shrunk us n (units k) vs)" "same_env s s'"
    "framed (base_address s) (starts 0 (us @ (n, True) # vs) \<union> starts 0 (shrunk us n (units k) vs)) (mem s) (mem s')"
    using shrink_inplace_ok [OF inv env_contract.total_space_ok [OF e] k, of c] by (auto simp: sz_units)
  then show ?thesis using env_contract.heap_ok_moved [OF e h s'(2,3,4)] by blast
qed

theorem shrink_splits_witness:
  "\<exists>s'. shrink_inplace demo_ops demo_build demo_s (data_ptr (base_address demo_s) (extent [])) (Size 1) = Some s' \<and>
    heap_ok (array_ok 4096) 128 s' (shrunk [] 4 (units (Size 1)) [(124, False)])"
  by (rule shrink_splits [OF demo_env_contract]) (simp_all add: demo_heap(1) units_def)

text \<open>
  C23: Initialisation is all or nothing: it ends with one free chunk that spans the address space,
  or it fails and gives the address space back, so that a later call can try again.
\<close>

theorem initialize_all_or_nothing:
  assumes e: "env_contract ops env_init env_ok T" and f: "fresh_ok env_init s"
  shows "\<exists>ok s'. initialize ops c s = Some (ok, s') \<and>
    (if ok then heap_ok env_ok T s' [(T, False)] else fresh_ok env_init s')"
  using env_contract.initialize_impl_ok [OF e f, of c] fresh_base [OF f] by (force simp: initialize_def split: if_splits)

theorem initialize_all_or_nothing_witness:
  "\<exists>ok s'. initialize demo_ops demo_build demo_new = Some (ok, s') \<and>
    (if ok then heap_ok (array_ok 4096) 128 s' [(128, False)] else fresh_ok (array_init 4096) s')"
  by (rule initialize_all_or_nothing [OF demo_env_contract])
    (unfold demo_new_def, rule Allocator_new_fresh [of "array_init 4096", OF demo_init(2)])

text \<open>
  The free lists implement a map from chunks to sizes: taking out a registered chunk, first in
  its list or not, deletes it from the map, and keeps every header's size fields.
\<close>

theorem unregister_deletes:
  assumes l: "lists_ok T F s" and x: "F x = Some n"
  shows "\<exists>s'. unregister_free_space c s (gptr (base_address s) x) (size_to_bin_round_down (sz n)) = Some s' \<and>
    lists_ok T (F(x := None)) s' \<and> heads_kept (base_address s) T (mem s) (mem s')"
proof -
  obtain L where "lists_by T F L s" using l unfolding lists_ok_def by blast
  then have "n < 2 ^ 27" using lists_by_chunk x by blast
  then have "size_to_bin_round_down (sz n) = bi (bin_of n)" by (simp add: size_to_bin_round_down_eq)
  then show ?thesis using unregister_free_space_ok [OF l x, of c] unfolding removed_def by auto
qed

theorem unregister_deletes_witness:
  "\<exists>s'. unregister_free_space demo_build demo_s (gptr (base_address demo_s) 4) (size_to_bin_round_down (sz 124)) = Some s' \<and>
    lists_ok 128 ((frees 0 [(4, True), (124, False)])(4 := None)) s' \<and> heads_kept (base_address demo_s) 128 (mem demo_s) (mem s')"
  by (rule unregister_deletes [OF heap_invD(7) [OF heap_ok_inv [OF demo_heap(1)]]]) simp

text \<open>
  Registering a free chunk inserts it into the map, and writes its size and its predecessor's
  size into its header.
\<close>

theorem register_inserts:
  assumes l: "lists_ok T F s" and x: "F x = None" "x < units (allocated_space s)" and n: "\<not> Size_is_empty n" "units n < 2 ^ 27"
  shows "\<exists>s'. register_free_space c s (gptr (base_address s) x) v n = Some (n, s') \<and> lists_ok T (F(x \<mapsto> units n)) s' \<and>
    hprev (mem s') (base_address s) x = Some v \<and> hsize (mem s') (base_address s) x = Some (new_unallocated n)"
proof -
  have "0 < units n" using n(1) by simp
  moreover have "x < T" using x(2) lists_okD(2) [OF l] by simp
  ultimately show ?thesis
    using register_free_space_ok [OF l x _ n(2), of c v] by (auto simp: added_def packed_def)
qed

theorem register_inserts_witness:
  "\<exists>s'. register_free_space demo_build demo_s (gptr (base_address demo_s) 0) (Size 0) (Size 4) = Some (Size 4, s') \<and>
    lists_ok 128 ((frees 0 [(4, True), (124, False)])(0 \<mapsto> units (Size 4))) s' \<and>
    hprev (mem s') (base_address demo_s) 0 = Some (Size 0) \<and> hsize (mem s') (base_address demo_s) 0 = Some (new_unallocated (Size 4))"
proof (rule register_inserts [OF heap_invD(7) [OF heap_ok_inv [OF demo_heap(1)]]])
  show "0 < units (allocated_space demo_s)"
    using heap_inv_at(2) [of 128 demo_s "[]" 4 True "[(124, False)]"] heap_ok_inv [OF demo_heap(1)] by simp
qed (simp_all add: units_def)

text \<open>
  C39: The free lists and the mask implement a map from free chunks to their sizes: unregistering a chunk of the map
  deletes it and keeps every header's size fields, and registering another one inserts it and writes its header.
\<close>

theorem free_lists_implement_map:
  assumes l: "lists_ok T F s"
  shows "(\<forall>x n. F x = Some n \<longrightarrow>
      (\<exists>s'. unregister_free_space c s (gptr (base_address s) x) (size_to_bin_round_down (sz n)) = Some s' \<and>
        lists_ok T (F(x := None)) s' \<and> heads_kept (base_address s) T (mem s) (mem s'))) \<and>
    (\<forall>x v n. F x = None \<and> x < units (allocated_space s) \<and> \<not> Size_is_empty n \<and> units n < 2 ^ 27 \<longrightarrow>
      (\<exists>s'. register_free_space c s (gptr (base_address s) x) v n = Some (n, s') \<and> lists_ok T (F(x \<mapsto> units n)) s' \<and>
        hprev (mem s') (base_address s) x = Some v \<and> hsize (mem s') (base_address s) x = Some (new_unallocated n)))"
  using unregister_deletes [OF l] register_inserts [OF l] by blast

theorem free_lists_implement_map_witness:
  "\<exists>s'. unregister_free_space demo_build demo_s (gptr (base_address demo_s) 4) (size_to_bin_round_down (sz 124)) = Some s' \<and>
    lists_ok 128 ((frees 0 [(4, True), (124, False)])(4 := None)) s'"
proof -
  have "frees 0 [(4, True), (124, False)] 4 = Some 124" by simp
  then show ?thesis using free_lists_implement_map [OF heap_invD(7) [OF heap_ok_inv [OF demo_heap(1)]], of demo_build] by blast
qed

section \<open>Size classes\<close>

text \<open>
  C24: The bin search is sound: a non-empty chunk whose rounded-down bin is at or above the
  rounded-up bin of a request is at least as large as the request.
\<close>

theorem bin_search_sound:
  assumes "to_bin_index True request \<le> to_bin_index False chunk" "\<not> Size_is_empty chunk"
  shows "request \<le> chunk"
  using assms bin_up_le_bin_down_imp_le [of 7 "units request" "units chunk"]
  by (simp add: word_le_nat_alt unat_to_bin_index Size_le_iff)

theorem bin_search_sound_witness: "Size 1000 \<le> Size 1004"
proof (rule bin_search_sound)
  show "to_bin_index True (Size 1000) \<le> to_bin_index False (Size 1004)"
    unfolding to_bin_index_def mantissa_bits_BIN_CONFIG by code_simp
  show "\<not> Size_is_empty (Size 1004)" by code_simp
qed

text \<open>
  Every size up to the allocation limit has a bin inside the array of free lists, rounded up or
  down, and the two differ by at most one.
\<close>

theorem bins_in_range:
  assumes "n \<le> MAX_ALLOCATION_SIZE"
  shows "to_bin_index up n < bin_count BIN_CONFIG \<and> to_bin_index False n \<le> to_bin_index True n \<and>
    unat (to_bin_index True n) \<le> Suc (unat (to_bin_index False n))"
  using assms bin_up_range_7 [of "units n"] bin_down_range_7 [of "units n"] bin_up_le_Suc_bin_down [of 7 "units n"]
    bin_down_le_bin_up [of 7 "units n"]
  by (simp_all add: word_less_nat_alt word_le_nat_alt unat_to_bin_index Size_le_iff)

theorem bins_in_range_witness:
  "to_bin_index True (Size 33554432) < bin_count BIN_CONFIG \<and> to_bin_index False (Size 33554432) \<le> to_bin_index True (Size 33554432) \<and>
    unat (to_bin_index True (Size 33554432)) \<le> Suc (unat (to_bin_index False (Size 33554432)))"
  by (rule bins_in_range) (simp add: Size_le_iff, simp add: units_def)

text \<open>
  C25: The bins of the executed word computation are those of a floating-point scale on natural
  numbers, for every mantissa width the configuration may choose; no intermediate result overflows.
\<close>

theorem bin_index_is_float_scale:
  assumes "unat m \<le> 8"
  shows "unat (to_bin_index_generic m up n) = (if up then bin_up (unat m) (unat n) else bin_down (unat m) (unat n))"
  using assms by (rule to_bin_index_generic_eq)

theorem bin_index_is_float_scale_witness:
  "unat (to_bin_index_generic 7 True 1000) = bin_up 7 1000"
  using bin_index_is_float_scale [of 7 True 1000] by simp

text \<open>
  The configuration chosen at compile time: with 64-bit masks, 7 mantissa bits and 2432 bins;
  with 32-bit masks, 5 mantissa bits and 672 bins.
\<close>

theorem optimal_bin_config:
  "calculate_optimal_bin_config MASK_BYTES MAX_ALLOCATION_SIZE MAX_BINS = Some \<lparr>mantissa_bits = 7, bin_count = 2432\<rparr> \<and>
   calculate_optimal_bin_config 4 MAX_ALLOCATION_SIZE MAX_BINS = Some \<lparr>mantissa_bits = 5, bin_count = 672\<rparr>"
  by (simp add: calculate_optimal_bin_config_64 calculate_optimal_bin_config_32)

section \<open>The bit mask\<close>

text \<open>
  The two-level search finds the least set bit at or above the bound, and nothing only if
  there is none.
\<close>

theorem find_first_is_least:
  assumes "mask_inv m" "unat i < 2432"
  shows "\<exists>r. BitMask_find_first m (BitMask_index i) = Some r \<and>
    (case r of None \<Rightarrow> \<forall>j \<in> mask_bits m. j < unat i
     | Some b \<Rightarrow> b = BitMask_index (index b) \<and> unat (index b) \<in> mask_bits m \<and> unat i \<le> unat (index b) \<and>
         (\<forall>j \<in> mask_bits m. unat i \<le> j \<longrightarrow> unat (index b) \<le> j))"
proof -
  have bits: "j < 2432" if "j \<in> mask_bits m" for j using that by (simp add: mask_bits_def)
  show ?thesis
    using BitMask_find_first_ok [OF assms] bits unfolding BitMask_index_bi least_at_or_after_def by fastforce
qed

theorem find_first_is_least_witness:
  "\<exists>m. BitMask_set BitMask_new (BitMask_index 700) = Some m \<and> BitMask_find_first m (BitMask_index 5) = Some (Some (BitMask_index 700))"
proof -
  obtain m where m: "BitMask_set BitMask_new (bi 700) = Some m" "mask_inv m" "mask_bits m = {700}"
    using BitMask_set_ok [OF mask_inv_new, of 700] by (auto simp: mask_bits_new)
  obtain r where r: "BitMask_find_first m (BitMask_index 5) = Some r"
    "case r of None \<Rightarrow> \<forall>j \<in> mask_bits m. j < unat (5 :: u32)
     | Some b \<Rightarrow> b = BitMask_index (index b) \<and> unat (index b) \<in> mask_bits m \<and> unat (5 :: u32) \<le> unat (index b) \<and>
         (\<forall>j \<in> mask_bits m. unat (5 :: u32) \<le> j \<longrightarrow> unat (index b) \<le> j)"
    using find_first_is_least [OF m(2), of 5] by auto
  then obtain b where b: "r = Some b" "b = BitMask_index (index b)" "unat (index b) = 700" using m(3) by (cases r) auto
  then have "index b = 700" by (metis of_nat_numeral of_nat_unat ucast_id)
  then show ?thesis using m(1) r(1) b(1,2) by (simp add: BitMask_index_bi)
qed

text \<open>
  Setting and clearing a bit insert into and delete from the set the mask stands for, and keep
  the primary mask consistent with the secondary ones.
\<close>

theorem mask_is_set:
  assumes "mask_inv m" "unat i < 2432"
  shows "(\<exists>m'. BitMask_set m (BitMask_index i) = Some m' \<and> mask_inv m' \<and> mask_bits m' = insert (unat i) (mask_bits m)) \<and>
    (\<exists>m'. BitMask_unset m (BitMask_index i) = Some m' \<and> mask_inv m' \<and> mask_bits m' = mask_bits m - {unat i})"
  using BitMask_set_ok [OF assms] BitMask_unset_ok [OF assms] unfolding BitMask_index_bi by blast

theorem mask_is_set_witness:
  "(\<exists>m'. BitMask_set BitMask_new (BitMask_index 2431) = Some m' \<and> mask_inv m' \<and> mask_bits m' = insert (unat (2431 :: u32)) (mask_bits BitMask_new)) \<and>
    (\<exists>m'. BitMask_unset BitMask_new (BitMask_index 2431) = Some m' \<and> mask_inv m' \<and> mask_bits m' = mask_bits BitMask_new - {unat (2431 :: u32)})"
  by (rule mask_is_set [OF mask_inv_new]) simp

text \<open>
  C38: The two-level bit mask implements a set of bins: a new mask is the empty set, setting and clearing a bit
  insert and delete, and the search finds the least element at or above a bound, or nothing if there is none.
\<close>

theorem bitmask_refines_set:
  assumes "mask_inv m" "unat i < 2432"
  shows "mask_bits BitMask_new = {} \<and>
    (\<exists>m'. BitMask_set m (BitMask_index i) = Some m' \<and> mask_inv m' \<and> mask_bits m' = insert (unat i) (mask_bits m)) \<and>
    (\<exists>m'. BitMask_unset m (BitMask_index i) = Some m' \<and> mask_inv m' \<and> mask_bits m' = mask_bits m - {unat i}) \<and>
    (\<exists>r. BitMask_find_first m (BitMask_index i) = Some r \<and>
      (case r of None \<Rightarrow> \<forall>j \<in> mask_bits m. j < unat i
       | Some b \<Rightarrow> b = BitMask_index (index b) \<and> unat (index b) \<in> mask_bits m \<and> unat i \<le> unat (index b) \<and>
           (\<forall>j \<in> mask_bits m. unat i \<le> j \<longrightarrow> unat (index b) \<le> j)))"
  using mask_is_set [OF assms] find_first_is_least [OF assms] mask_bits_new by blast

theorem bitmask_refines_set_witness:
  "(\<exists>m'. BitMask_set BitMask_new (BitMask_index 700) = Some m' \<and> mask_bits m' = {unat (700 :: u32)}) \<and>
    (\<exists>r. BitMask_find_first BitMask_new (BitMask_index 700) = Some r)"
proof -
  have i: "unat (700 :: u32) < 2432" by simp
  show ?thesis using bitmask_refines_set [OF mask_inv_new i] by auto
qed

section \<open>Sizes, alignment and headers\<close>

text \<open>
  Converting a byte count to a size and back rounds up to the next multiple of 32, for every
  count the \<^verbatim>\<open>u32\<close> result can hold.
\<close>

theorem bytes_round_up:
  assumes "unat n \<le> 2 ^ 32 - 32"
  shows "\<exists>s. from_bytes_usize n = Some s \<and> unat n \<le> unat (bytes s) \<and> unat (bytes s) < unat n + 32 \<and> 32 dvd unat (bytes s)"
proof -
  let ?k = "(unat n + 31) div 32"
  have k: "?k < 2 ^ 27" using assms by simp
  then have "from_bytes_usize n = Some (sz ?k)" using assms by (simp add: from_bytes_usize_eq)
  moreover have "unat (bytes (sz ?k)) = ?k * 32" using k unat_bytes_small [of "sz ?k"] by simp
  moreover have "unat n \<le> ?k * 32" "?k * 32 < unat n + 32" by linarith+
  ultimately show ?thesis by (metis dvd_triv_right)
qed

theorem bytes_round_up_witness:
  "\<exists>s. from_bytes_usize 1000 = Some s \<and> unat (1000 :: usize) \<le> unat (bytes s) \<and> unat (bytes s) < unat (1000 :: usize) + 32 \<and>
    32 dvd unat (bytes s)"
  by (rule bytes_round_up) simp

text \<open>
  C26: \<^verbatim>\<open>align_offset\<close> gives the least offset, not below the given one, at which the address is a multiple
  of the alignment (all in units), and no step of it overflows, with or without overflow checks.
\<close>

theorem align_offset_least:
  assumes a: "is_power_of_two a" and x: "unat x + unat a < 2 ^ 32"
  shows "\<exists>d. align_offset c x a b = Some d \<and> unat x \<le> unat d \<and> unat d < unat x + unat a \<and>
    unat a dvd unat b div 32 + unat d"
proof -
  obtain k where k: "k < 32" "unat a = 2 ^ k" using a unfolding is_power_of_two_iff by auto
  let ?d = "align_up (unat x) (2 ^ k) (unat b div 32)"
  have d: "unat x \<le> ?d" "?d < unat x + 2 ^ k" "2 ^ k dvd unat b div 32 + ?d" using align_up_bounds by simp_all
  have "align_offset c x a b = Some (of_nat ?d)" using align_offset_eq [OF k(2,1)] x k(2) by simp
  moreover have "unat (of_nat ?d :: u32) = ?d" using d(2) x k(2) by (intro unat_of_nat_small) simp
  ultimately show ?thesis using d k(2) by auto
qed

theorem align_offset_least_witness:
  "\<exists>d. align_offset demo_build 1 4 4096 = Some d \<and> unat (1 :: u32) \<le> unat d \<and> unat d < unat (1 :: u32) + unat (4 :: u32) \<and>
    unat (4 :: u32) dvd unat (4096 :: usize) div 32 + unat d"
proof (rule align_offset_least)
  show "is_power_of_two (4 :: u32)" by code_simp
qed simp

text \<open>
  A chunk size and its allocated bit survive packing into one word, for every size below
  \<open>2 ^ 31\<close>.
\<close>

theorem chunk_size_roundtrip:
  assumes "units s < 2 ^ 31"
  shows "ChunkSize_size (new_allocated s) = s \<and> is_allocated (new_allocated s) \<and>
    ChunkSize_size (new_unallocated s) = s \<and> \<not> is_allocated (new_unallocated s)"
  using ChunkSize_size_chunk [OF assms, of True] ChunkSize_size_chunk [OF assms, of False]
    is_allocated_chunk [of "units s" True] is_allocated_chunk [of "units s" False]
  by (simp add: packed_def)

theorem chunk_size_roundtrip_witness:
  "ChunkSize_size (new_allocated (Size 2147483647)) = Size 2147483647 \<and> is_allocated (new_allocated (Size 2147483647)) \<and>
    ChunkSize_size (new_unallocated (Size 2147483647)) = Size 2147483647 \<and> \<not> is_allocated (new_unallocated (Size 2147483647))"
  by (rule chunk_size_roundtrip) (simp add: units_def)

text \<open>
  C27: A free chunk's header written to a unit of the region is read back field by field, and no
  byte outside the unit changes.
\<close>

theorem free_header_roundtrip:
  assumes b: "region_ok b T" and x: "x < T" "unit_mapped m b x"
  shows "\<exists>m'. write_free_chunk_header c m (gptr b x) h = Some m' \<and> framed b {x} m m' \<and>
    get_prev_chunk_size c m' (gptr b x) = Some (prev_chunk_size h) \<and> get_size c m' (gptr b x) = Some (chunk_size h) \<and>
    get_next_in_list c m' (gptr b x) = Some (next_in_list h) \<and> get_prev_in_list c m' (gptr b x) = Some (prev_in_list h)"
proof -
  have "h = \<lparr>prev_chunk_size = prev_chunk_size h, chunk_size = chunk_size h, next_in_list = next_in_list h, prev_in_list = prev_in_list h\<rparr>"
    by simp
  with write_free_chunk_header_ok [OF assms, of c "prev_chunk_size h" "chunk_size h" "next_in_list h" "prev_in_list h"] x(1)
  show ?thesis by (auto simp: gets_gptr [OF b less_imp_le [OF x(1)]])
qed

theorem free_header_roundtrip_witness:
  "\<exists>m'. write_free_chunk_header demo_build demo_memory (gptr 4096 127)
      \<lparr>prev_chunk_size = Size 1, chunk_size = ChunkSize 2, next_in_list = Pointer 3, prev_in_list = Pointer 4\<rparr> = Some m' \<and>
    framed 4096 {127} demo_memory m' \<and>
    get_prev_chunk_size demo_build m' (gptr 4096 127) = Some (prev_chunk_size \<lparr>prev_chunk_size = Size 1, chunk_size = ChunkSize 2, next_in_list = Pointer 3, prev_in_list = Pointer 4\<rparr>) \<and>
    get_size demo_build m' (gptr 4096 127) = Some (chunk_size \<lparr>prev_chunk_size = Size 1, chunk_size = ChunkSize 2, next_in_list = Pointer 3, prev_in_list = Pointer 4\<rparr>) \<and>
    get_next_in_list demo_build m' (gptr 4096 127) = Some (next_in_list \<lparr>prev_chunk_size = Size 1, chunk_size = ChunkSize 2, next_in_list = Pointer 3, prev_in_list = Pointer 4\<rparr>) \<and>
    get_prev_in_list demo_build m' (gptr 4096 127) = Some (prev_in_list \<lparr>prev_chunk_size = Size 1, chunk_size = ChunkSize 2, next_in_list = Pointer 3, prev_in_list = Pointer 4\<rparr>)"
proof (rule free_header_roundtrip)
  show "region_ok 4096 128" using demo_array_ok by (simp add: array_ok_def)
  show "unit_mapped demo_memory 4096 127"
    using demo_array_ok mapped_until_unit [of demo_memory 4096 128 127] by (simp add: array_ok_def)
qed simp

section \<open>Threads\<close>

text \<open>
  C15: Mutual exclusion: whatever the schedule and the spurious failures of the exchange, at most one
  thread is inside the mutex, and the flag is set while one is.
\<close>

theorem mutual_exclusion:
  assumes r: "threads_reach access ended (threads_start v) s" and t: "pcs s t = Inside l" "pcs s u = Inside l'"
  shows "t = u \<and> mutex_flag (mutex s)"
  using inv_held [OF threads_reach_inv [OF r] t(1)] t(2) by metis

theorem mutual_exclusion_witness: "(1 :: nat) = 1 \<and> mutex_flag (mutex counting_threads)"
  by (rule mutual_exclusion [OF counting_threads_reach]) (simp_all add: counting_threads_def)

text \<open>
  C16: Critical sections are atomic: whenever the mutex is free, what it guards is the outcome of whole
  sections run one after the other without interference, whatever accesses they consist of.
\<close>

theorem sections_are_serial:
  assumes r: "threads_reach access ended (threads_start v) s" and f: "\<not> mutex_flag (mutex s)"
  shows "serial access ended v (mutex_value (mutex s))"
  using inv_free [OF threads_reach_inv [OF r] f] by blast

theorem sections_are_serial_witness: "serial count_access (\<lambda>l. l = Counted) 0 (mutex_value (mutex counting_done)) \<and> mutex_value (mutex counting_done) = 1"
  using sections_are_serial [OF counting_done_reach] by (simp add: counting_done_def)

text \<open>
  C29: \<^verbatim>\<open>lock\<close> returns exactly when the flag is free and the exchange does not fail spuriously for ever;
  otherwise the loop never ends. In particular a thread that locks a mutex it holds hangs.
\<close>

theorem lock_returns:
  "lock sp x = (if mutex_flag x \<or> (\<forall>i. sp i) then None else Some (x\<lparr>mutex_flag := True\<rparr>))"
  by (rule lock_cases)

text \<open>
  C5: Threads that share an allocator through a mutex, each making legal calls on the allocations it
  owns, writing to them without the lock, also while another thread's call is half way, and handing them to
  others: whatever the schedule, no two threads' allocations overlap, and whenever no call is running the
  allocator is in the state of a sequential history in which what is held is what all threads own; while
  one is running it will be so when its stores have landed.
\<close>

theorem shared_is_history:
  assumes e: "env_contract ops env_init env_ok T" and r: "shared_reach ops env_init c s"
  shows "\<exists>M. (\<forall>p k. M p = Some k \<longleftrightarrow> (\<exists>t. owned s t p = Some k)) \<and>
    ((\<forall>t call a h h'. callers s t \<noteq> Inside (Calling call a h h')) \<longrightarrow> history ops env_init c (mutex_value (allocator_mutex s)) M) \<and>
    (\<forall>t call a h h'. callers s t = Inside (Calling call a h h') \<longrightarrow>
      history ops env_init c (landed h h' (mutex_value (allocator_mutex s))) (view_after M call a)) \<and>
    (\<forall>t u p q k l. owned s t p = Some k \<longrightarrow> owned s u q = Some l \<longrightarrow> t \<noteq> u \<or> p \<noteq> q \<longrightarrow> separate p k q l)"
proof -
  obtain M where i: "shared_inv ops env_init c M s" using env_contract.shared_reach_inv [OF e r] by blast
  show ?thesis
    using inv_split [OF i] env_contract.shared_value [OF e i] env_contract.shared_separate [OF e i]
    unfolding split_up_def by (intro exI [of _ M] conjI) metis+
qed

text \<open>
  C28: No thread is stuck on a shared allocator: from every reachable state there is a schedule that lets
  a waiting thread in, and a thread inside always gets an answer and leaves.
\<close>

theorem shared_never_stuck:
  assumes e: "env_contract ops env_init env_ok T" and r: "shared_reach ops env_init c s"
  shows "(callers s t = Locking k \<longrightarrow> (\<exists>s'. (shared_step ops c)\<^sup>*\<^sup>* s s' \<and> callers s' t = Inside k)) \<and>
    (callers s t = Inside k \<longrightarrow> (\<exists>s'. (shared_step ops c)\<^sup>*\<^sup>* s s' \<and> callers s' t = Outside))"
  using env_contract.shared_served [OF e r] env_contract.shared_finish [OF e r] by (metis fun_upd_same)

theorem shared_is_history_witness:
  "history demo_ops (array_init 4096) demo_build (landed demo_s demo_t demo_written) [demo_p \<mapsto> 3, demo_q \<mapsto> 2] \<and>
    separate demo_p 3 demo_q 2"
proof -
  obtain M where M: "\<forall>p k. M p = Some k \<longleftrightarrow> (\<exists>t. owned demo_sharing t p = Some k)"
    "history demo_ops (array_init 4096) demo_build (landed demo_s demo_t demo_written) M"
    "\<forall>t u p q k l. owned demo_sharing t p = Some k \<longrightarrow> owned demo_sharing u q = Some l \<longrightarrow> t \<noteq> u \<or> p \<noteq> q \<longrightarrow> separate p k q l"
    using shared_is_history [OF demo_env_contract demo_sharing_reach] by (auto simp: demo_sharing_def)
  have "M p = [demo_p \<mapsto> 3, demo_q \<mapsto> 2] p" for p
  proof (cases "M p")
    case None
    then show ?thesis using M(1) [THEN spec, of p] by (auto simp: demo_sharing_def split: if_splits)
  next
    case (Some k)
    then obtain t where "owned demo_sharing t p = Some k" using M(1) by blast
    then show ?thesis using Some demo_p_q by (auto simp: demo_sharing_def split: if_splits)
  qed
  then have "M = [demo_p \<mapsto> 3, demo_q \<mapsto> 2]" by (rule ext)
  moreover have "separate demo_p 3 demo_q 2"
    by (rule M(3) [rule_format, of 0 _ _ 1]) (simp_all add: demo_sharing_def)
  ultimately show ?thesis using M(2) by simp
qed

theorem shared_never_stuck_witness:
  "\<exists>s'. (shared_step demo_ops demo_build)\<^sup>*\<^sup>* demo_shared s' \<and> callers s' 5 = Inside (To_call (Alloc (Size 1) (Size 3)))"
  using shared_never_stuck [OF demo_env_contract demo_shared_reach, of 5] by (simp add: demo_shared_def)

section \<open>The global allocator\<close>

text \<open>
  C17: \<^verbatim>\<open>GlobalAlloc\<close> round trip: for every layout, \<^verbatim>\<open>alloc\<close> returns null and changes no allocation, or
  memory nobody held, of at least the size, at a multiple of the alignment; giving it back with \<^verbatim>\<open>dealloc\<close>
  restores what was allocated before. The mutex is free after every call.
\<close>

theorem global_alloc_roundtrip:
  assumes e: "env_contract ops env_init env_ok T" and g: "global_ok ops env_init c x M" and f: "fair sp"
    and a: "is_power_of_two (layout_align l)"
  shows "\<exists>q x' M'. GlobalAlloc_alloc sp ops c x l = Some (q, x') \<and> global_ok ops env_init c x' M' \<and>
    (if q = 0 then M' = M
     else M (Pointer q) = None \<and> M' = M(Pointer q \<mapsto> units_of_bytes (layout_size l)) \<and> unat (layout_align l) dvd unat q \<and>
       unat (layout_size l) \<le> 32 * units_of_bytes (layout_size l)) \<and>
    (\<exists>x''. GlobalAlloc_dealloc sp ops c x' q l = Some x'' \<and> global_ok ops env_init c x'' M)"
proof -
  obtain q x' M' where r: "GlobalAlloc_alloc sp ops c x l = Some (q, x')" "global_ok ops env_init c x' M'"
    "given M q (units_of_bytes (layout_size l)) (unat (layout_align l)) M'"
    using env_contract.global_alloc [OF e g f a, of False] unfolding if_False by blast
  have "q = 0 \<or> M' (Pointer q) \<noteq> None" using r(3) by (simp add: given_def split: if_splits)
  then obtain x'' where d: "GlobalAlloc_dealloc sp ops c x' q l = Some x''"
    "global_ok ops env_init c x'' (if q = 0 then M' else M'(Pointer q := None))"
    using env_contract.global_dealloc [OF e r(2) f] by blast
  have "(if q = 0 then M' else M'(Pointer q := None)) = M" using r(3) by (auto simp: given_def)
  moreover have "unat (layout_size l) \<le> 32 * units_of_bytes (layout_size l)" unfolding units_of_bytes_def by presburger
  ultimately show ?thesis using r d by (intro exI [of _ q] exI [of _ x'] exI [of _ M']) (auto simp: given_def)
qed

theorem global_alloc_roundtrip_witness:
  "\<exists>q x' x'' M'. GlobalAlloc_alloc (\<lambda>i. i < 2) demo_ops demo_build (Mutex_new demo_s) demo_layout = Some (q, x') \<and>
    global_ok demo_ops (array_init 4096) demo_build x' M' \<and>
    GlobalAlloc_dealloc (\<lambda>i. i < 2) demo_ops demo_build x' q demo_layout = Some x'' \<and>
    global_ok demo_ops (array_init 4096) demo_build x'' [demo_p \<mapsto> 3]"
  using global_alloc_roundtrip [OF demo_env_contract demo_global(1) demo_fair demo_layout_align] by blast

text \<open>
  \<^verbatim>\<open>GlobalAlloc::realloc\<close> to a non-zero size, with the feature \<^verbatim>\<open>realloc_inplace\<close> or without it to no
  smaller a size: null leaves allocations and contents as they were; otherwise the new allocation replaces
  the old one, with its contents up to the smaller size, aligned unless it stayed in place, and the
  contents of all others are kept.
\<close>

theorem global_realloc_contract:
  assumes e: "env_contract ops env_init env_ok T" and g: "global_ok ops env_init c x M" and f: "fair sp"
    and a: "is_power_of_two (layout_align l)" and p: "M (Pointer p) = Some k" "new_size \<noteq> 0"
      "realloc_inplace c \<or> k \<le> units_of_bytes new_size"
  shows "\<exists>q x' M'. GlobalAlloc_realloc sp ops c x p l new_size = Some (q, x') \<and> global_ok ops env_init c x' M' \<and>
    regiven M (global_mem x) (Pointer p) q (units_of_bytes new_size) (unat (layout_align l)) M' (global_mem x')"
  by (rule env_contract.global_realloc [OF e g f a p])

theorem global_realloc_contract_witness:
  "\<exists>q x' M'. GlobalAlloc_realloc (\<lambda>i. i < 2) demo_ops demo_build (Mutex_new demo_s) (address demo_p) demo_layout 10 = Some (q, x') \<and>
    global_ok demo_ops (array_init 4096) demo_build x' M' \<and>
    regiven [demo_p \<mapsto> 3] (global_mem (Mutex_new demo_s)) (Pointer (address demo_p)) q (units_of_bytes 10)
      (unat (layout_align demo_layout)) M' (global_mem x')"
  by (rule global_realloc_contract [OF demo_env_contract demo_global(1) demo_fair demo_layout_align])
    (simp_all add: demo_build_def)

text \<open>
  \<^verbatim>\<open>GlobalAlloc::alloc_zeroed\<close> over an environment that delivers zeroed memory: what it returns, if it
  is not null, reads as zero over the whole size of the layout.
\<close>

theorem global_alloc_zeroed_reads_zero:
  assumes e: "zeroed_env ops env_init env_ok T" and g: "global_ok ops env_init c x M" and f: "fair sp"
    and a: "is_power_of_two (layout_align l)" and r: "GlobalAlloc_alloc_zeroed sp ops c x l = Some (q, x')" "q \<noteq> 0"
    and i: "i < unat (layout_size l)"
  shows "data_byte (global_mem x') (Pointer q) i = Some 0"
proof -
  have e': "env_contract ops env_init env_ok T" using e by (rule zeroed_env.axioms)
  obtain al n where "unat (layout_size l) \<le> 32 * units n"
    "run_call ops c (mutex_value x) (Alloc_zeroed al n) = Some (Allocated (Some (Pointer q)), mutex_value x')"
    using env_contract.global_alloc [OF e' g f a, of True] r by auto
  then show ?thesis using zeroed_env.history_zeroed [OF e global_okD [OF g]] i by fastforce
qed

theorem global_alloc_zeroed_reads_zero_witness:
  "\<exists>q x'. GlobalAlloc_alloc_zeroed (\<lambda>i. i < 2) demo_ops demo_build (Mutex_new demo_new) demo_layout = Some (q, x') \<and>
    data_byte (global_mem x') (Pointer q) 99 = Some 0"
proof -
  obtain q x' where r: "GlobalAlloc_alloc_zeroed (\<lambda>i. i < 2) demo_ops demo_build (Mutex_new demo_new) demo_layout = Some (q, x')" "q \<noteq> 0"
    using demo_global_zeroed by blast
  have "99 < unat (layout_size demo_layout)" by (simp add: demo_layout_def)
  from global_alloc_zeroed_reads_zero [OF demo_zeroed_env demo_global(2) demo_fair demo_layout_align r this] r show ?thesis by blast
qed

text \<open>
  C20: \<^verbatim>\<open>posix_memalign\<close>: \<^verbatim>\<open>EINVAL\<close> exactly for an alignment that is no power of two or below the size of a
  pointer, with nothing touched; otherwise 0 with a new allocation as asked for, or \<^verbatim>\<open>ENOMEM\<close> with the
  result untouched; \<^verbatim>\<open>errno\<close> never changes.
\<close>

theorem posix_memalign_codes:
  assumes e: "env_contract ops env_init env_ok T" and g: "libc_ok ops env_init c L M" and f: "fair sp"
  shows "\<exists>err q L' M'. posix_memalign sp ops c L result align n = Some (err, q, L') \<and> libc_ok ops env_init c L' M' \<and>
    errno L' = errno L \<and> (err = EINVAL \<longleftrightarrow> \<not> is_power_of_two align \<or> align < SIZEOF_pointer) \<and> err \<in> {0, EINVAL, ENOMEM} \<and>
    (if err = 0 then q \<noteq> 0 \<and> given M q (units_of_bytes n) (unat align) M' else q = result \<and> M' = M)"
proof (cases "\<not> is_power_of_two align \<or> align < SIZEOF_pointer")
  case True
  then show ?thesis using env_contract.posix_memalign_error [OF e True] g by (intro exI conjI) auto
next
  case False
  then have a: "is_power_of_two align" "SIZEOF_pointer \<le> align" by (simp_all add: not_less)
  obtain err q L' M' where r: "posix_memalign sp ops c L result align n = Some (err, q, L')" "libc_ok ops env_init c L' M'"
    "errno L' = errno L" "err = 0 \<or> err = ENOMEM"
    "if err = 0 then q \<noteq> 0 \<and> given M q (units_of_bytes n) (unat align) M' else q = result \<and> M' = M"
    using env_contract.posix_memalign_ok [OF e g f a] by blast
  have "err \<noteq> EINVAL" using r(4) by (auto simp: EINVAL_def ENOMEM_def)
  then show ?thesis using r False by blast
qed

theorem posix_memalign_codes_witness:
  "\<exists>err q L' M'. posix_memalign (\<lambda>i. i < 2) demo_ops demo_build demo_libc 7 64 100 = Some (err, q, L') \<and>
    libc_ok demo_ops (array_init 4096) demo_build L' M' \<and> errno L' = errno demo_libc \<and>
    (err = EINVAL \<longleftrightarrow> \<not> is_power_of_two (64 :: usize) \<or> 64 < SIZEOF_pointer) \<and> err \<in> {0, EINVAL, ENOMEM} \<and>
    (if err = 0 then q \<noteq> 0 \<and> given [demo_p \<mapsto> 3] q (units_of_bytes 100) (unat (64 :: usize)) M' else q = 7 \<and> M' = [demo_p \<mapsto> 3])"
  by (rule posix_memalign_codes [OF demo_env_contract demo_libc_ok demo_fair])

text \<open>
  C19: \<^verbatim>\<open>calloc\<close> over an environment that delivers zeroed memory: null with \<^verbatim>\<open>ENOMEM\<close>, always so when
  count times size overflows, or a new allocation of the product, all of it zero, and \<^verbatim>\<open>errno\<close> as before.
\<close>

theorem calloc_contract:
  assumes e: "zeroed_env ops env_init env_ok T" and g: "libc_ok ops env_init c L M" and f: "fair sp"
  shows "\<exists>q L' M'. calloc sp ops c L items n = Some (q, L') \<and> libc_ok ops env_init c L' M' \<and>
    (2 ^ 64 \<le> unat items * unat n \<longrightarrow> q = 0) \<and>
    (if q = 0 then M' = M \<and> errno L' = ENOMEM
     else M (Pointer q) = None \<and> M' = M(Pointer q \<mapsto> units_of_bytes (items * n)) \<and> 16 dvd unat q \<and> errno L' = errno L \<and>
       (\<forall>i < unat items * unat n. data_byte (global_mem (global L')) (Pointer q) i = Some 0))"
proof -
  have e': "env_contract ops env_init env_ok T" using e by (rule zeroed_env.axioms)
  obtain q L' M' where r: "calloc sp ops c L items n = Some (q, L')" "libc_ok ops env_init c L' M'"
    "allocated_or_errno M L q (units_of_bytes (items * n)) 16 {ENOMEM} M' L'"
    "q \<noteq> 0 \<longrightarrow> unat items * unat n < 2 ^ 64 \<and> (\<exists>a k. unat (items * n) \<le> 32 * units k \<and>
      run_call ops c (mutex_value (global L)) (Alloc_zeroed a k) = Some (Allocated (Some (Pointer q)), mutex_value (global L')))"
    using env_contract.calloc_ok [OF e' g f] by blast
  have h: "history ops env_init c (mutex_value (global L)) M" using g global_okD by (auto simp: libc_ok_def)
  have z: "data_byte (global_mem (global L')) (Pointer q) i = Some 0" if nz: "q \<noteq> 0" and i: "i < unat items * unat n" for i
  proof -
    obtain a k where k: "unat (items * n) \<le> 32 * units k"
      "run_call ops c (mutex_value (global L)) (Alloc_zeroed a k) = Some (Allocated (Some (Pointer q)), mutex_value (global L'))"
      "unat items * unat n < 2 ^ 64" using r(4) nz by auto
    have "unat (items * n) = unat items * unat n" using k(3) by (simp add: unat_word_ariths)
    then show ?thesis using zeroed_env.history_zeroed [OF e h k(2)] k(1) i by simp
  qed
  have c: "q = 0" if "2 ^ 64 \<le> unat items * unat n" using r(4) that by (metis not_le)
  show ?thesis
    using r(1,2,3) c z by (intro exI [of _ q] exI [of _ L'] exI [of _ M']) (auto simp: allocated_or_errno_def given_def)
qed

theorem calloc_contract_witness:
  "\<exists>q L' M'. calloc (\<lambda>i. i < 2) demo_ops demo_build \<lparr>global = Mutex_new demo_new, errno = 0\<rparr> (2 ^ 63) 2 = Some (q, L') \<and>
    libc_ok demo_ops (zero_array_init 4096) demo_build L' M' \<and> q = 0 \<and> M' = Map.empty \<and> errno L' = ENOMEM"
proof -
  have "2 ^ 64 \<le> unat (2 ^ 63 :: usize) * unat (2 :: usize)" by (simp add: unat_exp_below)
  then show ?thesis
    using calloc_contract [OF demo_zeroed_env demo_libc_new demo_fair, of "2 ^ 63" 2] by (metis (no_types, lifting))
qed

text \<open>
  C18: \<^verbatim>\<open>realloc\<close> of C: on null it is \<^verbatim>\<open>malloc\<close>, to size 0 it frees and returns null, and otherwise it
  reallocates; the old allocation is untouched, and \<^verbatim>\<open>errno\<close> is \<^verbatim>\<open>ENOMEM\<close>, exactly if it returns null.
\<close>

theorem c_realloc_contract:
  assumes e: "env_contract ops env_init env_ok T" and g: "libc_ok ops env_init c L M" and f: "fair sp"
    and p: "p = 0 \<or> M (Pointer p) = Some k" "realloc_inplace c \<or> k \<le> units_of_bytes n"
  shows "\<exists>q L' M'. c_realloc sp ops c L p n = Some (q, L') \<and> libc_ok ops env_init c L' M' \<and>
    (if p = 0 then allocated_or_errno M L q (units_of_bytes n) 8 {ENOMEM} M' L'
     else if n = 0 then q = 0 \<and> M' = M(Pointer p := None) \<and> errno L' = errno L
     else regiven M (global_mem (global L)) (Pointer p) q (units_of_bytes n) 32 M' (global_mem (global L')) \<and>
       errno L' = (if q = 0 then ENOMEM else errno L))"
proof (cases "p = 0")
  case True
  then show ?thesis
    using env_contract.malloc_ok [OF e g f] env_contract.realloc_null [OF e] by simp
next
  case False
  then have l: "M (Pointer p) = Some k" using p(1) by simp
  show ?thesis
  proof (cases "n = 0")
    case True
    have "M (Pointer p) \<noteq> None" using l by simp
    from env_contract.realloc_zero [OF e g f this] show ?thesis using False True by auto
  next
    case n: False
    from env_contract.realloc_ok_libc [OF e g f l n p(2)] show ?thesis using False n by simp
  qed
qed

theorem c_realloc_contract_witness:
  "\<exists>L' M'. c_realloc (\<lambda>i. i < 2) demo_ops demo_build demo_libc (address demo_p) 0 = Some (0, L') \<and>
    libc_ok demo_ops (array_init 4096) demo_build L' M' \<and> M' = [demo_p \<mapsto> 3](demo_p := None) \<and> errno L' = 0"
proof -
  have p: "address demo_p \<noteq> 0"
    by (rule env_contract.live_pointer [OF demo_env_contract demo_global(1)]) simp
  have "address demo_p = 0 \<or> [demo_p \<mapsto> 3] (Pointer (address demo_p)) = Some 3" "realloc_inplace demo_build \<or> 3 \<le> units_of_bytes 0"
    by (simp_all add: demo_build_def)
  from c_realloc_contract [OF demo_env_contract demo_libc_ok demo_fair this] p show ?thesis
    by (simp add: demo_libc_def)
qed

section \<open>The environments\<close>

text \<open>
  C31: Every environment of the library keeps the contract the allocator relies on, as far as the kernel,
  host or virtual machine behind it does what is documented, and those whose memory comes zeroed keep the
  stronger one.
\<close>

theorem environments_keep_contract:
  "zeroed_env (Linux_env K SIZE) (linux_init K SIZE) (linux_ok K SIZE) (space SIZE) \<and>
   env_contract (Corevm_env H SIZE) (corevm_init H SIZE) (corevm_ok H SIZE) (space SIZE) \<and>
   zeroed_env (Polkavm_env P c SIZE) (polkavm_zero_init P SIZE) (polkavm_ok P SIZE) (space SIZE) \<and>
   zeroed_env (Wasm_env W c SIZE') (wasm_zero_init W SIZE') (wasm_ok W SIZE') (space (ucast SIZE')) \<and>
   zeroed_env (ArrayPointer_env SIZE) (zero_array_init SIZE) (array_ok SIZE) (space SIZE)"
  by (intro conjI linux.zeroed_env_axioms corevm.env_contract_axioms polkavm_zero.zeroed_env_axioms
      wasm_zero.zeroed_env_axioms zero_array.zeroed_env_axioms)

text \<open>
  C30: The C library over Linux serves from an empty heap: whatever has happened before, a
  \<^verbatim>\<open>malloc\<close> of up to one gigabyte less one granule succeeds when nothing is allocated, and leaves \<^verbatim>\<open>errno\<close>
  alone.
\<close>

theorem system_malloc_served:
  assumes g: "libc_ok (SystemAllocator K) (linux_init K (1024 * 1024 * 1024)) c L Map.empty" and f: "fair sp"
    and n: "unat n \<le> 2 ^ 30 - 32"
  shows "\<exists>q L'. malloc sp (SystemAllocator K) c L n = Some (q, L') \<and> q \<noteq> 0 \<and> errno L' = errno L"
proof -
  have T: "space (1024 * 1024 * 1024) = 2 ^ 25" by (simp add: space_def const_size_def from_bytes_usize_eq)
  have gl: "global_ok (SystemAllocator K) (linux_init K (1024 * 1024 * 1024)) c (global L) Map.empty" using g by (simp add: libc_ok_def)
  have ok: "client_ok (linux_init K (1024 * 1024 * 1024)) (linux_ok K (1024 * 1024 * 1024)) (2 ^ 25) (mutex_value (global L)) Map.empty"
    using env_contract.history_ok [OF linux.env_contract_axioms global_okD [OF gl, unfolded SystemAllocator_def]] unfolding T .
  have q: "(unat n + 31) div 32 < 2 ^ 25" using n by (intro less_mult_imp_div_less) simp
  have b: "from_bytes_usize n = Some (sz ((unat n + 31) div 32))" "from_bytes_usize SIZEOF_pointer = Some (sz 1)"
    using q n by (simp_all add: from_bytes_usize_eq)
  have u: "units (sz ((unat n + 31) div 32)) = (unat n + 31) div 32" using q by (intro units_sz) simp
  obtain p s where r: "alloc_impl (Linux_env K (1024 * 1024 * 1024)) c (mutex_value (global L)) (sz 1) (sz ((unat n + 31) div 32)) False = Some (Some p, s)"
    using full_linux.empty_served [of K "1024 * 1024 * 1024", unfolded T, OF ok raw_units_1(1)] q u by fastforce
  have w: "with_lock sp (\<lambda>s. alloc (SystemAllocator K) c s (sz 1) (sz ((unat n + 31) div 32))) (global L) = Some (Some p, Mutex_new s)"
    using r by (simp add: with_lock_global [OF gl f] alloc_def SystemAllocator_def)
  have "malloc sp (SystemAllocator K) c L n = Some (address p, L\<lparr>global := Mutex_new s\<rparr>)"
    using w b pointer_size_alignment by (simp add: malloc_def aligned_alloc_def posix_memalign_def)
  moreover have "address p \<noteq> 0"
    using env_contract.locked_alloc [OF linux.env_contract_axioms [of K "1024 * 1024 * 1024", folded SystemAllocator_def] gl f,
        of False "sz 1" "sz ((unat n + 31) div 32)"] w by (auto simp: pointer_or_null_def)
  ultimately show ?thesis by auto
qed

theorem system_malloc_served_witness:
  "\<exists>q L'. malloc (\<lambda>i. i < 2) (SystemAllocator demo_kernel) demo_build demo_system 1000 = Some (q, L') \<and> q \<noteq> 0 \<and>
    errno L' = errno demo_system"
  by (rule system_malloc_served [OF demo_system_ok demo_fair]) simp

text \<open>
  C32: On Linux an allocator that cannot get its address space does not report it: when the kernel refuses
  the mapping, the first allocation aborts the program instead of returning \<^const>\<open>None\<close>.
\<close>

theorem linux_refusal_aborts:
  assumes k: "\<And>k m. abort_on_fail (fst (syscall6 K SYS_MMAP 0 (of_nat (32 * space SIZE)) 3 34 (- 1) 0 k m)) = None"
    and T: "space SIZE < 2 ^ 27" and a: "is_power_of_two (raw_units a)" and s: "base_address s = 0"
  shows "alloc (Linux_env K SIZE) c s a n = None"
proof -
  have "Linux_allocate_address_space K SIZE e m = None" for e m
    using k [of e m] linux_len [OF T] by (simp add: Linux_defs linux_flags split_beta bind_eq_None_conv)
  then have "initialize (Linux_env K SIZE) c s = None"
    using s by (simp add: initialize_def initialize_impl_def Linux_env_def)
  moreover have "raw_units a \<noteq> 0" using a by (auto simp: is_power_of_two_iff)
  ultimately show ?thesis using a by (simp add: alloc_def alloc_impl_def)
qed

theorem linux_refusal_aborts_witness:
  "alloc (Linux_env refusing_kernel 4096) demo_build (Allocator_new () Map.empty) (Size 1) (Size 1) = None"
  by (rule linux_refusal_aborts [OF _ _ demo_size_1(1)])
    (simp_all add: refusing_kernel_def abort_on_fail_def Allocator_new_def)

text \<open>
  C33: Without the feature \<^verbatim>\<open>realloc_inplace\<close>, \<^verbatim>\<open>realloc\<close> to a smaller size moves the allocation and copies
  all of the old one: more bytes than the new allocation has.
\<close>

theorem realloc_overcopies:
  assumes e: "env_contract ops env_init env_ok T" and h: "history ops env_init c s M" and c: "\<not> realloc_inplace c"
    and p: "M p = Some k" and n: "0 < units n" "units n < k" and q: "alloc ops c s a n = Some (Some q, s1)"
  shows "32 * units n < unat (of_nat (32 * k) :: u32) \<and>
    realloc ops c s p a n = do {
      m \<leftarrow> copy_nonoverlapping (mem s1) (address p) (address q) (unat (of_nat (32 * k) :: u32));
      s \<leftarrow> free ops c (s1\<lparr>mem := m\<rparr>) p;
      Some (Some q, s)
    }"
proof -
  obtain ks x where ks: "heap_ok env_ok T s ks" "p = data_ptr (base_address s) x" "lives 0 ks x = Some (Suc k)"
    using client_ok_live [OF env_contract.history_ok [OF e h] p] by blast
  note inv = heap_ok_inv [OF ks(1)]
  have k: "k < 2 ^ 27" using lives_pos [OF heap_invD(5) [OF inv] ks(3)] heap_invD(4) [OF inv] region_okD(3) [OF heap_invD(1) [OF inv]] by simp
  have u: "usable_size_impl c (mem s) p = Some (sz k)" using usable_size_impl_ok [OF inv ks(3)] ks(2) by simp
  have b: "unat (bytes (sz k)) = 32 * k" "bytes (sz k) = of_nat (32 * k)"
  proof -
    show b: "unat (bytes (sz k)) = 32 * k" using k by (simp add: unat_bytes)
    show "bytes (sz k) = of_nat (32 * k)" by (metis b of_nat_unat ucast_id)
  qed
  have ne: "n \<noteq> sz k" "\<not> Size_is_empty n" using n k by auto
  have o: "unat (of_nat (32 * k) :: u32) = 32 * k" using b by simp
  show ?thesis unfolding o using n(2) u ne q c b(1) by (simp add: realloc_def)
qed

theorem realloc_overcopies_witness:
  "\<exists>s q s1. 32 * units (Size 1) < unat (of_nat (32 * 3) :: u32) \<and>
    realloc demo_ops moving_build s (data_ptr 4096 0) (Size 1) (Size 1) = do {
      m \<leftarrow> copy_nonoverlapping (mem s1) (address (data_ptr 4096 0)) (address q) (unat (of_nat (32 * 3) :: u32));
      s \<leftarrow> free demo_ops moving_build (s1\<lparr>mem := m\<rparr>) (data_ptr 4096 0);
      Some (Some q, s)
    }"
proof -
  obtain s q s1 where s: "history demo_ops (array_init 4096) moving_build s [data_ptr 4096 0 \<mapsto> 3]"
    "alloc demo_ops moving_build s (Size 1) (Size 1) = Some (Some q, s1)" using demo_moving by blast
  show ?thesis
    by (intro exI, rule realloc_overcopies [OF demo_env_contract s(1) _ _ _ _ s(2)]) (simp_all add: moving_build_def units_def)
qed

text \<open>
  C40: \<^verbatim>\<open>shrink_inplace\<close> to the largest size, which asks for no change, overflows, for any allocation. With overflow checks it
  panics. Without them the first allocation of the address space is registered as a free chunk, just as \<^verbatim>\<open>free\<close> does,
  though its owner keeps the pointer. For any other allocation the chunk, with the free one that follows, is registered in
  the free lists, under a header that says that nothing precedes it; the feature \<^verbatim>\<open>paranoid\<close> notices that and panics.
\<close>

theorem shrink_to_largest_overflows:
  assumes e: "env_contract ops env_init env_ok T" and h: "heap_ok env_ok T s (us @ (n, True) # vs)"
  shows "if overflow_checks c \<or> us \<noteq> [] \<and> paranoid c
    then shrink_inplace ops c s (data_ptr (base_address s) (extent us)) (Size (- 1)) = None
    else \<exists>s'. shrink_inplace ops c s (data_ptr (base_address s) (extent us)) (Size (- 1)) = Some s' \<and>
      (if us = [] then heap_ok env_ok T s' (freed [] n vs) \<and> lives 0 (freed [] n vs) 0 = None
       else lists_ok T (frees 0 (us @ (n + lead_free vs, False) # drop_lead_free vs)) s' \<and>
         hprev (mem s') (base_address s) (extent us) = Some (sz 0))"
proof (cases "overflow_checks c")
  case True
  then show ?thesis by (simp add: shrink_to_largest_panics)
next
  case c: False
  note inv = heap_ok_inv [OF h] and t = env_contract.total_space_ok [OF e]
  show ?thesis
  proof (cases "us = []")
    case True
    then have h0: "heap_ok env_ok T s ((n, True) # vs)" using h by simp
    obtain s' where s': "shrink_inplace ops c s (data_ptr (base_address s) 0) (Size (- 1)) = Some s'" "heap_inv T s' (freed [] n vs)"
      "same_env s s'" "framed (base_address s) (starts 0 ((n, True) # vs)) (mem s) (mem s')"
      using shrink_to_largest_frees [OF heap_ok_inv [OF h0] t c] by blast
    have "sizes_pos vs" "0 < n" using heap_invD(5) [OF inv] by simp_all
    then have "lives 0 (freed [] n vs) 0 = None" using lives_freed [of "[]" vs n] by simp
    then show ?thesis using True c s'(1) env_contract.heap_ok_moved [OF e h0 s'(2-4)] by auto
  next
    case False
    then show ?thesis using shrink_to_largest_later [OF inv False t c] c by auto
  qed
qed

theorem shrink_to_largest_overflows_witness:
  "shrink_inplace demo_ops demo_build demo_s (data_ptr (base_address demo_s) 0) (Size (- 1)) = None \<and>
    (\<exists>s'. shrink_inplace demo_ops (demo_build\<lparr>overflow_checks := False\<rparr>) demo_s (data_ptr (base_address demo_s) 0) (Size (- 1)) = Some s' \<and>
      heap_ok (array_ok 4096) 128 s' [(128, False)]) \<and>
    shrink_inplace demo_ops (demo_build\<lparr>overflow_checks := False\<rparr>) demo_t demo_q (Size (- 1)) = None \<and>
    shrink_inplace demo_ops \<lparr>paranoid = False, overflow_checks = False, realloc_inplace = True\<rparr> demo_t demo_q (Size (- 1)) \<noteq> None"
proof -
  have f: "freed [] 4 [(124, False)] = [(128, False)]" by (simp add: freed_def)
  have h0: "heap_ok (array_ok 4096) 128 demo_s ([] @ (4, True) # [(124, False)])" using demo_heap(1) by simp
  obtain us n vs where ks: "heap_ok (array_ok 4096) 128 demo_t (us @ (n, True) # vs)" "us \<noteq> []"
    "demo_q = data_ptr (base_address demo_t) (extent us)"
    by (rule demo_second_chunk)
  show ?thesis
    using shrink_to_largest_overflows [OF demo_env_contract h0, of demo_build]
      shrink_to_largest_overflows [OF demo_env_contract h0, of "demo_build\<lparr>overflow_checks := False\<rparr>"]
      shrink_to_largest_overflows [OF demo_env_contract ks(1), of "demo_build\<lparr>overflow_checks := False\<rparr>"]
      shrink_to_largest_overflows [OF demo_env_contract ks(1), of "\<lparr>paranoid = False, overflow_checks = False, realloc_inplace = True\<rparr>"] ks(2)
    unfolding f ks(3) by (auto simp: demo_build_def f)
qed

section \<open>Space\<close>

text \<open>
  C14: Type and well-formedness of the state after any history: the headers in memory tile the address space with chunks of
  positive sizes, no two neighbours are free, the free lists and the bit mask stand for exactly the free chunks, and
  the allocated chunks are what the client holds.
\<close>

theorem heap_well_formed:
  assumes e: "env_contract ops env_init env_ok T" and h: "history ops env_init c s M" and b: "base_address s \<noteq> 0"
  shows "\<exists>ks. extent ks = T \<and> sizes_pos ks \<and> coalesced ks \<and> heads (mem s) (base_address s) (units (allocated_space s)) 0 0 ks \<and>
    lists_ok T (frees 0 ks) s \<and> M = view_of (base_address s) (lives 0 ks)"
proof -
  obtain ks where "heap_ok env_ok T s ks" "M = view_of (base_address s) (lives 0 ks)"
    using env_contract.history_ok [OF e h] b fresh_base unfolding client_ok_def by metis
  then show ?thesis using heap_invD(5) [OF heap_ok_inv, of env_ok T s ks] by (intro exI [of _ ks]) (simp add: heap_ok_def heap_inv_def)
qed

theorem heap_well_formed_witness:
  "\<exists>ks. extent ks = 128 \<and> sizes_pos ks \<and> coalesced ks \<and> heads (mem demo_s) (base_address demo_s) (units (allocated_space demo_s)) 0 0 ks \<and>
    lists_ok 128 (frees 0 ks) demo_s \<and> [demo_p \<mapsto> 3] = view_of (base_address demo_s) (lives 0 ks)"
  by (rule heap_well_formed [OF demo_env_contract demo_history_1(1)]) (simp add: demo_heap(2))

text \<open>
  C10: Progress despite fragmentation: over an environment that never refuses space, after any history, a request whose
  alignment is a power of two and that takes, alignment included, at most \<open>2 ^ 25\<close> units (1 GiB), is served whenever the used units \<open>U\<close> and the number \<open>A\<close> of the client's allocations leave
  \<open>U + (A + 1) (r + r / 128 - 1) < T\<close>, \<open>r\<close> being the units of request and alignment: then one of the at most \<open>A + 1\<close> gaps has room
  for \<open>r\<close> units with the one part in 128 that the size classes can cost.
\<close>

theorem alloc_served_when_space:
  assumes e: "generous_env ops env_init env_ok T" and h: "history ops env_init c s M" and a: "is_power_of_two (raw_units a)"
    and n: "units n + units a \<le> 2 ^ 25" "used M + Suc (card (dom M)) * (padded (units n + units a) - 1) < T"
  shows "\<exists>p s'. run_call ops c s (Alloc a n) = Some (Allocated (Some p), s')"
  using generous_env.served_despite_fragmentation [OF e h a n, of False] by (auto simp: alloc_def)

theorem alloc_served_when_space_witness:
  "\<exists>p s'. run_call demo_ops demo_build demo_s (Alloc (Size 1) (Size 60)) = Some (Allocated (Some p), s')"
proof (rule alloc_served_when_space [OF demo_generous demo_history_1(3) demo_size_1(1)])
  show "units (Size 60) + units (Size 1) \<le> 2 ^ 25" by (simp add: units_def)
  have "used (Map.empty(demo_p \<mapsto> 3)) = 4" by (subst used_upd) simp_all
  then show "used [demo_p \<mapsto> 3] + Suc (card (dom [demo_p \<mapsto> 3])) * (padded (units (Size 60) + units (Size 1)) - 1) < 128"
    by (simp add: units_def padded_def)
qed

text \<open>
  C34: What clients hold, with one unit of header each, never exceeds the address space, and a request that does not fit
  next to it is answered with \<^verbatim>\<open>None\<close>, all allocations staying as they are.
\<close>

theorem alloc_beyond_space_fails:
  assumes e: "env_contract ops env_init env_ok T" and h: "history ops env_init c s M" and n: "T < used M + Suc (units n)"
  shows "used M \<le> T \<and> (\<exists>s'. run_call ops c s (Alloc a n) = Some (Allocated None, s') \<and> history ops env_init c s' M)"
proof -
  obtain s' where "alloc_impl ops c s a n False = Some (None, s')" "history ops env_init c s' M"
    using env_contract.full_alloc_fails [OF e h n, of a False] by blast
  then show ?thesis using env_contract.used_bound(1) [OF e h] by (simp add: alloc_def)
qed

theorem alloc_beyond_space_fails_witness:
  "used [demo_p \<mapsto> 3] \<le> 128 \<and> (\<exists>s'. run_call demo_ops demo_build demo_s (Alloc (Size 1) (Size 124)) = Some (Allocated None, s') \<and>
    history demo_ops (array_init 4096) demo_build s' [demo_p \<mapsto> 3])"
proof (rule alloc_beyond_space_fails [OF demo_env_contract demo_history_1(1)])
  have "used (Map.empty(demo_p \<mapsto> 3)) = 4" by (subst used_upd) simp_all
  then show "128 < used [demo_p \<mapsto> 3] + Suc (units (Size 124))" by (simp add: units_def)
qed

text \<open>
  C13: An allocator in an array never writes outside the array, and neither does a client that keeps to its allocations:
  after any history, every byte outside is what it was at the start.
\<close>

theorem array_writes_confined:
  assumes "history (ArrayPointer_env SIZE) (array_start_at SIZE a m0) c s M" "32 * space SIZE \<le> unat (x - a)"
  shows "mem s x = m0 x"
  using assms by (rule array_confined)

theorem array_writes_confined_witness: "mem demo_s 8192 = None"
proof -
  have "array_start_at 4096 4096 demo_memory (ArrayPointer 4096) demo_memory"
    using demo_init(3) by (simp add: array_start_at_def)
  then have "history demo_ops (array_start_at 4096 4096 demo_memory) demo_build demo_new Map.empty"
    unfolding demo_new_def by (rule history_new)
  from history_call [OF this _ demo_1_eq]
  have "history (ArrayPointer_env 4096) (array_start_at 4096 4096 demo_memory) demo_build demo_s [demo_p \<mapsto> 3]"
    by (simp add: units_def demo_ops_def)
  then have "mem demo_s 8192 = demo_memory 8192" by (rule array_writes_confined) simp
  then show ?thesis by (simp add: demo_memory_def)
qed

section \<open>Test programs\<close>

text \<open>
  C12: The fuzz target \<^verbatim>\<open>allocator_buffer.rs\<close> never fails: whatever the operations, the random numbers and the place of the
  buffer, no assertion of the harness fails (alignment, usable size, zeroed memory, intact contents, no write beyond
  the limit of the buffer) and the allocator does not panic.
\<close>

theorem fuzz_buffer_never_fails:
  assumes "region_ok a 8192" "\<forall>i < 16384. byte_at m a i \<noteq> None"
  shows "fuzz_buffer R c m a xs = Some ()"
  using assms by (rule fuzz_buffer_ok)

theorem fuzz_buffer_never_fails_witness:
  "fuzz_buffer \<lparr>Rand64_new = id, rand_u64 = (\<lambda>r. (ucast r, r + 1))\<rparr> demo_build (\<lambda>a. Some 1) 4096
     [Op_Alloc 64 100, Op_Alloc 1 1, Op_Shrink 3 20, Op_Free 1, Op_Grow 0 500, Op_Alloc 0 60000] = Some ()"
  by (rule fuzz_buffer_never_fails) (simp_all add: region_ok_def byte_at_def)

text \<open>
  C35: The fuzz target \<^verbatim>\<open>allocator_system.rs\<close> fails no assertion either. A run completes with the data of all its allocations
  intact, or it panics when it unwraps the answer to some request, and then memory was short: up to there all is as in
  a completed run, the allocator answers \<^verbatim>\<open>None\<close>, and the \<open>2 ^ 20\<close> units of the address space do not suffice to
  guarantee a gap for the request between the allocations that the target holds.
\<close>

theorem fuzz_system_only_exhausts:
  assumes "linux_init K (32 * 1024 * 1024) k m"
  shows "case fuzz_system R K c k m xs of
      Some h \<Rightarrow> \<exists>M. history (UnsafeSystem K) (linux_init K (32 * 1024 * 1024)) c (heap h) M \<and> dom M = fst ` set (allocations h) \<and>
        (\<forall>(p, d) \<in> set (allocations h). load_bytes (mem (heap h)) (address p) (length d) = Some d)
    | None \<Rightarrow> \<exists>ys v w zs h M. xs = ys @ System_Alloc v w # zs \<and> fuzz_system R K c k m ys = Some h \<and>
        history (UnsafeSystem K) (linux_init K (32 * 1024 * 1024)) c (heap h) M \<and> dom M = fst ` set (allocations h) \<and>
        out_of_memory (UnsafeSystem K) (2 ^ 20) c (heap h) M v w"
  using fuzz_system_ok [OF assms, of R c xs]
proof (elim disjE exE conjE)
  fix h M
  assume a: "fuzz_system R K c k m xs = Some h" "harness_ok (UnsafeSystem K) (linux_init K (32 * 1024 * 1024)) c h M"
  show ?thesis unfolding a(1) option.case by (rule exI [of _ M], rule harness_intact [OF a(2)])
next
  fix ys v w zs h M
  assume a: "fuzz_system R K c k m xs = None" "xs = ys @ System_Alloc v w # zs" "fuzz_system R K c k m ys = Some h"
    "harness_ok (UnsafeSystem K) (linux_init K (32 * 1024 * 1024)) c h M" "out_of_memory (UnsafeSystem K) (2 ^ 20) c (heap h) M v w"
  have "history (UnsafeSystem K) (linux_init K (32 * 1024 * 1024)) c (heap h) M" "dom M = fst ` set (allocations h)"
    using harness_intact [OF a(4)] by simp_all
  then show ?thesis unfolding a(1) option.case using a(2,3,5) by (intro exI conjI)
qed

theorem fuzz_system_only_exhausts_witness:
  "\<exists>h. fuzz_system \<lparr>Rand64_new = id, rand_u64 = (\<lambda>r. (ucast r, r + 1))\<rparr> demo_kernel demo_build () Map.empty
     [System_Alloc 64 100, System_Free 1] = Some h"
proof -
  let ?R = "\<lparr>Rand64_new = id, rand_u64 = (\<lambda>r. (ucast r, r + 1))\<rparr>" and ?xs = "[System_Alloc 64 100, System_Free 1]"
  have T: "space (32 * 1024 * 1024) = 2 ^ 20" by (simp add: space_def const_size_def from_bytes_usize_eq)
  have l: "linux_init demo_kernel (32 * 1024 * 1024) () Map.empty" by (rule demo_linux_init) (simp_all only: T, simp_all)
  show ?thesis
  proof (cases "fuzz_system ?R demo_kernel demo_build () Map.empty ?xs")
    case None
    then obtain ys v w zs h M where n: "?xs = ys @ System_Alloc v w # zs" "fuzz_system ?R demo_kernel demo_build () Map.empty ys = Some h"
      "dom M = fst ` set (allocations h)" "out_of_memory (UnsafeSystem demo_kernel) (2 ^ 20) demo_build (heap h) M v w"
      using fuzz_system_only_exhausts [OF l, where R = ?R and c = demo_build and xs = ?xs] unfolding None option.case by blast
    have "ys = []" using n(1) by (auto simp: Cons_eq_append_conv)
    then have "dom M = {}" using n(2,3) by (auto simp: fuzz_system_def new_harness_def)
    then have "M = Map.empty" by simp
    then show ?thesis using first_request_fits n(4) by blast
  qed blast
qed

text \<open>C36: The unit tests of \<^verbatim>\<open>src/lib.rs\<close> pass, in every build and wherever their arrays lie.\<close>

theorem unit_tests_pass:
  assumes b: "test_block m a" and l: "linux_init K 4096 k m'" "linux_init K (32 * 1024 * 1024) k' m''"
  shows "(\<exists>s. test_allocator_buffer c m a = Some s) \<and> test_many_small_allocations_buffer c m a = Some () \<and>
    test_boundary c m a = Some () \<and> (\<exists>s. test_shrink c m a = Some s) \<and> (\<exists>s. test_grow c m a = Some s) \<and>
    (\<exists>s. test_allocator_system K c k m' = Some s) \<and> (\<exists>s. test_many_small_allocations_native K c k' m'' = Some s)"
  using test_allocator_buffer_ok [OF b] test_many_small_allocations_buffer_ok [OF b] test_boundary_ok [OF b]
    test_shrink_ok [OF b] test_grow_ok [OF b] test_allocator_system_ok [OF l(1)] test_many_small_allocations_native_ok [OF l(2)]
  by blast

theorem unit_tests_pass_witness:
  "(\<exists>s. test_allocator_buffer demo_build (\<lambda>a. Some 0) 4096 = Some s) \<and> (\<exists>s. test_allocator_system demo_kernel demo_build () Map.empty = Some s)"
proof -
  have b: "test_block (\<lambda>a. Some 0) 4096" by (simp add: test_block_def region_ok_def byte_at_def)
  have T: "space 4096 = 128" "space (32 * 1024 * 1024) = 2 ^ 20" by (simp_all add: space_def const_size_def from_bytes_usize_eq)
  have l: "linux_init demo_kernel 4096 () Map.empty" by (rule demo_linux_init) (simp_all only: T, simp_all)
  have l': "linux_init demo_kernel (32 * 1024 * 1024) () Map.empty" by (rule demo_linux_init) (simp_all only: T, simp_all)
  show ?thesis using unit_tests_pass [OF b l l', of demo_build] by blast
qed

text \<open>
  C11: The test of the native library passes: a vector of \<^verbatim>\<open>usize\<close> and one of \<^verbatim>\<open>i32\<close> words grow through \<^verbatim>\<open>malloc\<close> and \<^verbatim>\<open>realloc\<close>, the first
  reads back what was pushed, and both are freed without a trace, whatever else is allocated, as long as the used units \<open>U\<close> and
  the number \<open>A\<close> of other allocations leave \<open>U + 2050 + 1032 (A + 3) < 2 ^ 25\<close>, so that there is always a gap that is large enough.
\<close>

theorem native_test_completes:
  assumes g: "libc_ok (SystemAllocator K) (linux_init K (1024 * 1024 * 1024)) c L M" and f: "fair sp"
    and M: "used M + 2050 + (card (dom M) + 3) * 1032 < 2 ^ 25"
  shows "\<exists>L'. native_test_allocator sp (SystemAllocator K) c L = Some (Some L') \<and>
    libc_ok (SystemAllocator K) (linux_init K (1024 * 1024 * 1024)) c L' M"
proof -
  have T: "space (1024 * 1024 * 1024) = 2 ^ 25" by (simp add: space_def const_size_def from_bytes_usize_eq)
  show ?thesis
    using generous_env.native_test_passes [OF full_linux.generous_env_axioms [of K "1024 * 1024 * 1024"]] g f M
    unfolding SystemAllocator_def T by blast
qed

theorem native_test_completes_witness:
  "\<exists>L'. native_test_allocator (\<lambda>i. i < 2) (SystemAllocator demo_kernel) demo_build demo_system = Some (Some L')"
proof -
  have "used Map.empty + 2050 + (card (dom (Map.empty :: view)) + 3) * 1032 < 2 ^ 25" by simp
  from native_test_completes [OF demo_system_ok demo_fair this] show ?thesis by blast
qed

text \<open>
  C37: Dropping an allocator that was never used unmaps the first bytes of the address space on Linux, as many as the
  allocator would have had, because the base it passes to \<^verbatim>\<open>munmap\<close> is null: whatever was mapped there is lost. (The
  kernel is assumed to unmap the range it is given.)
\<close>

theorem drop_unused_unmaps:
  assumes munmap: "\<And>len k m. syscall2 K SYS_MUNMAP 0 len k m = (0, k, unmap m 0 (unat len))"
    and x: "unat x < unat (bytes (const_size SIZE))"
  shows "\<exists>s. Allocator_drop (Linux_env K SIZE) (Allocator_new k m) = Some s \<and> mem s x = None"
proof -
  have "unat (ucast (bytes (const_size SIZE)) :: u64) = unat (bytes (const_size SIZE))" by (simp add: unat_ucast_up)
  then show ?thesis using munmap x
    by (simp add: Allocator_drop_def Allocator_new_def Linux_defs Linux_env_def abort_on_fail_def unmap_def)
qed

theorem drop_unused_unmaps_witness:
  "\<exists>s. Allocator_drop (Linux_env demo_kernel (1024 * 1024 * 1024)) (Allocator_new () [0x400000 \<mapsto> 0x7f]) = Some s \<and> mem s 0x400000 = None"
  by (rule drop_unused_unmaps) (simp_all add: demo_kernel_def const_size_def from_bytes_usize_eq bytes_sz)

end
